(* ===== verification/Prelude.thy ===== *)
theory Prelude
  imports Main "HOL-Library.Word" "HOL-Library.List_Lexorder"
begin

text \<open>
  Shared vocabulary of the development: bytes and words as the C++ code uses them, raw block
  copies (\<open>memcpy\<close>, \<open>memmove\<close>, \<open>memset\<close>) on arrays modelled as lists, and the list, map and
  word lemmas that several components need.

  An array is a list whose length is the declared length of the array; a block copy
  describes every cell of the destination by its index, so that the proofs about arrays
  are equations between cells.
\<close>

unbundle bit_operations_syntax

named_theorems mem_simps \<open>cells and lengths of arrays after block copies\<close>
named_theorems bit_char \<open>bitwise characterisations of masks\<close>

section \<open>Types\<close>

type_synonym byte = "8 word"
type_synonym u16 = "16 word"
type_synonym u32 = "32 word"
type_synonym u64 = "64 word"

text \<open>A pointer to a heap object: \<open>None\<close> is the null pointer.\<close>

type_synonym addr = nat
type_synonym ptr = "nat option"

section \<open>Block copies on arrays\<close>

text \<open>
  \<open>memcpy_at d s n src dst\<close> is \<open>memcpy(dst + d, src + s, n)\<close>; with \<open>src = dst\<close> it is
  \<open>memmove\<close>, whose result does not depend on the direction of the copy.
\<close>

definition memcpy_at :: "nat \<Rightarrow> nat \<Rightarrow> nat \<Rightarrow> 'a list \<Rightarrow> 'a list \<Rightarrow> 'a list" where
  "memcpy_at d s n src dst =
     map (\<lambda>i. if d \<le> i \<and> i < d + n then src ! (s + (i - d)) else dst ! i) [0..<length dst]"

definition memmove_in :: "nat \<Rightarrow> nat \<Rightarrow> nat \<Rightarrow> 'a list \<Rightarrow> 'a list" where
  "memmove_in d s n a = memcpy_at d s n a a"

definition memset_n :: "'a \<Rightarrow> nat \<Rightarrow> 'a list \<Rightarrow> 'a list" where
  "memset_n c n a = map (\<lambda>i. if i < n then c else a ! i) [0..<length a]"

lemma length_memcpy_at [simp, mem_simps]: "length (memcpy_at d s n src dst) = length dst"
  by (simp add: memcpy_at_def)

lemma nth_memcpy_at [simp, mem_simps]:
  "i < length dst \<Longrightarrow>
   memcpy_at d s n src dst ! i = (if d \<le> i \<and> i < d + n then src ! (s + (i - d)) else dst ! i)"
  by (simp add: memcpy_at_def)

lemma length_memmove_in [simp, mem_simps]: "length (memmove_in d s n a) = length a"
  by (simp add: memmove_in_def)

lemma nth_memmove_in [simp, mem_simps]:
  "i < length a \<Longrightarrow>
   memmove_in d s n a ! i = (if d \<le> i \<and> i < d + n then a ! (s + (i - d)) else a ! i)"
  by (simp add: memmove_in_def)

lemma length_memset_n [simp, mem_simps]: "length (memset_n c n a) = length a"
  by (simp add: memset_n_def)

lemma nth_memset_n [simp, mem_simps]:
  "i < length a \<Longrightarrow> memset_n c n a ! i = (if i < n then c else a ! i)"
  by (simp add: memset_n_def)

section \<open>Strictly sorted lists and search positions\<close>

text \<open>
  The position of a key in a strictly sorted list of separators: the number of separators
  below the key. It is the reference against which the searches of the code are proved.
\<close>

definition rank :: "'a::linorder \<Rightarrow> 'a list \<Rightarrow> nat" where
  "rank x xs = length (filter (\<lambda>y. y < x) xs)"

lemma rank_le [simp]: "rank x xs \<le> length xs"
  by (simp add: rank_def)

lemma rank_Nil [simp]: "rank x [] = 0"
  by (simp add: rank_def)

lemma rank_Cons [simp]: "rank x (y # ys) = (if y < x then Suc (rank x ys) else rank x ys)"
  by (simp add: rank_def)

lemma rank_append [simp]: "rank x (xs @ ys) = rank x xs + rank x ys"
  by (simp add: rank_def)

lemma rank_eq_0: "(\<And>y. y \<in> set xs \<Longrightarrow> x \<le> y) \<Longrightarrow> rank x xs = 0"
  by (auto simp: rank_def filter_empty_conv not_less)

lemma rank_eq_length: "(\<And>y. y \<in> set xs \<Longrightarrow> y < x) \<Longrightarrow> rank x xs = length xs"
  by (simp add: rank_def filter_id_conv)

lemma rank_split:
  assumes "sorted_wrt (<) xs"
  shows "(\<forall>i < rank x xs. xs ! i < x) \<and> (\<forall>i. rank x xs \<le> i \<longrightarrow> i < length xs \<longrightarrow> x \<le> xs ! i)"
  using assms
proof (induction xs)
  case Nil
  then show ?case by simp
next
  case (Cons y ys)
  show ?case
  proof (cases "y < x")
    case True
    with Cons show ?thesis
      by (auto simp: nth_Cons split: nat.splits)
  next
    case False
    have "\<And>z. z \<in> set ys \<Longrightarrow> x \<le> z"
      using Cons.prems False by fastforce
    then have "rank x ys = 0" by (rule rank_eq_0)
    with Cons False show ?thesis
      by (auto simp: nth_Cons split: nat.splits)
  qed
qed

lemma rank_nth_less: "sorted_wrt (<) xs \<Longrightarrow> i < rank x xs \<Longrightarrow> xs ! i < x"
  using rank_split by blast

lemma rank_nth_ge: "sorted_wrt (<) xs \<Longrightarrow> rank x xs \<le> i \<Longrightarrow> i < length xs \<Longrightarrow> x \<le> xs ! i"
  using rank_split by blast

lemma rank_unique:
  assumes "n \<le> length xs" "\<And>i. i < n \<Longrightarrow> xs ! i < x"
    and "\<And>i. n \<le> i \<Longrightarrow> i < length xs \<Longrightarrow> x \<le> xs ! i"
  shows "rank x xs = n"
proof -
  have "rank x xs = rank x (take n xs) + rank x (drop n xs)"
    by (metis append_take_drop_id rank_append)
  moreover have "rank x (take n xs) = length (take n xs)"
    using assms by (intro rank_eq_length) (auto simp: in_set_conv_nth)
  moreover have "rank x (drop n xs) = 0"
    using assms by (intro rank_eq_0) (auto simp: in_set_conv_nth)
  ultimately show ?thesis using assms(1) by simp
qed

text \<open>Inserting at a position and removing a position.\<close>

definition insert_at :: "nat \<Rightarrow> 'a \<Rightarrow> 'a list \<Rightarrow> 'a list" where
  "insert_at i x xs = take i xs @ x # drop i xs"

definition remove_at :: "nat \<Rightarrow> 'a list \<Rightarrow> 'a list" where
  "remove_at i xs = take i xs @ drop (Suc i) xs"

lemma length_insert_at [simp]: "i \<le> length xs \<Longrightarrow> length (insert_at i x xs) = Suc (length xs)"
  by (simp add: insert_at_def)

lemma nth_insert_at:
  "i \<le> length xs \<Longrightarrow> j \<le> length xs \<Longrightarrow>
   insert_at i x xs ! j = (if j < i then xs ! j else if j = i then x else xs ! (j - 1))"
  by (auto simp: insert_at_def nth_append nth_Cons' min_def)

lemma set_insert_at [simp]: "set (insert_at i x xs) = insert x (set xs)"
  using set_append[of "take i xs" "drop i xs"] by (simp add: insert_at_def)

lemma length_remove_at [simp]: "i < length xs \<Longrightarrow> length (remove_at i xs) = length xs - 1"
  by (simp add: remove_at_def)

lemma nth_remove_at:
  "i < length xs \<Longrightarrow> j < length xs - 1 \<Longrightarrow>
   remove_at i xs ! j = (if j < i then xs ! j else xs ! Suc j)"
  by (auto simp: remove_at_def nth_append min_def)

lemma sorted_insert_at:
  assumes "sorted_wrt (<) xs" "x \<notin> set xs"
  shows "sorted_wrt (<) (insert_at (rank x xs) x xs)"
proof -
  let ?n = "rank x xs"
  have "\<And>y. y \<in> set (take ?n xs) \<Longrightarrow> y < x"
    using rank_nth_less[OF assms(1)] by (auto simp: in_set_conv_nth)
  moreover have "\<And>y. y \<in> set (drop ?n xs) \<Longrightarrow> x < y"
  proof -
    fix y assume y: "y \<in> set (drop ?n xs)"
    then have "x \<le> y" using rank_nth_ge[OF assms(1)] by (auto simp: in_set_conv_nth)
    moreover have "x \<noteq> y" using y assms(2) by (auto dest: in_set_dropD)
    ultimately show "x < y" by simp
  qed
  moreover have "sorted_wrt (<) (take ?n xs @ drop ?n xs)" using assms(1) by simp
  ultimately show ?thesis
    unfolding insert_at_def by (simp only: sorted_wrt_append) (auto intro: less_trans)
qed

lemma sorted_remove_at: "sorted_wrt (<) xs \<Longrightarrow> sorted_wrt (<) (remove_at i xs)"
  by (auto simp: sorted_wrt_iff_nth_less remove_at_def nth_append)

lemma rank_insert_at:
  "rank x (insert_at i y xs) = rank x xs + (if y < x then 1 else 0)"
proof -
  have "rank x (insert_at i y xs) = rank x (take i xs @ drop i xs) + (if y < x then 1 else 0)"
    by (simp add: insert_at_def del: append_take_drop_id)
  then show ?thesis by simp
qed

lemma rank_mono:
  fixes x y :: "'a::linorder"
  shows "x \<le> y \<Longrightarrow> rank x xs \<le> rank y xs"
  by (induction xs) auto

lemma map_insert_at: "map f (insert_at i x xs) = insert_at i (f x) (map f xs)"
  by (simp add: insert_at_def take_map drop_map)

lemma less_rank_iff: "sorted_wrt (<) xs \<Longrightarrow> i < length xs \<Longrightarrow> i < rank k xs \<longleftrightarrow> xs ! i < k"
  using rank_nth_less[of xs i k] rank_nth_ge[of xs k i] by (cases "i < rank k xs") auto

lemma le_last: "sorted_wrt (<) xs \<Longrightarrow> x \<in> set xs \<Longrightarrow> (x :: 'a::linorder) \<le> last xs"
  by (induction xs) (auto intro: less_imp_le)

lemma rank_cmp: "rank x ks < rank m ks \<Longrightarrow> x < m"
  using rank_mono[of m x ks] by (meson leD leI)

lemma rank_between:
  assumes "sorted_wrt (<) ks" "rank m ks = j" "rank y ks = j" "m < y"
  shows "m \<notin> set ks"
proof
  assume "m \<in> set ks"
  then obtain i where i: "i < length ks" "ks ! i = m" by (auto simp: in_set_conv_nth)
  have "j \<le> i" using i less_rank_iff[OF assms(1) i(1), of m] assms(2) by simp
  moreover have "i < rank y ks" using i assms(4) less_rank_iff[OF assms(1) i(1), of y] by simp
  ultimately show False using assms(3) by simp
qed

text \<open>An insertion at one place into the keys and the values.\<close>

lemma map_of_insert_at:
  assumes "length ys = length xs" "i \<le> length xs" "k \<notin> set xs"
  shows "map_of (zip (insert_at i k xs) (insert_at i v ys)) = (map_of (zip xs ys))(k \<mapsto> v)"
proof -
  have "zip (insert_at i k xs) (insert_at i v ys) = zip (take i xs) (take i ys) @ (k, v) # zip (drop i xs) (drop i ys)"
    using assms by (simp add: insert_at_def)
  moreover have "zip xs ys = zip (take i xs) (take i ys) @ zip (drop i xs) (drop i ys)"
    using assms(1,2) by (metis append_take_drop_id length_take zip_append)
  moreover have "k \<notin> fst ` set (zip (take i xs) (take i ys))" using assms(3) by (auto dest!: set_zip_leftD in_set_takeD)
  ultimately show ?thesis by (simp add: map_add_upd_left map_of_eq_None_iff dom_map_of_conv_image_fst)
qed

text \<open>In a sorted list the pairs from a key on are a suffix, and those below a key a prefix.\<close>

lemma filter_zip_sorted:
  "sorted_wrt (<) xs \<Longrightarrow> length ys = length xs \<Longrightarrow>
   filter (\<lambda>(x, v). k \<le> x) (zip xs ys) = drop (rank k xs) (zip xs (ys :: 'v list))"
proof (induction xs arbitrary: ys)
  case (Cons x xs)
  then obtain y ys' where ys: "ys = y # ys'" by (cases ys) auto
  show ?case
  proof (cases "x < k")
    case False
    then have "\<forall>z\<in>set xs. k \<le> z" using Cons.prems(1) by fastforce
    then have "rank k xs = 0" by (intro rank_eq_0) blast
    then show ?thesis using Cons ys False by simp
  qed (use Cons ys in auto)
qed simp

lemma takeWhile_sorted:
  "sorted_wrt (<) (map fst ps) \<Longrightarrow> takeWhile (\<lambda>(x, _). \<not> x \<ge> k) ps = filter (\<lambda>(x, _). x < (k :: 'a::linorder)) ps"
proof (induction ps)
  case (Cons p ps)
  show ?case
  proof (cases "fst p < k")
    case False
    then have "filter (\<lambda>(x, _). x < k) ps = []" using Cons.prems by (force simp: filter_empty_conv)
    then show ?thesis using False by (cases p) simp
  qed (use Cons in \<open>auto simp: not_le\<close>)
qed simp

end
