(* ===== verification/Bits.thy ===== *)
theory Bits
  imports Prelude
begin

text \<open>
  The bit utilities of \<open>src/util/common.h\<close>: population count, leading and trailing zero
  counts, index of the least and most significant set bit, byte swap, parity, alignment and
  rounding. Each overload set of the header (signed and unsigned, 32 and 64 bits) is one
  definition over words of any width; the GCC builtins behind them are modelled by what
  they are documented to return. A count that is undefined on zero is \<open>None\<close> there.

  The second part is the loop that walks the set bits of a 64-bit mask, which every leaf
  operation uses, and the proof that it visits exactly the set bits in ascending order.
\<close>

section \<open>Counting and searching bits\<close>

definition popcount :: "'a::len word \<Rightarrow> nat" where
  "popcount n = length (filter (bit n) [0..<LENGTH('a)])"

definition countl_zero :: "'a::len word \<Rightarrow> nat option" where
  "countl_zero n =
     (if n = 0 then None
      else Some (length (takeWhile (\<lambda>i. \<not> bit n i) (rev [0..<LENGTH('a)]))))"

definition countl_one :: "'a::len word \<Rightarrow> nat option" where
  "countl_one n = countl_zero (NOT n)"

definition countr_zero :: "'a::len word \<Rightarrow> nat option" where
  "countr_zero n =
     (if n = 0 then None
      else Some (length (takeWhile (\<lambda>i. \<not> bit n i) [0..<LENGTH('a)])))"

definition countr_one :: "'a::len word \<Rightarrow> nat option" where
  "countr_one n = countr_zero (NOT n)"

text \<open>\<open>__builtin_ffs\<close>: one plus the index of the least significant set bit, 0 for 0.\<close>

definition builtin_ffs :: "'a::len word \<Rightarrow> nat" where
  "builtin_ffs n = (case find (bit n) [0..<LENGTH('a)] of None \<Rightarrow> 0 | Some i \<Rightarrow> Suc i)"

definition index_least1 :: "'a::len word \<Rightarrow> int" where
  "index_least1 n = int (builtin_ffs n) - 1"

definition index_least0 :: "'a::len word \<Rightarrow> int" where
  "index_least0 n = index_least1 (NOT n)"

definition index_most1 :: "'a::len word \<Rightarrow> int" where
  "index_most1 n =
     (if n \<noteq> 0 then int (LENGTH('a) - 1) - int (the (countl_zero n)) else - 1)"

definition index_most0 :: "'a::len word \<Rightarrow> int" where
  "index_most0 n = index_most1 (NOT n)"

definition parity :: "'a::len word \<Rightarrow> nat" where
  "parity n = popcount n mod 2"

section \<open>Bytes of a word\<close>

text \<open>
  The bytes of an integer in memory order on a little-endian machine, and the integer a
  byte array holds.
\<close>

definition bytes_le :: "'a::len word \<Rightarrow> byte list" where
  "bytes_le w = map (\<lambda>i. ucast (drop_bit (8 * i) w)) [0..<LENGTH('a) div 8]"

primrec of_bytes_le :: "byte list \<Rightarrow> 'a::len word" where
  "of_bytes_le [] = 0"
| "of_bytes_le (b # bs) = ucast b OR push_bit 8 (of_bytes_le bs)"

definition byte_swap :: "'a::len word \<Rightarrow> 'a word" where
  "byte_swap n = of_bytes_le (rev (bytes_le n))"

section \<open>Alignment and rounding\<close>

definition aligned :: "nat \<Rightarrow> nat \<Rightarrow> bool" where
  "aligned p align = (p mod align = 0)"

text \<open>The asserted preconditions are the domain of the two functions.\<close>

definition roundup :: "int \<Rightarrow> int \<Rightarrow> int option" where
  "roundup sz align =
     (if 0 \<le> sz \<and> 0 < align then Some ((sz + align - 1) div align * align) else None)"

definition rounddown :: "int \<Rightarrow> int \<Rightarrow> int option" where
  "rounddown sz align =
     (if 0 \<le> sz \<and> 0 < align then Some (sz div align * align) else None)"

section \<open>The loop over the set bits of a mask\<close>

text \<open>
  \<open>while(mask) { int idx = index_least1(mask); ...; mask &= ~(0x01ul << idx); }\<close>
  with a body that either returns from the function (\<open>Inl\<close>) or goes on with a new state
  (\<open>Inr\<close>).
\<close>

definition clear_bit :: "nat \<Rightarrow> u64 \<Rightarrow> u64" where
  "clear_bit i m = m AND NOT (push_bit i 1)"

lemma bit_clear_bit [bit_char]: "bit (clear_bit i m) j \<longleftrightarrow> bit m j \<and> j \<noteq> i"
  using bit_imp_le_length[of m j]
  by (auto simp: clear_bit_def bit_simps not_le)

lemma find_upt_least:
  "find P [a..<b] = Some i \<longleftrightarrow> a \<le> i \<and> i < b \<and> P i \<and> (\<forall>j. a \<le> j \<longrightarrow> j < i \<longrightarrow> \<not> P j)"
proof (induction "b - a" arbitrary: a)
  case 0
  then show ?case by auto
next
  case (Suc n)
  then have "a < b" by simp
  with Suc.hyps(1)[of "Suc a"] Suc.hyps(2) show ?case
    by (auto simp: upt_conv_Cons not_less_eq_eq le_less_Suc_eq
             dest: le_antisym Suc_leI intro: le_neq_implies_less)
       (metis Suc_leI le_neq_implies_less)+
qed

lemma word_zero_iff: "w = 0 \<longleftrightarrow> (\<forall>n. \<not> bit (w :: 'a::len word) n)"
proof
  assume "\<forall>n. \<not> bit w n"
  then show "w = 0" by (intro bit_word_eqI) simp
qed simp

lemma index_least1_zero [simp]: "index_least1 0 = - 1"
  by (auto simp: index_least1_def builtin_ffs_def find_Some_iff split: option.split)

lemma index_least1_iff:
  fixes n :: "'a::len word"
  shows "index_least1 n = int i \<longleftrightarrow> bit n i \<and> (\<forall>j < i. \<not> bit n j)"
proof -
  have "index_least1 n = int i \<longleftrightarrow> find (bit n) [0..<LENGTH('a)] = Some i"
    by (auto simp: index_least1_def builtin_ffs_def split: option.splits)
  also have "\<dots> \<longleftrightarrow> bit n i \<and> (\<forall>j < i. \<not> bit n j)"
    using bit_imp_le_length[of n i] by (auto simp: find_upt_least)
  finally show ?thesis .
qed

lemma least_bit_exists:
  fixes n :: "'a::len word"
  assumes "n \<noteq> 0"
  shows "\<exists>i. index_least1 n = int i \<and> i < LENGTH('a)"
proof -
  obtain k where "bit n k" using assms by (auto simp: bit_eq_iff)
  define i where "i = (LEAST k. bit n k)"
  have i: "bit n i" unfolding i_def using \<open>bit n k\<close> by (rule LeastI)
  have "\<forall>j < i. \<not> bit n j" unfolding i_def using not_less_Least by blast
  with i have "index_least1 n = int i" by (simp add: index_least1_iff)
  with i show ?thesis by (auto dest: bit_imp_le_length)
qed

lemma index_least1_minus1 [simp]: "index_least1 n = - 1 \<longleftrightarrow> n = 0"
proof
  assume "index_least1 n = - 1"
  then show "n = 0" using least_bit_exists[of n] by (cases "n = 0") auto
qed simp

lemma index_least1_nat:
  fixes n :: "'a::len word"
  assumes "n \<noteq> 0"
  shows "bit n (nat (index_least1 n))" "j < nat (index_least1 n) \<Longrightarrow> \<not> bit n j"
    "index_least1 n = int (nat (index_least1 n))"
    "nat (index_least1 n) < LENGTH('a)"
proof -
  obtain i where i: "index_least1 n = int i" "i < LENGTH('a)"
    using least_bit_exists[OF assms] by blast
  then have b: "bit n i" "\<And>j. j < i \<Longrightarrow> \<not> bit n j" by (simp_all add: index_least1_iff)
  show "bit n (nat (index_least1 n))" using i b by simp
  show "j < nat (index_least1 n) \<Longrightarrow> \<not> bit n j" using i b by simp
  show "index_least1 n = int (nat (index_least1 n))" using i by simp
  show "nat (index_least1 n) < LENGTH('a)" using i by simp
qed

lemma index_least0_iff:
  fixes n :: "'a::len word"
  shows "index_least0 n = int i \<longleftrightarrow> i < LENGTH('a) \<and> \<not> bit n i \<and> (\<forall>j < i. bit n j)"
  by (auto simp: index_least0_def index_least1_iff bit_simps)

lemma index_least0_minus1: "index_least0 n = - 1 \<longleftrightarrow> NOT n = 0"
  by (simp add: index_least0_def)

lemma index_least0_full: "index_least0 n = - 1 \<longleftrightarrow> (\<forall>i < LENGTH('a). bit (n::'a::len word) i)"
proof -
  have "NOT n = 0 \<longleftrightarrow> (\<forall>i < LENGTH('a). bit n i)"
    by (auto simp: bit_eq_iff bit_simps)
  then show ?thesis by (simp add: index_least0_minus1)
qed

lemma index_least0_nat:
  fixes n :: "'a::len word"
  assumes "index_least0 n \<noteq> - 1"
  shows "\<not> bit n (nat (index_least0 n))" "nat (index_least0 n) < LENGTH('a)"
proof -
  have nz: "NOT n \<noteq> 0" using assms by (simp add: index_least0_minus1)
  have lt: "nat (index_least1 (NOT n)) < LENGTH('a)"
    by (rule index_least1_nat(4)[OF nz])
  have "bit (NOT n) (nat (index_least1 (NOT n)))"
    by (rule index_least1_nat(1)[OF nz])
  then show "\<not> bit n (nat (index_least0 n))"
    by (simp add: index_least0_def bit_not_iff)
  show "nat (index_least0 n) < LENGTH('a)" using lt by (simp add: index_least0_def)
qed

lemma takeWhile_rev_upt:
  assumes "i < n" "P i" "\<forall>j. i < j \<longrightarrow> j < n \<longrightarrow> \<not> P j"
  shows "length (takeWhile (\<lambda>j. \<not> P j) (rev [0..<n])) = n - Suc i"
proof -
  have "[0..<n] = [0..<i] @ i # [Suc i..<n]"
    using assms(1) upt_add_eq_append[of 0 i "n - i"] by (simp add: upt_conv_Cons)
  moreover have "takeWhile (\<lambda>j. \<not> P j) (rev [Suc i..<n] @ i # rev [0..<i]) = rev [Suc i..<n]"
    using assms by (subst takeWhile_append2) auto
  ultimately show ?thesis by simp
qed

text \<open>The most significant set bit, from the number of leading zeros.\<close>

lemma countl_zero_iff:
  fixes n :: "'a::len word"
  assumes "bit n i" "\<forall>j > i. \<not> bit n j"
  shows "countl_zero n = Some (LENGTH('a) - Suc i)"
proof -
  have "i < LENGTH('a)" using assms(1) by (rule bit_imp_le_length)
  moreover have "n \<noteq> 0" using assms(1) by auto
  ultimately show ?thesis
    using assms by (simp add: countl_zero_def takeWhile_rev_upt)
qed

lemma top_bit_exists:
  fixes n :: "'a::len word"
  assumes "n \<noteq> 0"
  obtains i where "bit n i" "\<forall>j > i. \<not> bit n j" "i < LENGTH('a)"
proof -
  let ?S = "{i. i < LENGTH('a) \<and> bit n i}"
  have "finite ?S" by simp
  obtain k where "bit n k" using assms by (auto simp: bit_eq_iff)
  then have "?S \<noteq> {}" by (auto dest: bit_imp_le_length)
  with \<open>finite ?S\<close> have m: "Max ?S \<in> ?S" by (rule Max_in)
  have u: "\<not> bit n j" if "Max ?S < j" for j
  proof
    assume "bit n j"
    then have "j \<in> ?S" by (simp add: bit_imp_le_length)
    with \<open>finite ?S\<close> have "j \<le> Max ?S" by (rule Max_ge)
    with that show False by simp
  qed
  from m have "bit n (Max ?S)" "Max ?S < LENGTH('a)" by blast+
  with u show thesis using that by blast
qed

lemma index_most1_iff:
  fixes n :: "'a::len word"
  shows "index_most1 n = int i \<longleftrightarrow> bit n i \<and> (\<forall>j > i. \<not> bit n j)"
proof (cases "n = 0")
  case True
  then show ?thesis by (simp add: index_most1_def)
next
  case False
  then obtain k where k: "bit n k" "\<forall>j > k. \<not> bit n j" "k < LENGTH('a)"
    by (rule top_bit_exists)
  then have "index_most1 n = int k"
    using False by (simp add: index_most1_def countl_zero_iff)
  moreover have "bit n i \<and> (\<forall>j > i. \<not> bit n j) \<longleftrightarrow> i = k"
    using k by (auto intro: linorder_neqE_nat)
  ultimately show ?thesis by auto
qed

section \<open>Set bits of a mask as a list\<close>

definition mask_bits :: "'a::len word \<Rightarrow> nat list" where
  "mask_bits m = filter (bit m) [0..<LENGTH('a)]"

lemma set_mask_bits [simp]: "set (mask_bits m) = {i. bit m i}"
  by (auto simp: mask_bits_def dest: bit_imp_le_length)

lemma distinct_mask_bits [simp]: "distinct (mask_bits m)"
  by (simp add: mask_bits_def)

lemma sorted_mask_bits [simp]: "sorted_wrt (<) (mask_bits m)"
  by (simp add: mask_bits_def sorted_wrt_filter)

lemma popcount_mask_bits: "popcount m = length (mask_bits m)"
  by (simp add: popcount_def mask_bits_def)

lemma popcount_card: "popcount m = card {i. bit m i}"
  by (metis distinct_card distinct_mask_bits popcount_mask_bits set_mask_bits)

lemma mask_bits_0 [simp]: "mask_bits 0 = []"
  by (simp add: mask_bits_def)

lemma mask_bits_Nil [simp]: "mask_bits m = [] \<longleftrightarrow> m = 0"
proof -
  have "mask_bits m = [] \<longleftrightarrow> (\<forall>i. \<not> bit m i)"
    using set_mask_bits[of m] by (cases "mask_bits m") auto
  also have "\<dots> \<longleftrightarrow> m = 0"
    by (auto simp: bit_eq_iff dest: bit_imp_le_length)
  finally show ?thesis .
qed

lemma popcount_0 [simp]: "popcount 0 = 0"
  by (simp add: popcount_mask_bits)

lemma popcount_eq_0 [simp]: "popcount m = 0 \<longleftrightarrow> m = 0"
  by (simp add: popcount_mask_bits)

lemma popcount_le: "popcount (m :: 'a::len word) \<le> LENGTH('a)"
  by (simp add: popcount_def) (metis diff_zero length_filter_le length_upt)

lemma strict_sorted_set_unique:
  "sorted_wrt (<) xs \<Longrightarrow> sorted_wrt (<) ys \<Longrightarrow> set xs = set ys \<Longrightarrow> xs = (ys :: 'a::linorder list)"
  by (simp add: strict_sorted_equal)

lemma mask_bits_Cons:
  assumes "m \<noteq> 0"
  shows "mask_bits m = nat (index_least1 m) # mask_bits (clear_bit (nat (index_least1 m)) m)"
proof (rule strict_sorted_set_unique)
  let ?i = "nat (index_least1 m)"
  have "\<And>j. bit m j \<Longrightarrow> ?i \<le> j"
    using index_least1_nat(2)[OF assms] by (meson not_le_imp_less)
  then show "sorted_wrt (<) (?i # mask_bits (clear_bit ?i m))"
    by (auto simp: bit_clear_bit intro: le_neq_implies_less)
  show "set (mask_bits m) = set (?i # mask_bits (clear_bit ?i m))"
    using index_least1_nat(1)[OF assms] by (auto simp: bit_clear_bit)
qed simp

lemma length_mask_bits_clear:
  "m \<noteq> 0 \<Longrightarrow> length (mask_bits (clear_bit (nat (index_least1 m)) m)) < length (mask_bits m)"
  by (subst (2) mask_bits_Cons) auto

function mask_loop :: "(nat \<Rightarrow> 's \<Rightarrow> 'r + 's) \<Rightarrow> u64 \<Rightarrow> 's \<Rightarrow> 'r + 's" where
  "mask_loop f m s =
     (if m = 0 then Inr s
      else let idx = nat (index_least1 m)
           in case f idx s of Inl r \<Rightarrow> Inl r | Inr s' \<Rightarrow> mask_loop f (clear_bit idx m) s')"
  by pat_completeness auto
termination
  by (relation "measure (\<lambda>(f, m, s). length (mask_bits m))")
     (auto simp: length_mask_bits_clear)

declare mask_loop.simps [simp del]

primrec list_loop :: "('i \<Rightarrow> 's \<Rightarrow> 'r + 's) \<Rightarrow> 'i list \<Rightarrow> 's \<Rightarrow> 'r + 's" where
  "list_loop f [] s = Inr s"
| "list_loop f (i # is) s = (case f i s of Inl r \<Rightarrow> Inl r | Inr s' \<Rightarrow> list_loop f is s')"

lemma mask_loop_list: "mask_loop f m s = list_loop f (mask_bits m) s"
proof (induction f m s rule: mask_loop.induct)
  case (1 f m s)
  show ?case
  proof (cases "m = 0")
    case True
    then show ?thesis by (simp add: mask_loop.simps)
  next
    case False
    then show ?thesis
      using "1.IH"[OF False refl]
      by (simp add: mask_loop.simps[of f m s] mask_bits_Cons[OF False] Let_def split: sum.split)
  qed
qed

lemma list_loop_append:
  "list_loop f (xs @ ys) s =
     (case list_loop f xs s of Inl r \<Rightarrow> Inl r | Inr s' \<Rightarrow> list_loop f ys s')"
  by (induction xs arbitrary: s) (auto split: sum.splits)

text \<open>A loop whose body never returns is a fold.\<close>

lemma list_loop_fold:
  "list_loop (\<lambda>i s. Inr (g i s)) xs s = Inr (fold g xs s)"
  by (induction xs arbitrary: s) auto

text \<open>A search loop stops at the first index whose test succeeds.\<close>

lemma list_loop_search:
  "list_loop (\<lambda>i s. if P i then Inl (g i) else Inr s) xs s =
     (case find P xs of None \<Rightarrow> Inr s | Some i \<Rightarrow> Inl (g i))"
  by (induction xs) auto

section \<open>Bytes\<close>

lemma length_bytes_le [simp]: "length (bytes_le (w :: 'a::len word)) = LENGTH('a) div 8"
  by (simp add: bytes_le_def)

lemma bit_of_bytes_le [bit_char]:
  "bit (of_bytes_le bs :: 'a::len word) i \<longleftrightarrow>
     i < LENGTH('a) \<and> i div 8 < length bs \<and> bit (bs ! (i div 8)) (i mod 8)"
proof (induction bs arbitrary: i)
  case Nil
  then show ?case by simp
next
  case (Cons b bs)
  show ?case
  proof (cases "i < 8")
    case True
    then show ?thesis by (auto simp: bit_simps not_le dest: bit_imp_le_length)
  next
    case False
    then have d: "i div 8 = Suc ((i - 8) div 8)" and m: "i mod 8 = (i - 8) mod 8"
      by (auto simp: le_div_geq le_mod_geq)
    have "\<not> bit b i" using False by (auto dest: bit_imp_le_length)
    then show ?thesis
      using False Cons.IH[of "i - 8"] by (auto simp: bit_simps d m)
  qed
qed

lemma bytes_of_bytes_le:
  assumes "length bs = LENGTH('a) div 8"
  shows "bytes_le (of_bytes_le bs :: 'a::len word) = bs"
proof (rule nth_equalityI)
  show "length (bytes_le (of_bytes_le bs :: 'a word)) = length bs" using assms by simp
next
  fix i assume "i < length (bytes_le (of_bytes_le bs :: 'a word))"
  then have i: "i < LENGTH('a) div 8" by simp
  show "bytes_le (of_bytes_le bs :: 'a word) ! i = bs ! i"
  proof (rule bit_word_eqI)
    fix n assume "n < LENGTH(8)"
    then have n: "n < 8" by simp
    have "8 * i + n < LENGTH('a)" using i n by linarith
    moreover have "(8 * i + n) div 8 = i" "(8 * i + n) mod 8 = n" using n by auto
    ultimately show "bit (bytes_le (of_bytes_le bs :: 'a word) ! i) n = bit (bs ! i) n"
      using i n assms by (simp add: bytes_le_def bit_simps bit_of_bytes_le)
  qed
qed

lemma of_bytes_bytes_le:
  assumes "8 dvd LENGTH('a)"
  shows "of_bytes_le (bytes_le w) = (w :: 'a::len word)"
proof (rule bit_word_eqI)
  fix n assume n: "n < LENGTH('a)"
  then have "n div 8 < LENGTH('a) div 8"
    using assms by (metis div_less_iff_less_mult dvd_div_mult_self zero_less_numeral)
  with n show "bit (of_bytes_le (bytes_le w) :: 'a word) n = bit w n"
    by (simp add: bit_of_bytes_le bytes_le_def bit_simps)
qed

lemma bytes_byte_swap:
  "bytes_le (byte_swap w) = rev (bytes_le (w :: 'a::len word))"
  by (simp add: byte_swap_def bytes_of_bytes_le)

lemma byte_swap_swap:
  "8 dvd LENGTH('a) \<Longrightarrow> byte_swap (byte_swap w) = (w :: 'a::len word)"
  by (simp add: byte_swap_def[of "byte_swap w"] bytes_byte_swap of_bytes_bytes_le)

lemma roundup_spec:
  assumes "roundup sz align = Some r"
  shows "align dvd r" "sz \<le> r" "r < sz + align"
proof -
  have *: "0 < align" "r = (sz + align - 1) div align * align"
    using assms by (auto simp: roundup_def split: if_splits)
  show "align dvd r" using * by simp
  have "r = (sz + align - 1) - (sz + align - 1) mod align"
    using * by (simp add: minus_mod_eq_div_mult)
  moreover have "0 \<le> (sz + align - 1) mod align" "(sz + align - 1) mod align < align"
    using * by auto
  ultimately show "sz \<le> r" "r < sz + align" by auto
qed

end
