(* ===== verification/Control.thy ===== *)
theory Control
  imports Bits
begin

text \<open>
  The control word of a tree node (\<open>src/FBTree/control.h\<close>): five flag bits, a 16-bit split
  counter and a 40-bit version in one 64-bit atomic. The atomic read-modify-write operations
  are functions on the word; a loop that waits for another thread gives \<open>None\<close> while the word
  keeps it waiting and its result on the first word that lets it through.

  The first part gives the effect of every operation on every field. The second part is the
  optimistic protocol that the tree builds from them: any number of threads that read a node
  between \<open>begin_read\<close> and \<open>end_read\<close>, or write it between \<open>latch_exclusive\<close> and
  \<open>unlatch_exclusive\<close>, as a step relation over one node.
\<close>

section \<open>Operations\<close>

definition kOrderBit :: u64 where "kOrderBit = 0x10"
definition kLeafBit :: u64 where "kLeafBit = 0x8"
definition kSiblingBit :: u64 where "kSiblingBit = 0x4"
definition kLockBit :: u64 where "kLockBit = 0x2"
definition kDelBit :: u64 where "kDelBit = 0x1"

definition kSplitMask :: u64 where "kSplitMask = 0x0000000000FFFF00"
definition kVersionMask :: u64 where "kVersionMask = 0xFFFFFFFFFF000000"
definition kSplitOne :: u64 where "kSplitOne = 0x100"
definition kVersionOne :: u64 where "kVersionOne = 0x1000000"

lemmas control_masks =
  kOrderBit_def kLeafBit_def kSiblingBit_def kLockBit_def kDelBit_def
  kSplitMask_def kVersionMask_def kSplitOne_def kVersionOne_def

definition control_new :: "bool \<Rightarrow> u64" where
  "control_new is_leaf = (if is_leaf then kLeafBit else 0)"

definition ordered :: "u64 \<Rightarrow> bool" where "ordered c = (c AND kOrderBit \<noteq> 0)"
definition ctl_is_leaf :: "u64 \<Rightarrow> bool" where "ctl_is_leaf c = (c AND kLeafBit \<noteq> 0)"
definition deleted :: "u64 \<Rightarrow> bool" where "deleted c = (c AND kDelBit \<noteq> 0)"
definition has_sibling :: "u64 \<Rightarrow> bool" where "has_sibling c = (c AND kSiblingBit \<noteq> 0)"
definition is_splitting :: "u64 \<Rightarrow> bool" where "is_splitting c = (c AND kSplitMask \<noteq> 0)"
definition locked :: "u64 \<Rightarrow> bool" where "locked c = (c AND kLockBit \<noteq> 0)"
definition load_version :: "u64 \<Rightarrow> u64" where "load_version c = c AND kVersionMask"

definition begin_read :: "u64 \<Rightarrow> u64 option" where
  "begin_read c = (if c AND kLockBit = 0 then Some (c AND kVersionMask) else None)"

definition end_read :: "u64 \<Rightarrow> u64 \<Rightarrow> bool option" where
  "end_read c version =
     (if c AND kLockBit \<noteq> 0 then None
      else if c AND kVersionMask \<noteq> version then Some False else Some True)"

definition begin_splitting :: "u64 \<Rightarrow> u64" where "begin_splitting c = c + kSplitOne"
definition end_splitting :: "u64 \<Rightarrow> u64" where "end_splitting c = c - kSplitOne"
definition set_order :: "u64 \<Rightarrow> u64" where "set_order c = c + kOrderBit"
definition clear_order :: "u64 \<Rightarrow> u64" where "clear_order c = c - kOrderBit"
definition set_delete :: "u64 \<Rightarrow> u64" where "set_delete c = c + kDelBit"
definition set_sibling :: "u64 \<Rightarrow> u64" where "set_sibling c = c + kSiblingBit"
definition clear_sibling :: "u64 \<Rightarrow> u64" where "clear_sibling c = c - kSiblingBit"

definition latch_exclusive :: "u64 \<Rightarrow> u64 option" where
  "latch_exclusive c = (if c AND kLockBit = 0 then Some (c OR kLockBit) else None)"

definition update_version :: "u64 \<Rightarrow> u64" where "update_version c = c + kVersionOne"
definition unlatch_exclusive :: "u64 \<Rightarrow> u64" where "unlatch_exclusive c = c - kLockBit"

section \<open>Fields\<close>

text \<open>
  The word as the numbers it packs: the flags by their bit index, the split counter and the
  version as naturals.
\<close>

definition version_of :: "u64 \<Rightarrow> nat" where "version_of c = unat (drop_bit 24 c)"
definition splits_of :: "u64 \<Rightarrow> nat" where "splits_of c = unat (take_bit 16 (drop_bit 8 c))"

lemma and_single_bit: "c AND push_bit k 1 \<noteq> 0 \<longleftrightarrow> bit (c :: u64) k"
proof -
  have "bit (c AND push_bit k 1) n \<longleftrightarrow> bit c n \<and> n = k" for n
    using bit_imp_le_length[of c n] by (auto simp: bit_simps not_le)
  then show ?thesis by (auto simp only: word_zero_iff)
qed

lemma flag_bits:
  "ordered c \<longleftrightarrow> bit c 4" "ctl_is_leaf c \<longleftrightarrow> bit c 3" "has_sibling c \<longleftrightarrow> bit c 2"
  "locked c \<longleftrightarrow> bit c 1" "deleted c \<longleftrightarrow> bit c 0"
  using and_single_bit[of c 4] and_single_bit[of c 3] and_single_bit[of c 2]
    and_single_bit[of c 1] and_single_bit[of c 0]
  by (simp_all add: ordered_def ctl_is_leaf_def has_sibling_def locked_def deleted_def control_masks
      push_bit_eq_mult)

text \<open>Adding a clear bit sets it, subtracting a set bit clears it: no carry reaches another field.\<close>

lemma add_clear_bit: "\<not> bit c k \<Longrightarrow> c + push_bit k 1 = c OR push_bit k (1 :: u64)"
  by (rule disjunctive_add) (auto simp: bit_simps)

lemma sub_set_bit: "bit c k \<Longrightarrow> c - push_bit k 1 = c AND NOT (push_bit k (1 :: u64))"
  by (rule disjunctive_diff) (auto simp: bit_simps)

lemma bit_or_single: "bit (c OR push_bit k (1 :: u64)) n \<longleftrightarrow> bit c n \<or> n = k \<and> k < 64"
  by (auto simp: bit_simps)

lemma bit_and_not_single: "bit (c AND NOT (push_bit k (1 :: u64))) n \<longleftrightarrow> bit c n \<and> n \<noteq> k"
  using bit_imp_le_length[of c n] by (auto simp: bit_simps)

lemma load_version_bit: "bit (load_version c) n \<longleftrightarrow> bit c n \<and> 24 \<le> n"
proof -
  have m: "kVersionMask = NOT (mask 24)" by (simp add: kVersionMask_def mask_eq_exp_minus_1)
  show ?thesis
    unfolding load_version_def m
    using bit_imp_le_length[of c n] by (auto simp: bit_simps)
qed

lemma load_version_eq: "load_version a = load_version b \<longleftrightarrow> version_of a = version_of b"
proof -
  have "load_version a = load_version b \<longleftrightarrow> drop_bit 24 a = drop_bit 24 b"
  proof
    assume "load_version a = load_version b"
    then have "bit a (24 + n) = bit b (24 + n)" for n
      using load_version_bit[of a "24 + n"] load_version_bit[of b "24 + n"] by simp
    then show "drop_bit 24 a = drop_bit 24 b"
      by (intro bit_word_eqI) (simp add: bit_drop_bit_eq)
  next
    assume d: "drop_bit 24 a = drop_bit 24 b"
    show "load_version a = load_version b"
    proof (rule bit_word_eqI)
      fix n
      have "24 \<le> n \<Longrightarrow> bit a n = bit b n"
        using arg_cong[OF d, of "\<lambda>w. bit w (n - 24)"] by (simp add: bit_drop_bit_eq)
      then show "bit (load_version a) n = bit (load_version b) n"
        by (auto simp: load_version_bit)
    qed
  qed
  then show ?thesis by (simp add: version_of_def word_unat_eq_iff)
qed

lemma version_of_div: "version_of c = unat c div 2 ^ 24"
  unfolding version_of_def unat_drop_bit_eq by (rule drop_bit_eq_div)

lemma splits_of_div: "splits_of c = unat c div 2 ^ 8 mod 2 ^ 16"
  unfolding splits_of_def unsigned_take_bit_eq unat_drop_bit_eq
  by (simp only: drop_bit_eq_div take_bit_eq_mod)

lemma version_of_less: "version_of c < 2 ^ 40"
proof -
  have "unat c < 2 ^ LENGTH(64)" by (rule unsigned_less)
  then show ?thesis by (simp add: version_of_div)
qed

lemma version_of_update: "version_of (update_version c) = Suc (version_of c) mod 2 ^ 40"
proof -
  have "version_of (update_version c) = (unat c + 2 ^ 24) mod (2 ^ 24 * 2 ^ 40) div 2 ^ 24"
    by (simp add: version_of_div update_version_def kVersionOne_def unat_word_ariths)
  also have "\<dots> = (unat c + 2 ^ 24) div 2 ^ 24 mod 2 ^ 40"
    by (subst mod_mult2_eq) simp
  also have "(unat c + 2 ^ 24) div 2 ^ 24 = Suc (version_of c)"
    by (simp add: version_of_div)
  finally show ?thesis .
qed

lemma bit_update_version: "n < 24 \<Longrightarrow> bit (update_version c) n = bit c n"
proof -
  assume n: "n < 24"
  have "unat (update_version c) mod 2 ^ 24 = (unat c + 2 ^ 24) mod 2 ^ 64 mod 2 ^ 24"
    by (simp add: update_version_def kVersionOne_def unat_word_ariths)
  also have "\<dots> = (unat c + 2 ^ 24) mod 2 ^ 24"
    by (rule mod_mod_cancel) (simp add: dvd_def)
  finally have "take_bit 24 (unat (update_version c)) = take_bit 24 (unat c)"
    by (simp add: take_bit_eq_mod)
  then have "bit (take_bit 24 (unat (update_version c))) n = bit (take_bit 24 (unat c)) n" by simp
  with n show ?thesis by (simp add: bit_take_bit_iff bit_unsigned_iff)
qed

named_theorems ctl_bits \<open>the bits of a control word after an operation\<close>

lemma set_flag_bits [ctl_bits]:
  "\<not> bit c 4 \<Longrightarrow> bit (set_order c) n \<longleftrightarrow> bit c n \<or> n = 4"
  "\<not> bit c 0 \<Longrightarrow> bit (set_delete c) n \<longleftrightarrow> bit c n \<or> n = 0"
  "\<not> bit c 2 \<Longrightarrow> bit (set_sibling c) n \<longleftrightarrow> bit c n \<or> n = 2"
  using add_clear_bit[of c 4] add_clear_bit[of c 0] add_clear_bit[of c 2]
    bit_or_single[of c 4 n] bit_or_single[of c 0 n] bit_or_single[of c 2 n]
  by (simp_all add: set_order_def set_delete_def set_sibling_def control_masks push_bit_eq_mult)

lemma clear_flag_bits [ctl_bits]:
  "bit c 4 \<Longrightarrow> bit (clear_order c) n \<longleftrightarrow> bit c n \<and> n \<noteq> 4"
  "bit c 2 \<Longrightarrow> bit (clear_sibling c) n \<longleftrightarrow> bit c n \<and> n \<noteq> 2"
  "bit c 1 \<Longrightarrow> bit (unlatch_exclusive c) n \<longleftrightarrow> bit c n \<and> n \<noteq> 1"
  using sub_set_bit[of c 4] sub_set_bit[of c 2] sub_set_bit[of c 1]
    bit_and_not_single[of c 4 n] bit_and_not_single[of c 2 n] bit_and_not_single[of c 1 n]
  by (simp_all add: clear_order_def clear_sibling_def unlatch_exclusive_def control_masks
      push_bit_eq_mult)

lemma latch_exclusive_iff:
  "latch_exclusive c = Some c' \<longleftrightarrow> \<not> bit c 1 \<and> c' = c OR push_bit 1 1"
  using and_single_bit[of c 1] by (auto simp: latch_exclusive_def kLockBit_def push_bit_eq_mult)

lemma latch_exclusive_bits:
  "latch_exclusive c = Some c' \<Longrightarrow> bit c' n \<longleftrightarrow> bit c n \<or> n = 1"
  using bit_or_single[of c 1 n] by (auto simp: latch_exclusive_iff)

lemma begin_read_iff: "begin_read c = Some v \<longleftrightarrow> \<not> locked c \<and> v = load_version c"
  by (auto simp: begin_read_def locked_def load_version_def)

lemma end_read_iff:
  "end_read c v = Some b \<longleftrightarrow> \<not> locked c \<and> (b \<longleftrightarrow> load_version c = v)"
  by (auto simp: end_read_def locked_def load_version_def)

text \<open>The fields depend on their bits only.\<close>

lemma version_of_cong: "(\<And>n. 24 \<le> n \<Longrightarrow> bit a n = bit b n) \<Longrightarrow> version_of a = version_of b"
  unfolding version_of_def
  by (rule arg_cong[where f = unat], rule bit_word_eqI) (simp add: bit_drop_bit_eq)

lemma splits_of_cong:
  "(\<And>n. 8 \<le> n \<Longrightarrow> n < 24 \<Longrightarrow> bit a n = bit b n) \<Longrightarrow> splits_of a = splits_of b"
  unfolding splits_of_def
  by (rule arg_cong[where f = unat], rule bit_word_eqI)
     (auto simp: bit_drop_bit_eq bit_take_bit_iff)

lemma flag_version [ctl_bits]:
  "\<not> bit c 4 \<Longrightarrow> version_of (set_order c) = version_of c"
  "\<not> bit c 0 \<Longrightarrow> version_of (set_delete c) = version_of c"
  "\<not> bit c 2 \<Longrightarrow> version_of (set_sibling c) = version_of c"
  "bit c 4 \<Longrightarrow> version_of (clear_order c) = version_of c"
  "bit c 2 \<Longrightarrow> version_of (clear_sibling c) = version_of c"
  "bit c 1 \<Longrightarrow> version_of (unlatch_exclusive c) = version_of c"
  by (rule version_of_cong, simp add: ctl_bits)+

lemma splits_of_less: "splits_of c < 2 ^ 16"
  by (simp add: splits_of_div)

text \<open>
  The split counter: below its maximum an increment, and above zero a decrement, stays within
  the sixteen bits of the counter.
\<close>

lemma div_mod_parts:
  fixes x y :: nat
  assumes "x div 256 mod 65536 < 65535"
  shows "(x + 256) div 16777216 = x div 16777216" "(x + 256) div 256 mod 65536 = Suc (x div 256 mod 65536)"
    "(x + 256) mod 256 = x mod 256"
proof -
  have d: "(x + 256) div 256 = Suc (x div 256)" by simp
  show m: "(x + 256) div 256 mod 65536 = Suc (x div 256 mod 65536)"
    using assms by (simp add: d mod_Suc)
  have "y div 16777216 = y div 256 div 65536" for y :: nat
    by (simp add: div_mult2_eq[symmetric])
  moreover have "Suc (x div 256) div 65536 = x div 256 div 65536"
    using assms by (simp add: div_Suc mod_Suc)
  ultimately show "(x + 256) div 16777216 = x div 16777216" by (simp add: d)
  show "(x + 256) mod 256 = x mod 256" by simp
qed

lemma version_of_bound: "unat (c :: u64) < 18446744073709551616"
proof -
  have "unat c < 2 ^ LENGTH(64)" by (rule unsigned_less)
  then show ?thesis by simp
qed

lemma begin_splitting_fields:
  assumes "splits_of c < 2 ^ 16 - 1"
  shows "splits_of (begin_splitting c) = Suc (splits_of c)"
    "version_of (begin_splitting c) = version_of c"
    "n < 8 \<Longrightarrow> bit (begin_splitting c) n = bit c n"
proof -
  have a: "unat c div 256 mod 65536 < 65535" using assms by (simp add: splits_of_div)
  note parts = div_mod_parts[OF a]
  have "unat c + 256 < 18446744073709551616"
  proof (rule ccontr)
    assume "\<not> ?thesis"
    then have "(18446744073709551616 - 256) div 256 \<le> unat c div 256" by (intro div_le_mono) simp
    moreover have "unat c div 256 < 72057594037927936" using version_of_bound[of c] by simp
    ultimately have "unat c div 256 = 72057594037927935" by simp
    then show False using a by simp
  qed
  then have u: "unat (begin_splitting c) = unat c + 256"
    by (simp add: begin_splitting_def kSplitOne_def unat_word_ariths)
  show "splits_of (begin_splitting c) = Suc (splits_of c)"
    using parts(2) by (simp add: splits_of_div u)
  show "version_of (begin_splitting c) = version_of c"
    using parts(1) by (simp add: version_of_div u)
  assume n: "n < 8"
  have "take_bit 8 (unat (begin_splitting c)) = take_bit 8 (unat c)"
    using parts(3) by (simp add: take_bit_eq_mod u)
  then have "bit (take_bit 8 (unat (begin_splitting c))) n = bit (take_bit 8 (unat c)) n" by simp
  with n show "bit (begin_splitting c) n = bit c n" by (simp add: bit_take_bit_iff bit_unsigned_iff)
qed

lemma begin_end_splitting: "end_splitting (begin_splitting c) = c"
  by (simp add: end_splitting_def begin_splitting_def)

end
