(* ===== verification/Protocol.thy ===== *)
theory Protocol
  imports Control
begin

text \<open>
  The optimistic protocol on one node. Any number of threads either read the node between
  \<open>begin_read\<close> and \<open>end_read\<close> or write it between \<open>latch_exclusive\<close> and
  \<open>unlatch_exclusive\<close>; their atomic actions interleave freely. The repository has several locks
  of this kind (\<open>src/FBTree/control.h\<close>, \<open>VerLock\<close> of \<open>src/util/lock.h\<close>, \<open>OptLock\<close> of
  \<open>src/BTreeOLC/BTreeOLC.h\<close>), so the step relation takes the atomic actions of the lock as a
  record, the locale \<open>versioned_lock\<close> states what the protocol needs of them, and its theorems are
  proved once. Each lock interprets the locale with its own operations.

  Ghost fields, read by no step's guard: the number of version updates so far, and in every
  thread the state of the node when its section began.
\<close>

section \<open>The step relation\<close>

text \<open>
  \<open>vbegin\<close>, \<open>vend\<close> and \<open>vlatch\<close> are \<open>None\<close> while the thread has to wait or restart;
  \<open>vbump\<close> lists the words that a version update inside a writing section can leave;
  \<open>vrelease\<close> lists the words an unlock can leave, each with whether it advances the version;
  \<open>vother\<close> lists the words that the remaining atomic updates can leave.
\<close>

record ('w, 's) vlock =
  vbegin :: "'w \<Rightarrow> 's option"
  vend :: "'w \<Rightarrow> 's \<Rightarrow> bool option"
  vlatch :: "'w \<Rightarrow> 'w option"
  vbump :: "'w \<Rightarrow> 'w list"
  vrelease :: "'w \<Rightarrow> ('w \<times> bool) list"
  vother :: "'w \<Rightarrow> 'w list"

datatype ('w, 's, 'd) pc =
    Idle
  | Reading (snap: 's) (seen: "'d list") (word0: 'w) (data0: 'd) (upds0: nat)
  | Writing (dirty: bool) (bumped: bool) (upds0: nat)

record ('w, 's, 'd) pstate =
  pword :: 'w
  pdat :: 'd
  pupds :: nat
  pthr :: "nat \<Rightarrow> ('w, 's, 'd) pc"

definition pinit :: "'w \<Rightarrow> 'd \<Rightarrow> ('w, 's, 'd) pstate" where
  "pinit w d = \<lparr>pword = w, pdat = d, pupds = 0, pthr = (\<lambda>_. Idle)\<rparr>"

inductive pstep :: "('w, 's) vlock \<Rightarrow> ('w, 's, 'd) pstate \<Rightarrow> ('w, 's, 'd) pstate \<Rightarrow> bool"
  for L where
  read_begin: "\<lbrakk>pthr s t = Idle; vbegin L (pword s) = Some v\<rbrakk> \<Longrightarrow>
    pstep L s (s\<lparr>pthr := (pthr s)(t := Reading v [] (pword s) (pdat s) (pupds s))\<rparr>)"
| read_observe: "\<lbrakk>pthr s t = Reading v obs w0 d0 c0\<rbrakk> \<Longrightarrow>
    pstep L s (s\<lparr>pthr := (pthr s)(t := Reading v (pdat s # obs) w0 d0 c0)\<rparr>)"
| read_end: "\<lbrakk>pthr s t = Reading v obs w0 d0 c0; vend L (pword s) v = Some ok\<rbrakk> \<Longrightarrow>
    pstep L s (s\<lparr>pthr := (pthr s)(t := Idle)\<rparr>)"
| write_latch: "\<lbrakk>pthr s t = Idle; vlatch L (pword s) = Some w\<rbrakk> \<Longrightarrow>
    pstep L s (s\<lparr>pword := w, pthr := (pthr s)(t := Writing False False (pupds s))\<rparr>)"
| write_upgrade: "\<lbrakk>pthr s t = Reading v obs w0 d0 c0; vend L (pword s) v = Some True;
     vlatch L (pword s) = Some w\<rbrakk> \<Longrightarrow>
    pstep L s (s\<lparr>pword := w, pthr := (pthr s)(t := Writing False False (pupds s))\<rparr>)"
| write_bump: "\<lbrakk>pthr s t = Writing d b c; w \<in> set (vbump L (pword s))\<rbrakk> \<Longrightarrow>
    pstep L s (s\<lparr>pword := w, pupds := Suc (pupds s),
      pthr := (pthr s)(t := Writing d True c)\<rparr>)"
| write_data: "\<lbrakk>pthr s t = Writing d b c\<rbrakk> \<Longrightarrow>
    pstep L s (s\<lparr>pdat := x, pthr := (pthr s)(t := Writing True b c)\<rparr>)"
| write_release: "\<lbrakk>pthr s t = Writing d b c; (w, u) \<in> set (vrelease L (pword s)); d \<longrightarrow> b \<or> u\<rbrakk> \<Longrightarrow>
    pstep L s (s\<lparr>pword := w, pupds := pupds s + of_bool u, pthr := (pthr s)(t := Idle)\<rparr>)"
| word_other: "\<lbrakk>w \<in> set (vother L (pword s))\<rbrakk> \<Longrightarrow> pstep L s (s\<lparr>pword := w\<rparr>)"

inductive preach :: "('w, 's) vlock \<Rightarrow> ('w, 's, 'd) pstate \<Rightarrow> ('w, 's, 'd) pstate \<Rightarrow> bool"
  for L s0 where
  reach_start: "preach L s0 s0"
| reach_step: "\<lbrakk>preach L s0 s; pstep L s s'\<rbrakk> \<Longrightarrow> preach L s0 s'"

text \<open>The state after one thread has begun to read, and has looked once; after one has latched.\<close>

definition reading_state :: "'w \<Rightarrow> 's \<Rightarrow> 'd \<Rightarrow> ('w, 's, 'd) pstate" where
  "reading_state w v d = (pinit w d)\<lparr>pthr := (\<lambda>_. Idle)(0 := Reading v [d] w d 0)\<rparr>"

definition writing_state :: "'w \<Rightarrow> 'w \<Rightarrow> 'd \<Rightarrow> ('w, 's, 'd) pstate" where
  "writing_state w w' d = (pinit w d)\<lparr>pword := w', pthr := (\<lambda>_. Idle)(0 := Writing False False 0)\<rparr>"

lemma reading_reach: "vbegin L w = Some v \<Longrightarrow> preach L (pinit w d) (reading_state w v d)"
  using pstep.read_begin[of "pinit w d" 0 L v]
    pstep.read_observe[of "(pinit w d)\<lparr>pthr := (\<lambda>_. Idle)(0 := Reading v [] w d 0)\<rparr>" 0 v "[]" w d 0 L]
  by (simp add: pinit_def reading_state_def) (blast intro: preach.intros)

lemma writing_reach: "vlatch L w = Some w' \<Longrightarrow> preach L (pinit w d) (writing_state w w' d)"
  using pstep.write_latch[of "pinit w d" 0 L w'] by (simp add: pinit_def writing_state_def) (blast intro: preach.intros)

section \<open>The invariant\<close>

text \<open>
  The word is held exactly while one thread writes, its version counts the updates, and every
  reader either still has the data it began with, or the version has moved since, or a
  writer that began after it is still inside its section.
\<close>

definition writer_ok :: "('w, 's, 'd) pstate \<Rightarrow> nat \<Rightarrow> bool" where
  "writer_ok s t = (case pthr s t of Writing d b c \<Rightarrow> c \<le> pupds s \<and> (b \<longrightarrow> c < pupds s) | _ \<Rightarrow> True)"

definition dirty_writer :: "('w, 's, 'd) pstate \<Rightarrow> bool" where
  "dirty_writer s \<longleftrightarrow> (\<exists>t b c. pthr s t = Writing True b c)"

definition reader_ok ::
  "('w, 's) vlock \<Rightarrow> ('w \<Rightarrow> nat) \<Rightarrow> nat \<Rightarrow> nat \<Rightarrow> ('w, 's, 'd) pstate \<Rightarrow> nat \<Rightarrow> bool" where
  "reader_ok L cnt M base s t =
     (case pthr s t of
        Reading v obs w0 d0 c0 \<Rightarrow>
          vbegin L w0 = Some v \<and> cnt w0 mod M = (base + c0) mod M \<and> c0 \<le> pupds s \<and>
          (c0 < pupds s \<or> dirty_writer s \<or> pdat s = d0) \<and>
          (c0 < pupds s \<or> dirty_writer s \<or> set obs \<subseteq> {d0}) \<and>
          (\<forall>t' d b c. pthr s t' = Writing d b c \<longrightarrow> c0 \<le> c)
      | _ \<Rightarrow> True)"

definition word_ok ::
  "('w \<Rightarrow> bool) \<Rightarrow> ('w \<Rightarrow> nat) \<Rightarrow> nat \<Rightarrow> nat \<Rightarrow> ('w, 's, 'd) pstate \<Rightarrow> bool" where
  "word_ok free cnt M base s \<longleftrightarrow>
     cnt (pword s) mod M = (base + pupds s) mod M \<and>
     (free (pword s) \<longleftrightarrow> (\<forall>t. \<not> is_Writing (pthr s t))) \<and>
     (\<forall>t t'. is_Writing (pthr s t) \<longrightarrow> is_Writing (pthr s t') \<longrightarrow> t = t')"

definition pinv where
  "pinv L free cnt M base s \<longleftrightarrow>
     word_ok free cnt M base s \<and> (\<forall>t. writer_ok s t) \<and> (\<forall>t. reader_ok L cnt M base s t)"

lemma mod_window:
  fixes a b M :: nat
  assumes "(base + a) mod M = (base + b) mod M" "b \<le> a" "a < b + M"
  shows "a = b"
proof -
  have "M dvd (base + a) - (base + b)" using assms(1) assms(2) by (simp add: mod_eq_dvd_iff_nat)
  then have "M dvd a - b" by simp
  moreover have "a - b < M" using assms by simp
  ultimately have "a - b = 0" using nat_dvd_not_less by (cases "a - b") blast+
  with assms show ?thesis by simp
qed

section \<open>The contract of a versioned lock\<close>

text \<open>
  \<open>free\<close> says that no thread holds the word, \<open>cnt\<close> reads the version as a number, \<open>M\<close> is
  the number of versions before it wraps around.
\<close>

locale versioned_lock =
  fixes L :: "('w, 's) vlock" and free :: "'w \<Rightarrow> bool" and cnt :: "'w \<Rightarrow> nat" and M :: nat
  assumes begin_free: "vbegin L w = Some v \<Longrightarrow> free w"
    and end_same: "\<lbrakk>vbegin L w = Some v; vend L w' v = Some True\<rbrakk> \<Longrightarrow> free w' \<and> cnt w' = cnt w"
    and latch_law: "vlatch L w = Some w' \<Longrightarrow> free w \<and> \<not> free w' \<and> cnt w' = cnt w"
    and bump_law: "\<lbrakk>\<not> free w; w' \<in> set (vbump L w)\<rbrakk> \<Longrightarrow> \<not> free w' \<and> cnt w' = Suc (cnt w) mod M"
    and release_law: "\<lbrakk>\<not> free w; (w', u) \<in> set (vrelease L w)\<rbrakk> \<Longrightarrow>
          free w' \<and> cnt w' = (cnt w + of_bool u) mod M"
    and other_law: "w' \<in> set (vother L w) \<Longrightarrow> free w' = free w \<and> cnt w' = cnt w"
begin

lemma held: "pinv L free cnt M base s \<Longrightarrow> is_Writing (pthr s t) \<Longrightarrow> \<not> free (pword s)"
  unfolding pinv_def word_ok_def by blast

lemma sole: "pinv L free cnt M base s \<Longrightarrow> is_Writing (pthr s t) \<Longrightarrow> is_Writing (pthr s t') \<Longrightarrow> t = t'"
  unfolding pinv_def word_ok_def by blast

lemma word_ok_cong:
  assumes "word_ok free cnt M base s" "pword s' = pword s" "pupds s' = pupds s"
    and "\<And>u. is_Writing (pthr s' u) = is_Writing (pthr s u)"
  shows "word_ok free cnt M base s'"
  using assms by (simp add: word_ok_def)

lemma word_ok_step:
  assumes inv: "pinv L free cnt M base s" and step: "pstep L s s'"
  shows "word_ok free cnt M base s'"
proof -
  have ok: "word_ok free cnt M base s" using inv by (simp add: pinv_def)
  show ?thesis
    using step
  proof cases
    case (write_latch t w)
    then show ?thesis using ok latch_law[of "pword s" w] by (auto simp: word_ok_def)
  next
    case (write_upgrade t v obs w0 d0 c0 w)
    then show ?thesis using ok latch_law[of "pword s" w] by (auto simp: word_ok_def)
  next
    case (write_bump t d b c w)
    then have nf: "\<not> free (pword s)" using held[OF inv, of t] by simp
    have "Suc (cnt (pword s)) mod M = Suc (base + pupds s) mod M"
      using ok mod_Suc_eq[of "cnt (pword s)" M] mod_Suc_eq[of "base + pupds s" M]
      by (simp add: word_ok_def)
    moreover have "is_Writing (((pthr s)(t := Writing d True c)) u) = is_Writing (pthr s u)" for u
      using write_bump by simp
    ultimately show ?thesis using write_bump ok nf bump_law[OF nf, of w] by (simp add: word_ok_def)
  next
    case (write_release t d b c w u)
    then have nf: "\<not> free (pword s)" using held[OF inv, of t] by simp
    have "(cnt (pword s) + of_bool u) mod M = (base + pupds s + of_bool u) mod M"
      using ok by (metis mod_add_left_eq word_ok_def)
    then show ?thesis
      using write_release release_law[OF nf, of w u] sole[OF inv, of t]
      by (auto simp: word_ok_def add.assoc)
  next
    case (word_other w)
    then show ?thesis using ok other_law[of w "pword s"] by (auto simp: word_ok_def)
  qed (hypsubst, rule word_ok_cong[OF ok]; auto)+
qed

lemma writer_ok_step:
  assumes inv: "pinv L free cnt M base s" and step: "pstep L s s'"
  shows "writer_ok s' t"
proof -
  have ok: "writer_ok s t" for t using inv by (simp add: pinv_def)
  show ?thesis
    using step
  proof cases
    case (write_release t' d b c w u)
    then show ?thesis using ok[of t] by (auto simp: writer_ok_def split: pc.splits)
  next
    case (write_bump t' d b c w)
    then show ?thesis using ok[of t] ok[of t'] by (auto simp: writer_ok_def split: pc.splits)
  next
    case (write_data t' d b c)
    then show ?thesis using ok[of t] ok[of t'] by (auto simp: writer_ok_def split: pc.splits)
  qed (use ok[of t] in \<open>auto simp: writer_ok_def split: pc.splits\<close>)
qed

lemma reader_keep:
  assumes "reader_ok L cnt M base s t" "pthr s t = Reading v obs0 w0 d0 c0"
    and "pthr s' t = Reading v obs w0 d0 c0" "set obs \<subseteq> insert (pdat s) (set obs0)"
    and "pupds s \<le> pupds s'" "pdat s' = pdat s \<or> dirty_writer s'"
    and "dirty_writer s \<Longrightarrow> dirty_writer s' \<or> c0 < pupds s'"
    and "\<And>t' d b c. pthr s' t' = Writing d b c \<Longrightarrow> (\<exists>d b. pthr s t' = Writing d b c) \<or> pupds s \<le> c"
  shows "reader_ok L cnt M base s' t"
proof -
  have old: "vbegin L w0 = Some v" "cnt w0 mod M = (base + c0) mod M" "c0 \<le> pupds s"
    "c0 < pupds s \<or> dirty_writer s \<or> pdat s = d0 \<and> set obs0 \<subseteq> {d0}"
    and wr: "\<And>t' d b c. pthr s t' = Writing d b c \<Longrightarrow> c0 \<le> c"
    using assms(1,2) by (auto simp: reader_ok_def)
  have "c0 < pupds s' \<or> dirty_writer s' \<or> pdat s' = d0 \<and> set obs \<subseteq> {d0}"
    using old(4) assms(4-7) by auto
  moreover have "c0 \<le> c" if "pthr s' t' = Writing d b c" for t' d b c
    using assms(8)[OF that] wr old(3) by fastforce
  ultimately show ?thesis using old assms(3,5) by (auto simp: reader_ok_def)
qed

lemma dirty_mono:
  assumes "dirty_writer s" "\<And>u b c. pthr s u = Writing True b c \<Longrightarrow> \<exists>b. pthr s' u = Writing True b c"
  shows "dirty_writer s'"
  using assms unfolding dirty_writer_def by blast

lemma reader_other: "\<not> is_Reading (pthr s t) \<Longrightarrow> reader_ok L cnt M base s t"
  by (auto simp: reader_ok_def split: pc.splits)

lemma reader_ok_step:
  assumes inv: "pinv L free cnt M base s" and step: "pstep L s s'"
  shows "reader_ok L cnt M base s' t"
proof (cases "\<exists>v obs w0 d0 c0. pthr s t = Reading v obs w0 d0 c0 \<and> is_Reading (pthr s' t)")
  case False
  have wd: "word_ok free cnt M base s" using inv by (simp add: pinv_def)
  show ?thesis
  proof (cases "is_Reading (pthr s' t)")
    case True
    from step False True obtain v where v: "vbegin L (pword s) = Some v"
      and s': "s' = s\<lparr>pthr := (pthr s)(t := Reading v [] (pword s) (pdat s) (pupds s))\<rparr>"
      by cases (auto split: if_splits simp: is_Reading_def)
    have "pthr s u \<noteq> Writing x b c" for u x b c
      using begin_free[OF v] held[OF inv, of u] by auto
    with v wd show ?thesis by (auto simp: s' reader_ok_def word_ok_def)
  qed (rule reader_other)
next
  case True
  then obtain v obs w0 d0 c0 where t: "pthr s t = Reading v obs w0 d0 c0" and r: "is_Reading (pthr s' t)"
    by blast
  have ok: "reader_ok L cnt M base s t" and wok: "writer_ok s u" for u
    using inv by (auto simp: pinv_def)
  note keep = reader_keep[OF ok t]
  show ?thesis
    using step
  proof cases
    case (write_release t' d b c w u)
    have "c0 \<le> c" using ok t write_release by (auto simp: reader_ok_def)
    moreover have "c < pupds s" if b using wok[of t'] write_release that by (simp add: writer_ok_def)
    moreover have "d" if dw: "dirty_writer s"
    proof -
      obtain t2 b2 c2 where "pthr s t2 = Writing True b2 c2" using dw by (auto simp: dirty_writer_def)
      with sole[OF inv, of t' t2] write_release show d by simp
    qed
    ultimately have "c0 < pupds s'" if "dirty_writer s"
      using that write_release wok[of t'] by (fastforce simp: writer_ok_def)
    then show ?thesis using t r write_release by (intro keep) (auto split: if_splits)
  next
    case (write_data t' d b c x)
    then have "dirty_writer s'" by (auto simp: dirty_writer_def)
    then show ?thesis using t r write_data by (intro keep) (auto split: if_splits)
  qed (use t r in \<open>auto split: if_splits intro!: keep elim!: dirty_mono\<close>)
qed

lemma pinv_step: "pinv L free cnt M base s \<Longrightarrow> pstep L s s' \<Longrightarrow> pinv L free cnt M base s'"
  unfolding pinv_def[of L free cnt M base s']
  by (blast intro: word_ok_step writer_ok_step reader_ok_step)

lemma pinv_init: "free w \<Longrightarrow> pinv L free cnt M (cnt w) (pinit w d)"
  by (simp add: pinv_def pinit_def word_ok_def writer_ok_def reader_ok_def)

lemma pinv_reach: "preach L (pinit w d) s \<Longrightarrow> free w \<Longrightarrow> pinv L free cnt M (cnt w) s"
  by (induction rule: preach.induct) (auto intro: pinv_init pinv_step)

text \<open>At most one thread is inside a writing section, and exactly while the word is held.\<close>

lemma mutual_exclusion:
  assumes "preach L (pinit w d) s" "free w" "is_Writing (pthr s t)"
  shows "\<not> free (pword s) \<and> (is_Writing (pthr s t') \<longrightarrow> t' = t)"
  using held sole pinv_reach[OF assms(1,2)] assms(3) by blast

text \<open>
  A validated read is a snapshot: if \<open>vend\<close> accepts, everything the reader saw is the data at its
  \<open>vbegin\<close>, and that is also the data now.
\<close>

lemma validated_read:
  assumes r: "preach L (pinit w d) s" "free w"
    and t: "pthr s t = Reading v obs w0 d0 c0" "vend L (pword s) v = Some True"
    and wrap: "pupds s < c0 + M"
  shows "set obs \<subseteq> {d0} \<and> pdat s = d0"
proof -
  note inv = pinv_reach[OF r]
  have ok: "reader_ok L cnt M (cnt w) s t" "word_ok free cnt M (cnt w) s"
    using inv by (auto simp: pinv_def)
  have b: "vbegin L w0 = Some v" "cnt w0 mod M = (cnt w + c0) mod M" "c0 \<le> pupds s"
    using ok(1) t(1) by (auto simp: reader_ok_def)
  have e: "free (pword s)" "cnt (pword s) = cnt w0" using end_same[OF b(1) t(2)] by auto
  then have "(cnt w + pupds s) mod M = (cnt w + c0) mod M"
    using ok(2) b(2) by (simp add: word_ok_def)
  then have "pupds s = c0" using b(3) wrap by (rule mod_window)
  moreover have "pthr s u \<noteq> Writing x b c" for u x b c using e(1) held[OF inv, of u] by auto
  then have "\<not> dirty_writer s" by (simp add: dirty_writer_def)
  ultimately show ?thesis using ok(1) t(1) by (auto simp: reader_ok_def)
qed

end

section \<open>The control word as a versioned lock\<close>

text \<open>
  The atomic updates of the control word that the protocol does not depend on: the flags, set or
  cleared when the code may do so, and the split counter within its bounds.
\<close>

definition control_other :: "u64 \<Rightarrow> u64 list" where
  "control_other c =
     (if ordered c then [clear_order c] else [set_order c]) @
     (if has_sibling c then [clear_sibling c] else [set_sibling c]) @
     (if deleted c then [] else [set_delete c]) @
     (if splits_of c < 2 ^ 16 - 1 then [begin_splitting c] else []) @
     (if 0 < splits_of c then [end_splitting c] else [])"

definition control_lock :: "(u64, u64) vlock" where
  "control_lock =
     \<lparr>vbegin = begin_read, vend = end_read, vlatch = latch_exclusive, vbump = (\<lambda>c. [update_version c]),
      vrelease = (\<lambda>c. [(unlatch_exclusive c, False)]), vother = control_other\<rparr>"

lemma end_splitting_fields:
  assumes "0 < splits_of c"
  shows "version_of (end_splitting c) = version_of c" "n < 8 \<Longrightarrow> bit (end_splitting c) n = bit c n"
proof -
  have u: "256 \<le> unat c"
    using assms by (rule contrapos_pp) (simp add: splits_of_div)
  have b: "begin_splitting (end_splitting c) = c" by (simp add: end_splitting_def begin_splitting_def)
  define y where "y = (unat c - 256) div 256"
  have "unat c div 256 = Suc y" using u by (simp add: y_def le_div_geq)
  then have "y mod 65536 < 65535"
    using assms by (simp add: splits_of_div mod_Suc split: if_splits)
  moreover have "unat (end_splitting c) = unat c - 256"
    using u by (simp add: end_splitting_def kSplitOne_def unat_sub word_le_nat_alt)
  ultimately have "splits_of (end_splitting c) < 2 ^ 16 - 1"
    by (simp add: splits_of_div y_def)
  then show "version_of (end_splitting c) = version_of c" "n < 8 \<Longrightarrow> bit (end_splitting c) n = bit c n"
    using begin_splitting_fields[of "end_splitting c"] b by simp_all
qed

lemma other_bits:
  assumes "c' \<in> set (control_other c)"
  shows "bit c' 1 = bit c 1" "version_of c' = version_of c"
proof -
  have "bit c' 1 = bit c 1 \<and> version_of c' = version_of c"
    using assms begin_splitting_fields(2,3)[of c] end_splitting_fields[of c]
    by (auto simp: control_other_def flag_bits ctl_bits split: if_splits)
  then show "bit c' 1 = bit c 1" "version_of c' = version_of c" by simp_all
qed

interpretation ctl: versioned_lock control_lock "\<lambda>c. \<not> locked c" version_of "2 ^ 40"
proof (unfold_locales, goal_cases)
  case (1 w v)
  then show ?case by (simp add: control_lock_def begin_read_iff)
next
  case (2 w v w')
  then show ?case by (auto simp: control_lock_def begin_read_iff end_read_iff load_version_eq)
next
  case (3 w w')
  then show ?case
    using latch_exclusive_bits[of w w']
    by (auto simp: control_lock_def flag_bits latch_exclusive_iff intro: version_of_cong)
next
  case (4 w w')
  then show ?case by (simp add: control_lock_def flag_bits bit_update_version version_of_update)
next
  case (5 w w' u)
  then show ?case
    using version_of_less[of w] by (auto simp: control_lock_def flag_bits ctl_bits)
next
  case (6 w' w)
  then show ?case by (simp add: control_lock_def flag_bits other_bits other_bits(1)[simplified])
qed

end
