(* ===== verification/Simd.thy ===== *)
theory Simd
  imports Bits
begin

text \<open>
  Byte comparisons with SIMD instructions: \<open>src/util/simd.h\<close> and the mode-dependent wrappers
  of \<open>src/FBTree/compare.h\<close>.

  A vector register is the list of its bytes; the intrinsics are modelled lane by lane as
  the instruction set documents them. A pointer argument is the list of the bytes from that
  address on. A comparison returns the 64-bit mask whose bit \<open>i\<close> is the result for byte \<open>i\<close>.
  Overloads that compare two memory blocks carry the suffix \<open>_mem\<close>.
\<close>

section \<open>Intrinsics\<close>

definition loadu :: "nat \<Rightarrow> byte list \<Rightarrow> byte list" where
  "loadu n p = take n p"

definition set1_epi8 :: "nat \<Rightarrow> byte \<Rightarrow> byte list" where
  "set1_epi8 n c = replicate n c"

definition lanes :: "(byte \<Rightarrow> byte \<Rightarrow> bool) \<Rightarrow> byte list \<Rightarrow> byte list \<Rightarrow> byte list" where
  "lanes P v1 v2 = map2 (\<lambda>a b. if P a b then - 1 else 0) v1 v2"

definition cmpeq_epi8 :: "byte list \<Rightarrow> byte list \<Rightarrow> byte list" where
  "cmpeq_epi8 = lanes (=)"

definition cmplt_epi8 :: "byte list \<Rightarrow> byte list \<Rightarrow> byte list" where
  "cmplt_epi8 = lanes (\<lambda>a b. sint a < sint b)"

definition cmpgt_epi8 :: "byte list \<Rightarrow> byte list \<Rightarrow> byte list" where
  "cmpgt_epi8 = lanes (\<lambda>a b. sint b < sint a)"

definition add_epi8 :: "byte list \<Rightarrow> byte list \<Rightarrow> byte list" where
  "add_epi8 v1 v2 = map2 (+) v1 v2"

text \<open>
  \<open>movemask\<close> collects the most significant bit of every byte. The SSE2 and AVX2 variants
  return a 32-bit value that the code widens to 64 bits without sign extension; the
  AVX-512 compare instructions give the 64-bit mask at once.
\<close>

primrec bool_mask :: "bool list \<Rightarrow> 'a::len word" where
  "bool_mask [] = 0"
| "bool_mask (b # bs) = (if b then 1 else 0) OR push_bit 1 (bool_mask bs)"

definition movemask_epi8 :: "byte list \<Rightarrow> u32" where
  "movemask_epi8 v = bool_mask (map (\<lambda>b. bit b 7) v)"

definition cmpeq_epi8_mask :: "byte list \<Rightarrow> byte list \<Rightarrow> u64" where
  "cmpeq_epi8_mask v1 v2 = bool_mask (map2 (=) v1 v2)"

definition cmplt_epi8_mask :: "byte list \<Rightarrow> byte list \<Rightarrow> u64" where
  "cmplt_epi8_mask v1 v2 = bool_mask (map2 (\<lambda>a b. sint a < sint b) v1 v2)"

definition cmpgt_epi8_mask :: "byte list \<Rightarrow> byte list \<Rightarrow> u64" where
  "cmpgt_epi8_mask v1 v2 = bool_mask (map2 (\<lambda>a b. sint b < sint a) v1 v2)"

section \<open>Comparisons of 16 bytes\<close>

definition cmpeq_int8_simd128 :: "byte list \<Rightarrow> byte \<Rightarrow> u64" where
  "cmpeq_int8_simd128 p c =
     (let v1 = loadu 16 p;
          v2 = set1_epi8 16 c;
          t = cmpeq_epi8 v1 v2
      in ucast (movemask_epi8 t))"

definition cmpeq_int8_simd128_mem :: "byte list \<Rightarrow> byte list \<Rightarrow> u64" where
  "cmpeq_int8_simd128_mem p1 p2 =
     (let v1 = loadu 16 p1;
          v2 = loadu 16 p2;
          t = cmpeq_epi8 v1 v2
      in ucast (movemask_epi8 t))"

definition cmpeq_uint8_simd128 :: "byte list \<Rightarrow> byte \<Rightarrow> u64" where
  "cmpeq_uint8_simd128 p c = cmpeq_int8_simd128 p c"

definition cmpeq_uint8_simd128_mem :: "byte list \<Rightarrow> byte list \<Rightarrow> u64" where
  "cmpeq_uint8_simd128_mem p1 p2 = cmpeq_int8_simd128_mem p1 p2"

definition cmplt_int8_simd128 :: "byte list \<Rightarrow> byte \<Rightarrow> u64" where
  "cmplt_int8_simd128 p c =
     (let v1 = loadu 16 p;
          v2 = set1_epi8 16 c;
          t = cmplt_epi8 v1 v2
      in ucast (movemask_epi8 t))"

definition cmplt_int8_simd128_mem :: "byte list \<Rightarrow> byte list \<Rightarrow> u64" where
  "cmplt_int8_simd128_mem p1 p2 =
     (let v1 = loadu 16 p1;
          v2 = loadu 16 p2;
          t = cmplt_epi8 v1 v2
      in ucast (movemask_epi8 t))"

definition cmplt_uint8_simd128 :: "byte list \<Rightarrow> byte \<Rightarrow> u64" where
  "cmplt_uint8_simd128 p c =
     (let v1 = loadu 16 p;
          v2 = set1_epi8 16 (c + 0x80);
          t = set1_epi8 16 0x80;
          v1 = add_epi8 v1 t;
          t = cmplt_epi8 v1 v2
      in ucast (movemask_epi8 t))"

definition cmplt_uint8_simd128_mem :: "byte list \<Rightarrow> byte list \<Rightarrow> u64" where
  "cmplt_uint8_simd128_mem p1 p2 =
     (let v1 = loadu 16 p1;
          v2 = loadu 16 p2;
          t = set1_epi8 16 0x80;
          v1 = add_epi8 v1 t;
          v2 = add_epi8 v2 t;
          t = cmplt_epi8 v1 v2
      in ucast (movemask_epi8 t))"

definition cmpgt_int8_simd128 :: "byte list \<Rightarrow> byte \<Rightarrow> u64" where
  "cmpgt_int8_simd128 p c =
     (let v1 = loadu 16 p;
          v2 = set1_epi8 16 c;
          t = cmpgt_epi8 v1 v2
      in ucast (movemask_epi8 t))"

definition cmpgt_int8_simd128_mem :: "byte list \<Rightarrow> byte list \<Rightarrow> u64" where
  "cmpgt_int8_simd128_mem p1 p2 =
     (let v1 = loadu 16 p1;
          v2 = loadu 16 p2;
          t = cmpgt_epi8 v1 v2
      in ucast (movemask_epi8 t))"

definition cmpgt_uint8_simd128 :: "byte list \<Rightarrow> byte \<Rightarrow> u64" where
  "cmpgt_uint8_simd128 p c =
     (let v1 = loadu 16 p;
          v2 = set1_epi8 16 (c + 0x80);
          t = set1_epi8 16 0x80;
          v1 = add_epi8 v1 t;
          t = cmpgt_epi8 v1 v2
      in ucast (movemask_epi8 t))"

definition cmpgt_uint8_simd128_mem :: "byte list \<Rightarrow> byte list \<Rightarrow> u64" where
  "cmpgt_uint8_simd128_mem p1 p2 =
     (let v1 = loadu 16 p1;
          v2 = loadu 16 p2;
          t = set1_epi8 16 0x80;
          v1 = add_epi8 v1 t;
          v2 = add_epi8 v2 t;
          t = cmpgt_epi8 v1 v2
      in ucast (movemask_epi8 t))"

section \<open>Comparisons of 32 bytes\<close>

definition cmpeq_int8_simd256 :: "byte list \<Rightarrow> byte \<Rightarrow> u64" where
  "cmpeq_int8_simd256 p c =
     (let v1 = loadu 32 p;
          v2 = set1_epi8 32 c;
          t = cmpeq_epi8 v1 v2
      in ucast (movemask_epi8 t))"

definition cmpeq_int8_simd256_mem :: "byte list \<Rightarrow> byte list \<Rightarrow> u64" where
  "cmpeq_int8_simd256_mem p1 p2 =
     (let v1 = loadu 32 p1;
          v2 = loadu 32 p2;
          t = cmpeq_epi8 v1 v2
      in ucast (movemask_epi8 t))"

definition cmpeq_uint8_simd256 :: "byte list \<Rightarrow> byte \<Rightarrow> u64" where
  "cmpeq_uint8_simd256 p c = cmpeq_int8_simd256 p c"

definition cmpeq_uint8_simd256_mem :: "byte list \<Rightarrow> byte list \<Rightarrow> u64" where
  "cmpeq_uint8_simd256_mem p1 p2 = cmpeq_int8_simd256_mem p1 p2"

definition cmplt_int8_simd256 :: "byte list \<Rightarrow> byte \<Rightarrow> u64" where
  "cmplt_int8_simd256 p c =
     (let v1 = loadu 32 p;
          v2 = set1_epi8 32 c;
          t = cmpgt_epi8 v2 v1
      in ucast (movemask_epi8 t))"

definition cmplt_int8_simd256_mem :: "byte list \<Rightarrow> byte list \<Rightarrow> u64" where
  "cmplt_int8_simd256_mem p1 p2 =
     (let v1 = loadu 32 p1;
          v2 = loadu 32 p2;
          t = cmpgt_epi8 v2 v1
      in ucast (movemask_epi8 t))"

definition cmplt_uint8_simd256 :: "byte list \<Rightarrow> byte \<Rightarrow> u64" where
  "cmplt_uint8_simd256 p c =
     (let v1 = loadu 32 p;
          v2 = set1_epi8 32 (c + 0x80);
          t = set1_epi8 32 0x80;
          v1 = add_epi8 v1 t;
          t = cmpgt_epi8 v2 v1
      in ucast (movemask_epi8 t))"

definition cmplt_uint8_simd256_mem :: "byte list \<Rightarrow> byte list \<Rightarrow> u64" where
  "cmplt_uint8_simd256_mem p1 p2 =
     (let v1 = loadu 32 p1;
          v2 = loadu 32 p2;
          t = set1_epi8 32 0x80;
          v1 = add_epi8 v1 t;
          v2 = add_epi8 v2 t;
          t = cmpgt_epi8 v2 v1
      in ucast (movemask_epi8 t))"

definition cmpgt_int8_simd256 :: "byte list \<Rightarrow> byte \<Rightarrow> u64" where
  "cmpgt_int8_simd256 p c =
     (let v1 = loadu 32 p;
          v2 = set1_epi8 32 c;
          t = cmpgt_epi8 v1 v2
      in ucast (movemask_epi8 t))"

definition cmpgt_int8_simd256_mem :: "byte list \<Rightarrow> byte list \<Rightarrow> u64" where
  "cmpgt_int8_simd256_mem p1 p2 =
     (let v1 = loadu 32 p1;
          v2 = loadu 32 p2;
          t = cmpgt_epi8 v1 v2
      in ucast (movemask_epi8 t))"

definition cmpgt_uint8_simd256 :: "byte list \<Rightarrow> byte \<Rightarrow> u64" where
  "cmpgt_uint8_simd256 p c =
     (let v1 = loadu 32 p;
          v2 = set1_epi8 32 (c + 0x80);
          t = set1_epi8 32 0x80;
          v1 = add_epi8 v1 t;
          t = cmpgt_epi8 v1 v2
      in ucast (movemask_epi8 t))"

definition cmpgt_uint8_simd256_mem :: "byte list \<Rightarrow> byte list \<Rightarrow> u64" where
  "cmpgt_uint8_simd256_mem p1 p2 =
     (let v1 = loadu 32 p1;
          v2 = loadu 32 p2;
          t = set1_epi8 32 0x80;
          v1 = add_epi8 v1 t;
          v2 = add_epi8 v2 t;
          t = cmpgt_epi8 v1 v2
      in ucast (movemask_epi8 t))"

section \<open>Comparisons of 64 bytes\<close>

definition cmpeq_int8_simd512 :: "byte list \<Rightarrow> byte \<Rightarrow> u64" where
  "cmpeq_int8_simd512 p c =
     (let v1 = loadu 64 p;
          v2 = set1_epi8 64 c
      in cmpeq_epi8_mask v1 v2)"

definition cmpeq_int8_simd512_mem :: "byte list \<Rightarrow> byte list \<Rightarrow> u64" where
  "cmpeq_int8_simd512_mem p1 p2 =
     (let v1 = loadu 64 p1;
          v2 = loadu 64 p2
      in cmpeq_epi8_mask v1 v2)"

definition cmpeq_uint8_simd512 :: "byte list \<Rightarrow> byte \<Rightarrow> u64" where
  "cmpeq_uint8_simd512 p c = cmpeq_int8_simd512 p c"

definition cmpeq_uint8_simd512_mem :: "byte list \<Rightarrow> byte list \<Rightarrow> u64" where
  "cmpeq_uint8_simd512_mem p1 p2 = cmpeq_int8_simd512_mem p1 p2"

definition cmplt_int8_simd512 :: "byte list \<Rightarrow> byte \<Rightarrow> u64" where
  "cmplt_int8_simd512 p c =
     (let v1 = loadu 64 p;
          v2 = set1_epi8 64 c
      in cmplt_epi8_mask v1 v2)"

definition cmplt_int8_simd512_mem :: "byte list \<Rightarrow> byte list \<Rightarrow> u64" where
  "cmplt_int8_simd512_mem p1 p2 =
     (let v1 = loadu 64 p1;
          v2 = loadu 64 p2
      in cmplt_epi8_mask v1 v2)"

definition cmplt_uint8_simd512 :: "byte list \<Rightarrow> byte \<Rightarrow> u64" where
  "cmplt_uint8_simd512 p c =
     (let v1 = loadu 64 p;
          v2 = set1_epi8 64 (c + 0x80);
          t = set1_epi8 64 0x80;
          v1 = add_epi8 v1 t
      in cmplt_epi8_mask v1 v2)"

definition cmplt_uint8_simd512_mem :: "byte list \<Rightarrow> byte list \<Rightarrow> u64" where
  "cmplt_uint8_simd512_mem p1 p2 =
     (let v1 = loadu 64 p1;
          v2 = loadu 64 p2;
          t = set1_epi8 64 0x80;
          v1 = add_epi8 v1 t;
          v2 = add_epi8 v2 t
      in cmplt_epi8_mask v1 v2)"

definition cmpgt_int8_simd512 :: "byte list \<Rightarrow> byte \<Rightarrow> u64" where
  "cmpgt_int8_simd512 p c =
     (let v1 = loadu 64 p;
          v2 = set1_epi8 64 c
      in cmpgt_epi8_mask v1 v2)"

definition cmpgt_int8_simd512_mem :: "byte list \<Rightarrow> byte list \<Rightarrow> u64" where
  "cmpgt_int8_simd512_mem p1 p2 =
     (let v1 = loadu 64 p1;
          v2 = loadu 64 p2
      in cmpgt_epi8_mask v1 v2)"

definition cmpgt_uint8_simd512 :: "byte list \<Rightarrow> byte \<Rightarrow> u64" where
  "cmpgt_uint8_simd512 p c =
     (let v1 = loadu 64 p;
          v2 = set1_epi8 64 (c + 0x80);
          t = set1_epi8 64 0x80;
          v1 = add_epi8 v1 t
      in cmpgt_epi8_mask v1 v2)"

definition cmpgt_uint8_simd512_mem :: "byte list \<Rightarrow> byte list \<Rightarrow> u64" where
  "cmpgt_uint8_simd512_mem p1 p2 =
     (let v1 = loadu 64 p1;
          v2 = loadu 64 p2;
          t = set1_epi8 64 0x80;
          v1 = add_epi8 v1 t;
          v2 = add_epi8 v2 t
      in cmpgt_epi8_mask v1 v2)"

section \<open>What the comparisons compute\<close>

lemma bit_bool_mask [bit_char]:
  "bit (bool_mask bs :: 'a::len word) i \<longleftrightarrow> i < LENGTH('a) \<and> i < length bs \<and> bs ! i"
proof (induction bs arbitrary: i)
  case Nil
  then show ?case by simp
next
  case (Cons b bs)
  have "bit (if b then 1 else 0 :: 'a word) i \<longleftrightarrow> b \<and> i = 0"
    by (cases b) (simp_all add: bit_1_iff)
  then have "bit (bool_mask (b # bs) :: 'a word) i \<longleftrightarrow>
      b \<and> i = 0 \<or> 1 \<le> i \<and> i < LENGTH('a) \<and> bit (bool_mask bs :: 'a word) (i - 1)"
    by (simp only: bool_mask.simps bit_or_iff bit_push_bit_iff possible_bit_word)
  then show ?case using Cons.IH[of "i - 1"] by (cases i) auto
qed

text \<open>The mask of a byte-wise test over the first \<open>n\<close> bytes: the reference for all comparisons.\<close>

definition test_mask :: "nat \<Rightarrow> (byte \<Rightarrow> bool) \<Rightarrow> byte list \<Rightarrow> u64" where
  "test_mask n P p = bool_mask (map P (take n p))"

lemma bit_test_mask [bit_char]:
  "bit (test_mask n P p) i \<longleftrightarrow> i < 64 \<and> i < n \<and> i < length p \<and> P (p ! i)"
  by (auto simp: test_mask_def bit_bool_mask)

definition test_mask2 :: "nat \<Rightarrow> (byte \<Rightarrow> byte \<Rightarrow> bool) \<Rightarrow> byte list \<Rightarrow> byte list \<Rightarrow> u64" where
  "test_mask2 n P p1 p2 = bool_mask (map2 P (take n p1) (take n p2))"

lemma bit_test_mask2 [bit_char]:
  "bit (test_mask2 n P p1 p2) i \<longleftrightarrow>
     i < 64 \<and> i < n \<and> i < length p1 \<and> i < length p2 \<and> P (p1 ! i) (p2 ! i)"
  by (auto simp: test_mask2_def bit_bool_mask)

lemma sign_bit_lane [simp]: "bit (if b then - 1 else 0 :: byte) 7 = b"
  by simp

lemma lanes_movemask:
  assumes "length v1 \<le> 32"
  shows "ucast (movemask_epi8 (lanes P v1 v2)) = (bool_mask (map2 P v1 v2) :: u64)"
proof (rule bit_word_eqI)
  fix n assume "n < LENGTH(64)"
  have "map (\<lambda>b. bit b 7) (lanes P v1 v2) = map2 P v1 v2"
    by (simp add: lanes_def case_prod_unfold)
  then have "bit (movemask_epi8 (lanes P v1 v2)) n \<longleftrightarrow>
      n < 32 \<and> n < length (map2 P v1 v2) \<and> map2 P v1 v2 ! n"
    by (simp only: movemask_epi8_def bit_bool_mask) simp
  then show "bit (ucast (movemask_epi8 (lanes P v1 v2)) :: u64) n =
      bit (bool_mask (map2 P v1 v2) :: u64) n"
    using assms by (auto simp only: bit_ucast_iff bit_bool_mask) auto
qed

lemma map2_take_replicate: "map2 f (take n p) (replicate n c) = map (\<lambda>x. f x c) (take n p)"
proof (induction n arbitrary: p)
  case (Suc n)
  then show ?case by (cases p) auto
qed simp

text \<open>Adding 128 to both bytes turns the unsigned order into the signed one.\<close>

lemma sint_add_128: "sint (x + 128 :: byte) = uint x - 128"
proof -
  have s: "sint w = (uint w + 128) mod 256 - 128" for w :: byte
    by (simp add: sint_uint signed_take_bit_eq_take_bit_shift take_bit_eq_mod)
  have "uint (x + 128) = (uint x + 128) mod 256"
    by (simp add: uint_word_ariths)
  then have "sint (x + 128) = (uint x + 128 + 128) mod 256 - 128"
    by (simp add: s mod_simps)
  moreover have "0 \<le> uint x" "uint x < 256"
    using uint_lt2p[of x] by auto
  ultimately show ?thesis by simp
qed

lemma sint_flip_less: "sint (a + 128) < sint (b + 128) \<longleftrightarrow> a < (b :: byte)"
  by (simp add: sint_add_128 word_less_def)

lemma map2_replicate_take: "map2 f (replicate n c) (take n p) = map (\<lambda>x. f c x) (take n p)"
proof (induction n arbitrary: p)
  case (Suc n)
  then show ?case by (cases p) auto
qed simp

lemma map2_map_replicate:
  "map2 f (map g (take n p)) (replicate n c) = map (\<lambda>x. f (g x) c) (take n p)"
  using map2_take_replicate[of "\<lambda>x. f (g x)" n p c]
  by (simp add: zip_map1 case_prod_unfold comp_def)

lemma map2_replicate_map:
  "map2 f (replicate n c) (map g (take n p)) = map (\<lambda>x. f c (g x)) (take n p)"
  using map2_replicate_take[of "\<lambda>c x. f c (g x)" n c p]
  by (simp add: zip_map2 case_prod_unfold comp_def)

lemma map2_map_map: "map2 f (map g xs) (map g ys) = map2 (\<lambda>x y. f (g x) (g y)) xs ys"
  by (simp add: zip_map_map case_prod_unfold comp_def)

lemma map2_swap: "map2 f ys xs = map2 (\<lambda>x y. f y x) xs ys"
  by (subst zip_commute) (simp add: case_prod_unfold comp_def)

lemma add_epi8_replicate: "add_epi8 (take n p) (replicate n c) = map (\<lambda>x. x + c) (take n p)"
  by (simp add: add_epi8_def map2_take_replicate)

lemmas simd_lanes =
  loadu_def set1_epi8_def add_epi8_replicate cmpeq_epi8_def cmplt_epi8_def cmpgt_epi8_def
  cmpeq_epi8_mask_def cmplt_epi8_mask_def cmpgt_epi8_mask_def lanes_movemask
  map2_take_replicate map2_replicate_take map2_map_replicate map2_replicate_map map2_map_map
  sint_flip_less test_mask_def test_mask2_def Let_def

lemma simd128_char [bit_char]:
  "cmpeq_int8_simd128 p c = test_mask 16 (\<lambda>b. b = c) p"
  "cmpeq_uint8_simd128 p c = test_mask 16 (\<lambda>b. b = c) p"
  "cmplt_int8_simd128 p c = test_mask 16 (\<lambda>b. sint b < sint c) p"
  "cmplt_uint8_simd128 p c = test_mask 16 (\<lambda>b. b < c) p"
  "cmpgt_int8_simd128 p c = test_mask 16 (\<lambda>b. sint c < sint b) p"
  "cmpgt_uint8_simd128 p c = test_mask 16 (\<lambda>b. c < b) p"
  by (simp_all add: simd_lanes cmpeq_int8_simd128_def cmpeq_uint8_simd128_def cmplt_int8_simd128_def cmplt_uint8_simd128_def cmpgt_int8_simd128_def cmpgt_uint8_simd128_def)

lemma simd128_mem_char [bit_char]:
  "cmpeq_int8_simd128_mem p1 p2 = test_mask2 16 (=) p1 p2"
  "cmpeq_uint8_simd128_mem p1 p2 = test_mask2 16 (=) p1 p2"
  "cmplt_int8_simd128_mem p1 p2 = test_mask2 16 (\<lambda>a b. sint a < sint b) p1 p2"
  "cmplt_uint8_simd128_mem p1 p2 = test_mask2 16 (\<lambda>a b. a < b) p1 p2"
  "cmpgt_int8_simd128_mem p1 p2 = test_mask2 16 (\<lambda>a b. sint b < sint a) p1 p2"
  "cmpgt_uint8_simd128_mem p1 p2 = test_mask2 16 (\<lambda>a b. b < a) p1 p2"
  by (simp_all add: simd_lanes cmpeq_int8_simd128_mem_def cmpeq_uint8_simd128_mem_def cmplt_int8_simd128_mem_def cmplt_uint8_simd128_mem_def cmpgt_int8_simd128_mem_def cmpgt_uint8_simd128_mem_def)

lemma simd256_char [bit_char]:
  "cmpeq_int8_simd256 p c = test_mask 32 (\<lambda>b. b = c) p"
  "cmpeq_uint8_simd256 p c = test_mask 32 (\<lambda>b. b = c) p"
  "cmplt_int8_simd256 p c = test_mask 32 (\<lambda>b. sint b < sint c) p"
  "cmplt_uint8_simd256 p c = test_mask 32 (\<lambda>b. b < c) p"
  "cmpgt_int8_simd256 p c = test_mask 32 (\<lambda>b. sint c < sint b) p"
  "cmpgt_uint8_simd256 p c = test_mask 32 (\<lambda>b. c < b) p"
  by (simp_all add: simd_lanes cmpeq_int8_simd256_def cmpeq_uint8_simd256_def cmplt_int8_simd256_def cmplt_uint8_simd256_def cmpgt_int8_simd256_def cmpgt_uint8_simd256_def)

lemma simd256_mem_char [bit_char]:
  "cmpeq_int8_simd256_mem p1 p2 = test_mask2 32 (=) p1 p2"
  "cmpeq_uint8_simd256_mem p1 p2 = test_mask2 32 (=) p1 p2"
  "cmplt_int8_simd256_mem p1 p2 = test_mask2 32 (\<lambda>a b. sint a < sint b) p1 p2"
  "cmplt_uint8_simd256_mem p1 p2 = test_mask2 32 (\<lambda>a b. a < b) p1 p2"
  "cmpgt_int8_simd256_mem p1 p2 = test_mask2 32 (\<lambda>a b. sint b < sint a) p1 p2"
  "cmpgt_uint8_simd256_mem p1 p2 = test_mask2 32 (\<lambda>a b. b < a) p1 p2"
  by (simp_all add: simd_lanes cmpeq_int8_simd256_mem_def cmpeq_uint8_simd256_mem_def cmplt_int8_simd256_mem_def cmplt_uint8_simd256_mem_def cmpgt_int8_simd256_mem_def cmpgt_uint8_simd256_mem_def map2_swap[of _ "take 32 p2" "take 32 p1"])

lemma simd512_char [bit_char]:
  "cmpeq_int8_simd512 p c = test_mask 64 (\<lambda>b. b = c) p"
  "cmpeq_uint8_simd512 p c = test_mask 64 (\<lambda>b. b = c) p"
  "cmplt_int8_simd512 p c = test_mask 64 (\<lambda>b. sint b < sint c) p"
  "cmplt_uint8_simd512 p c = test_mask 64 (\<lambda>b. b < c) p"
  "cmpgt_int8_simd512 p c = test_mask 64 (\<lambda>b. sint c < sint b) p"
  "cmpgt_uint8_simd512 p c = test_mask 64 (\<lambda>b. c < b) p"
  by (simp_all add: simd_lanes cmpeq_int8_simd512_def cmpeq_uint8_simd512_def cmplt_int8_simd512_def cmplt_uint8_simd512_def cmpgt_int8_simd512_def cmpgt_uint8_simd512_def)

lemma simd512_mem_char [bit_char]:
  "cmpeq_int8_simd512_mem p1 p2 = test_mask2 64 (=) p1 p2"
  "cmpeq_uint8_simd512_mem p1 p2 = test_mask2 64 (=) p1 p2"
  "cmplt_int8_simd512_mem p1 p2 = test_mask2 64 (\<lambda>a b. sint a < sint b) p1 p2"
  "cmplt_uint8_simd512_mem p1 p2 = test_mask2 64 (\<lambda>a b. a < b) p1 p2"
  "cmpgt_int8_simd512_mem p1 p2 = test_mask2 64 (\<lambda>a b. sint b < sint a) p1 p2"
  "cmpgt_uint8_simd512_mem p1 p2 = test_mask2 64 (\<lambda>a b. b < a) p1 p2"
  by (simp_all add: simd_lanes cmpeq_int8_simd512_mem_def cmpeq_uint8_simd512_mem_def cmplt_int8_simd512_mem_def cmplt_uint8_simd512_mem_def cmpgt_int8_simd512_mem_def cmpgt_uint8_simd512_mem_def)

end
