(* ===== verification/Compare.thy ===== *)
theory Compare
  imports Simd
begin

text \<open>
  The tree's configuration (\<open>src/FBTree/config.h\<close>) and the byte comparisons that depend on it
  (\<open>src/FBTree/compare.h\<close>). The compare mode is an argument of every comparison, and the
  lemmas show that the mask does not depend on it.
\<close>

section \<open>Configuration\<close>

datatype CompareMode = SIMD512 | SIMD256 | SIMD128

definition kCmpMode :: CompareMode where "kCmpMode = SIMD256"
definition kInnerSize :: nat where "kInnerSize = 64"
definition kLeafSize :: nat where "kLeafSize = 64"
definition kInnerMergeSize :: nat where "kInnerMergeSize = kInnerSize div 2"
definition kLeafMergeSize :: nat where "kLeafMergeSize = kLeafSize div 2"

text \<open>The static assertions of the configuration that concern the sizes.\<close>

lemma config_asserts:
  "kInnerSize = 16 \<and> kCmpMode = SIMD128 \<or> kInnerSize = 32 \<and> kCmpMode \<noteq> SIMD512 \<or> kInnerSize = 64"
  "kLeafSize = 16 \<and> kCmpMode = SIMD128 \<or> kLeafSize = 32 \<and> kCmpMode \<noteq> SIMD512 \<or> kLeafSize = 64"
  "0 < kInnerMergeSize \<and> kInnerMergeSize < kInnerSize"
  "0 < kLeafMergeSize \<and> kLeafMergeSize < kLeafSize"
  by (simp_all add: kInnerSize_def kLeafSize_def kInnerMergeSize_def kLeafMergeSize_def)

section \<open>Comparisons\<close>

definition compare_equal_16 :: "byte list \<Rightarrow> byte \<Rightarrow> u64" where
  "compare_equal_16 p c = cmpeq_int8_simd128 p c"

definition compare_equal_32 :: "CompareMode \<Rightarrow> byte list \<Rightarrow> byte \<Rightarrow> u64" where
  "compare_equal_32 mode p c =
     (if mode = SIMD256 then cmpeq_int8_simd256 p c
      else let m1 = compare_equal_16 p c;
               m2 = compare_equal_16 (drop 16 p) c
           in push_bit 16 m2 OR m1)"

definition compare_equal_64 :: "CompareMode \<Rightarrow> byte list \<Rightarrow> byte \<Rightarrow> u64" where
  "compare_equal_64 mode p c =
     (if mode = SIMD512 then cmpeq_int8_simd512 p c
      else let m1 = compare_equal_32 mode p c;
               m2 = compare_equal_32 mode (drop 32 p) c
           in push_bit 32 m2 OR m1)"

definition compare_equal_16_mem :: "byte list \<Rightarrow> byte list \<Rightarrow> u64" where
  "compare_equal_16_mem p1 p2 = cmpeq_int8_simd128_mem p1 p2"

definition compare_equal_32_mem :: "CompareMode \<Rightarrow> byte list \<Rightarrow> byte list \<Rightarrow> u64" where
  "compare_equal_32_mem mode p1 p2 =
     (if mode = SIMD256 then cmpeq_int8_simd256_mem p1 p2
      else let m1 = compare_equal_16_mem p1 p2;
               m2 = compare_equal_16_mem (drop 16 p1) (drop 16 p2)
           in push_bit 16 m2 OR m1)"

definition compare_equal_64_mem :: "CompareMode \<Rightarrow> byte list \<Rightarrow> byte list \<Rightarrow> u64" where
  "compare_equal_64_mem mode p1 p2 =
     (if mode = SIMD512 then cmpeq_int8_simd512_mem p1 p2
      else let m1 = compare_equal_32_mem mode p1 p2;
               m2 = compare_equal_32_mem mode (drop 32 p1) (drop 32 p2)
           in push_bit 32 m2 OR m1)"

definition compare_less_16 :: "byte list \<Rightarrow> byte \<Rightarrow> u64" where
  "compare_less_16 p c = cmplt_int8_simd128 p c"

definition compare_less_32 :: "CompareMode \<Rightarrow> byte list \<Rightarrow> byte \<Rightarrow> u64" where
  "compare_less_32 mode p c =
     (if mode = SIMD256 then cmplt_int8_simd256 p c
      else let m1 = compare_less_16 p c;
               m2 = compare_less_16 (drop 16 p) c
           in push_bit 16 m2 OR m1)"

definition compare_less_64 :: "CompareMode \<Rightarrow> byte list \<Rightarrow> byte \<Rightarrow> u64" where
  "compare_less_64 mode p c =
     (if mode = SIMD512 then cmplt_int8_simd512 p c
      else let m1 = compare_less_32 mode p c;
               m2 = compare_less_32 mode (drop 32 p) c
           in push_bit 32 m2 OR m1)"

definition compare_less_16_mem :: "byte list \<Rightarrow> byte list \<Rightarrow> u64" where
  "compare_less_16_mem p1 p2 = cmplt_int8_simd128_mem p1 p2"

definition compare_less_32_mem :: "CompareMode \<Rightarrow> byte list \<Rightarrow> byte list \<Rightarrow> u64" where
  "compare_less_32_mem mode p1 p2 =
     (if mode = SIMD256 then cmplt_int8_simd256_mem p1 p2
      else let m1 = compare_less_16_mem p1 p2;
               m2 = compare_less_16_mem (drop 16 p1) (drop 16 p2)
           in push_bit 16 m2 OR m1)"

definition compare_less_64_mem :: "CompareMode \<Rightarrow> byte list \<Rightarrow> byte list \<Rightarrow> u64" where
  "compare_less_64_mem mode p1 p2 =
     (if mode = SIMD512 then cmplt_int8_simd512_mem p1 p2
      else let m1 = compare_less_32_mem mode p1 p2;
               m2 = compare_less_32_mem mode (drop 32 p1) (drop 32 p2)
           in push_bit 32 m2 OR m1)"

section \<open>The mask does not depend on the mode\<close>

lemma test_mask_join:
  assumes "n + n \<le> 64"
  shows "push_bit n (test_mask n P (drop n p)) OR test_mask n P p = test_mask (n + n) P p"
proof (rule bit_word_eqI)
  fix i assume i: "i < LENGTH(64)"
  have "bit (push_bit n (test_mask n P (drop n p))) i \<longleftrightarrow> n \<le> i \<and> i < n + n \<and> i < length p \<and> P (p ! i)"
    using i assms by (auto simp: bit_push_bit_iff bit_test_mask)
  then show "bit (push_bit n (test_mask n P (drop n p)) OR test_mask n P p) i =
      bit (test_mask (n + n) P p) i"
    using assms by (auto simp: bit_or_iff bit_test_mask)
qed

lemma test_mask2_join:
  assumes "n + n \<le> 64"
  shows "push_bit n (test_mask2 n P (drop n p) (drop n q)) OR test_mask2 n P p q =
         test_mask2 (n + n) P p q"
proof (rule bit_word_eqI)
  fix i assume i: "i < LENGTH(64)"
  have "bit (push_bit n (test_mask2 n P (drop n p) (drop n q))) i \<longleftrightarrow>
      n \<le> i \<and> i < n + n \<and> i < length p \<and> i < length q \<and> P (p ! i) (q ! i)"
    using i assms by (auto simp: bit_push_bit_iff bit_test_mask2)
  then show "bit (push_bit n (test_mask2 n P (drop n p) (drop n q)) OR test_mask2 n P p q) i =
      bit (test_mask2 (n + n) P p q) i"
    using assms by (auto simp: bit_or_iff bit_test_mask2)
qed

lemma compare_equal_32_char: "compare_equal_32 mode p c = test_mask 32 (\<lambda>b. b = c) p"
  using test_mask_join[of 16] by (simp add: compare_equal_32_def compare_equal_16_def bit_char)

lemma compare_equal_64_char: "compare_equal_64 mode p c = test_mask 64 (\<lambda>b. b = c) p"
  using test_mask_join[of 32]
  by (simp add: compare_equal_64_def compare_equal_32_char simd512_char simd512_mem_char)

lemma compare_equal_32_mem_char: "compare_equal_32_mem mode p1 p2 = test_mask2 32 (=) p1 p2"
  using test_mask2_join[of 16] by (simp add: compare_equal_32_mem_def compare_equal_16_mem_def bit_char)

lemma compare_equal_64_mem_char: "compare_equal_64_mem mode p1 p2 = test_mask2 64 (=) p1 p2"
  using test_mask2_join[of 32]
  by (simp add: compare_equal_64_mem_def compare_equal_32_mem_char simd512_char simd512_mem_char)

lemma compare_less_32_char: "compare_less_32 mode p c = test_mask 32 (\<lambda>b. sint b < sint c) p"
  using test_mask_join[of 16] by (simp add: compare_less_32_def compare_less_16_def bit_char)

lemma compare_less_64_char: "compare_less_64 mode p c = test_mask 64 (\<lambda>b. sint b < sint c) p"
  using test_mask_join[of 32]
  by (simp add: compare_less_64_def compare_less_32_char simd512_char simd512_mem_char)

lemma compare_less_32_mem_char: "compare_less_32_mem mode p1 p2 = test_mask2 32 (\<lambda>a b. sint a < sint b) p1 p2"
  using test_mask2_join[of 16] by (simp add: compare_less_32_mem_def compare_less_16_mem_def bit_char)

lemma compare_less_64_mem_char: "compare_less_64_mem mode p1 p2 = test_mask2 64 (\<lambda>a b. sint a < sint b) p1 p2"
  using test_mask2_join[of 32]
  by (simp add: compare_less_64_mem_def compare_less_32_mem_char simd512_char simd512_mem_char)

end
