(* ===== verification/Keys.thy ===== *)
theory Keys
  imports Compare
begin

text \<open>
  The key encoding of \<open>src/FBTree/constant.h\<close>. An integer key is moved to the unsigned range
  (\<open>Constant<K>::convert\<close>), its bytes are reversed to big-endian order, and 128 is added to every
  byte, so that the keys of inner nodes can be compared byte by byte with signed byte
  comparisons.

  The lemmas show that the encoding can be undone and that comparing encoded keys byte by
  byte, as signed characters, is comparing the keys. The interface \<open>key_codec\<close> is what the
  inner nodes and the tree rely on; it is interpreted for the four integer key types.
\<close>

section \<open>Definitions\<close>

text \<open>
  \<open>Constant<uint64_t>::convert\<close> and \<open>Constant<uint32_t>::convert\<close> are the identity; the signed
  ones compute \<open>max + 1 + key\<close>, here with two's complement wrap-around.
\<close>

definition convert_unsigned :: "'a::len word \<Rightarrow> 'a word" where
  "convert_unsigned key = key"

definition convert_signed :: "'a::len word \<Rightarrow> 'a word" where
  "convert_signed key = (2 ^ (LENGTH('a) - 1) - 1) + 1 + key"

definition encode_convert :: "('a::len word \<Rightarrow> 'a word) \<Rightarrow> 'a word \<Rightarrow> 'a word" where
  "encode_convert convert key =
     (let key = convert key; key = byte_swap key
      in of_bytes_le (map (\<lambda>b. b + 128) (bytes_le key)))"

definition encode_reconvert :: "('a::len word \<Rightarrow> 'a word) \<Rightarrow> 'a word \<Rightarrow> 'a word" where
  "encode_reconvert convert key =
     (let key = of_bytes_le (map (\<lambda>b. b + 128) (bytes_le key)); key = byte_swap key
      in convert key)"

text \<open>
  The code reads an encoded key only through its bytes, \<open>((char*) &key)[i]\<close>: an encoded key
  is the list of its bytes in memory. \<open>key_less\<close> compares such lists byte by byte as signed
  characters.
\<close>

definition key_bytes :: "('a::len word \<Rightarrow> 'a word) \<Rightarrow> 'a word \<Rightarrow> byte list" where
  "key_bytes convert key = bytes_le (encode_convert convert key)"

text \<open>A byte list as a list of signed characters: its list order is the comparison of the code.\<close>

definition schars :: "byte list \<Rightarrow> int list" where
  "schars bs = map sint bs"

section \<open>Round trip\<close>

lemma bytes_encode_convert:
  "bytes_le (encode_convert convert key) = map (\<lambda>b. b + 128) (rev (bytes_le (convert key)))"
  by (simp add: encode_convert_def bytes_of_bytes_le bytes_byte_swap)

lemma add_128_twice: "(b + 128) + 128 = (b :: byte)"
  by (simp add: add.assoc)

lemma encode_roundtrip:
  assumes "8 dvd LENGTH('a)" "\<And>k. convert (convert k) = (k :: 'a::len word)"
  shows "encode_reconvert convert (encode_convert convert key) = key"
proof -
  have "map (\<lambda>b. b + 128) (bytes_le (encode_convert convert key)) = rev (bytes_le (convert key))"
    by (simp add: bytes_encode_convert comp_def add_128_twice)
  then have "encode_reconvert convert (encode_convert convert key) =
      convert (byte_swap (of_bytes_le (rev (bytes_le (convert key)))))"
    by (simp add: encode_reconvert_def)
  also have "\<dots> = convert (byte_swap (byte_swap (convert key)))"
    by (simp add: byte_swap_def)
  finally show ?thesis using assms by (simp add: byte_swap_swap)
qed

lemma convert_unsigned_involution: "convert_unsigned (convert_unsigned k) = k"
  by (simp add: convert_unsigned_def)

lemma convert_signed_eq: "convert_signed (k :: 'a::len word) = k + 2 ^ (LENGTH('a) - 1)"
  by (simp add: convert_signed_def)

lemma convert_signed_involution: "convert_signed (convert_signed k) = (k :: 'a::len word)"
proof -
  have "(2 ^ (LENGTH('a) - 1) + 2 ^ (LENGTH('a) - 1) :: 'a word) = 2 * 2 ^ (LENGTH('a) - 1)"
    by simp
  also have "\<dots> = 2 ^ LENGTH('a)"
    by (metis Suc_diff_1 len_gt_0 power_Suc)
  also have "\<dots> = 0" by simp
  finally show ?thesis by (simp add: convert_signed_eq add.assoc)
qed

section \<open>Order\<close>

text \<open>The value of a big-endian byte list.\<close>

primrec be_val :: "byte list \<Rightarrow> int" where
  "be_val [] = 0"
| "be_val (b # bs) = uint b * 256 ^ length bs + be_val bs"

lemma be_val_bounds: "0 \<le> be_val bs" "be_val bs < 256 ^ length bs"
proof (induction bs)
  case (Cons b bs)
  have b: "0 \<le> uint b" "uint b \<le> 255" using uint_lt2p[of b] by auto
  { case 1 show ?case using b Cons by simp }
  { case 2
    have "uint b * 256 ^ length bs \<le> 255 * 256 ^ length bs"
      using b by (intro mult_right_mono) auto
    with Cons(2) show ?case
      unfolding be_val.simps length_Cons power_Suc by linarith }
qed simp_all

lemma be_val_less:
  assumes "length xs = length ys"
  shows "map uint xs < map uint ys \<longleftrightarrow> be_val xs < be_val ys"
  using assms
proof (induction xs ys rule: list_induct2)
  case (Cons x xs y ys)
  let ?p = "256 ^ length xs :: int"
  have p: "length ys = length xs" using Cons.hyps by simp
  have bx: "0 \<le> be_val xs" "be_val xs < ?p" by (rule be_val_bounds)+
  have by': "0 \<le> be_val ys" "be_val ys < ?p" using be_val_bounds[of ys] p by auto
  have lt: "uint a * ?p + u < uint b * ?p + v"
    if "uint a < uint b" "u < ?p" "0 \<le> v" for a b :: byte and u v :: int
  proof -
    have "(uint a + 1) * ?p \<le> uint b * ?p" using that by (intro mult_right_mono) auto
    then show ?thesis using that by (simp add: distrib_right)
  qed
  consider "uint x < uint y" | "uint x = uint y" | "uint y < uint x" by linarith
  then show ?case
  proof cases
    case 1
    then have "be_val (x # xs) < be_val (y # ys)" using lt[of x y] bx by' p by simp
    then show ?thesis using 1 by simp
  next
    case 2
    then show ?thesis using Cons.IH p by simp
  next
    case 3
    then have "be_val (y # ys) < be_val (x # xs)" using lt[of y x] bx by' p by simp
    then show ?thesis using 3 by simp
  qed
qed simp

lemma be_val_snoc: "be_val (bs @ [b]) = 256 * be_val bs + uint b"
  by (induction bs) (auto simp: algebra_simps)

lemma be_val_rev_bytes:
  assumes "8 dvd LENGTH('a)"
  shows "be_val (rev (bytes_le (w :: 'a::len word))) = uint w"
proof -
  have step: "be_val (rev (map (\<lambda>i. ucast (drop_bit (8 * i) w)) [m..<m + n])) =
      take_bit (8 * n) (drop_bit (8 * m) (uint w))" for m n
  proof (induction n arbitrary: m)
    case 0
    then show ?case by simp
  next
    case (Suc n)
    let ?x = "drop_bit (8 * m) (uint w)"
    have u: "uint (ucast (drop_bit (8 * m) w) :: byte) = take_bit 8 ?x"
      by (simp add: unsigned_ucast_eq unsigned_drop_bit_eq take_bit_int_eq_self)
    have "[m..<m + Suc n] = m # [Suc m..<Suc m + n]"
      by (simp add: upt_rec)
    then have "be_val (rev (map (\<lambda>i. ucast (drop_bit (8 * i) w)) [m..<m + Suc n])) =
        256 * be_val (rev (map (\<lambda>i. ucast (drop_bit (8 * i) w)) [Suc m..<Suc m + n]))
          + uint (ucast (drop_bit (8 * m) w) :: byte)"
      by (simp only: list.map rev.simps be_val_snoc)
    also have "\<dots> = 256 * take_bit (8 * n) (drop_bit (8 * Suc m) (uint w)) + take_bit 8 ?x"
      by (simp only: Suc.IH u)
    also have "drop_bit (8 * Suc m) (uint w) = drop_bit 8 ?x"
      by (simp add: add.commute)
    also have "256 * take_bit (8 * n) (drop_bit 8 ?x) + take_bit 8 ?x = take_bit (8 * Suc n) ?x"
      using mod_mult2_eq'[of ?x "2 ^ 8" "2 ^ (8 * n)"]
      by (simp add: take_bit_eq_mod drop_bit_eq_div power_add)
    finally show ?case .
  qed
  have "8 * (LENGTH('a) div 8) = LENGTH('a)" using assms by simp
  then show ?thesis
    using step[of 0 "LENGTH('a) div 8"] by (simp add: bytes_le_def take_bit_int_eq_self)
qed

lemma uint_convert_signed: "uint (convert_signed (k :: 'a::len word)) = sint k + 2 ^ (LENGTH('a) - 1)"
proof -
  let ?h = "2 ^ (LENGTH('a) - 1) :: int"
  have L: "2 * ?h = 2 ^ LENGTH('a)" by (metis Suc_diff_1 len_gt_0 power_Suc)
  have h: "uint (2 ^ (LENGTH('a) - 1) :: 'a word) = ?h" 
  proof (rule uint_2p)
    have "bit (2 ^ (LENGTH('a) - 1) :: 'a word) (LENGTH('a) - 1)"
      by (simp add: bit_exp_iff)
    then have "(2 ^ (LENGTH('a) - 1) :: 'a word) \<noteq> 0" by auto
    then show "0 < (2 ^ (LENGTH('a) - 1) :: 'a word)" by (simp only: word_neq_0_conv)
  qed 
  have "sint k = (uint k + ?h) mod 2 ^ LENGTH('a) - ?h"
    by (simp add: sint_uint signed_take_bit_eq_take_bit_shift take_bit_eq_mod)
  moreover have "uint (convert_signed k) = (uint k + ?h) mod 2 ^ LENGTH('a)"
    by (simp only: convert_signed_eq uint_word_ariths(1) h)
  ultimately show ?thesis by simp
qed

lemma schars_key_bytes:
  "schars (key_bytes convert k) = map (\<lambda>b. uint b - 128) (rev (bytes_le (convert k)))"
  by (simp add: schars_def key_bytes_def bytes_encode_convert sint_add_128 comp_def)

lemma map_minus_less:
  "map (\<lambda>b. f b - (c :: int)) xs < map (\<lambda>b. f b - c) ys \<longleftrightarrow> map f xs < map f ys"
proof (induction xs arbitrary: ys)
  case Nil
  then show ?case by (cases ys) auto
next
  case (Cons x xs)
  then show ?case by (cases ys) auto
qed

lemma key_bytes_less:
  assumes "8 dvd LENGTH('a)"
  shows "schars (key_bytes convert a) < schars (key_bytes convert b) \<longleftrightarrow>
         convert a < (convert b :: 'a::len word)"
  using be_val_less[of "rev (bytes_le (convert a))" "rev (bytes_le (convert b))"]
  by (simp add: schars_key_bytes map_minus_less be_val_rev_bytes[OF assms] word_less_def)

lemma length_key_bytes [simp]: "length (key_bytes convert (k :: 'a::len word)) = LENGTH('a) div 8"
  by (simp add: key_bytes_def)

lemma length_schars [simp]: "length (schars bs) = length bs"
  by (simp add: schars_def)

lemma nth_schars [simp]: "i < length bs \<Longrightarrow> schars bs ! i = sint (bs ! i)"
  by (simp add: schars_def)

lemma sint_inject: "sint a = sint b \<longleftrightarrow> a = (b :: 'a::len word)"
  by (auto intro: signed_word_eqI)

lemma schars_inject [simp]: "schars xs = schars ys \<longleftrightarrow> xs = ys"
  by (auto simp: schars_def inj_map_eq_map inj_on_def sint_inject)

section \<open>Signed key types\<close>

text \<open>\<open>int64_t\<close> and \<open>int32_t\<close>: words ordered as two's complement numbers.\<close>

datatype i64 = I64 (raw64: u64)
datatype i32 = I32 (raw32: u32)

instantiation i64 :: linorder
begin

definition less_eq_i64 :: "i64 \<Rightarrow> i64 \<Rightarrow> bool" where
  "less_eq_i64 a b = (sint (raw64 a) \<le> sint (raw64 b))"

definition less_i64 :: "i64 \<Rightarrow> i64 \<Rightarrow> bool" where
  "less_i64 a b = (sint (raw64 a) < sint (raw64 b))"

instance
  by standard (auto simp: less_eq_i64_def less_i64_def i64.expand sint_inject)

end

instantiation i64 :: zero
begin

definition zero_i64 :: i64 where "zero_i64 = I64 0"

instance ..

end

instantiation i32 :: zero
begin

definition zero_i32 :: i32 where "zero_i32 = I32 0"

instance ..

end

instantiation i32 :: linorder
begin

definition less_eq_i32 :: "i32 \<Rightarrow> i32 \<Rightarrow> bool" where
  "less_eq_i32 a b = (sint (raw32 a) \<le> sint (raw32 b))"

definition less_i32 :: "i32 \<Rightarrow> i32 \<Rightarrow> bool" where
  "less_i32 a b = (sint (raw32 a) < sint (raw32 b))"

instance
  by standard (auto simp: less_eq_i32_def less_i32_def i32.expand sint_inject)

end

section \<open>The interface of an encodable key type\<close>

text \<open>
  What the inner nodes and the tree use of \<open>Constant<K>\<close> and \<open>encode_convert\<close>: an encoded key
  has \<open>kFeatureSize\<close> bytes, and the byte-wise signed order of encoded keys is the order of keys.
\<close>

locale key_codec =
  fixes enc :: "'k::linorder \<Rightarrow> byte list" and F :: nat
  assumes enc_length: "length (enc k) = F"
    and enc_less: "schars (enc a) < schars (enc b) \<longleftrightarrow> a < b"
    and F_pos: "0 < F"
    and F_le: "F \<le> 8"
begin

lemma enc_inject: "enc a = enc b \<longleftrightarrow> a = b"
  using enc_less[of a b] enc_less[of b a] by (metis less_irrefl linorder_neqE)

lemma enc_le: "schars (enc a) \<le> schars (enc b) \<longleftrightarrow> a \<le> b"
  using enc_less[of b a] by (simp add: not_less[symmetric])

end

definition enc_u64 :: "u64 \<Rightarrow> byte list" where "enc_u64 = key_bytes convert_unsigned"
definition enc_u32 :: "u32 \<Rightarrow> byte list" where "enc_u32 = key_bytes convert_unsigned"
definition enc_i64 :: "i64 \<Rightarrow> byte list" where "enc_i64 k = key_bytes convert_signed (raw64 k)"
definition enc_i32 :: "i32 \<Rightarrow> byte list" where "enc_i32 k = key_bytes convert_signed (raw32 k)"

interpretation u64c: key_codec enc_u64 8
  by unfold_locales (simp_all add: enc_u64_def key_bytes_less convert_unsigned_def)

interpretation u32c: key_codec enc_u32 4
  by unfold_locales (simp_all add: enc_u32_def key_bytes_less convert_unsigned_def)

interpretation i64c: key_codec enc_i64 8
  by unfold_locales
     (simp_all add: enc_i64_def key_bytes_less word_less_def uint_convert_signed less_i64_def)

interpretation i32c: key_codec enc_i32 4
  by unfold_locales
     (simp_all add: enc_i32_def key_bytes_less word_less_def uint_convert_signed less_i32_def)

end
