(* ===== verification/Hash.thy ===== *)
theory Hash
  imports Keys
begin

text \<open>
  The hash of integer keys (\<open>src/util/hash.h\<close>, \<open>faster_internal\<close> of
  \<open>src/util/internal/hash-internal.h\<close>). A leaf keeps the low byte of the hash of each key as its
  tag: \<open>char tag = hash(key)\<close>. The proofs about leaves hold for every tag function; the
  functions here are the ones the code instantiates them with.
\<close>

definition Rotr64 :: "u64 \<Rightarrow> nat \<Rightarrow> u64" where
  "Rotr64 x n = drop_bit n x OR push_bit (64 - n) x"

definition faster_hash :: "u64 \<Rightarrow> u64" where
  "faster_hash key =
     (let local_rand = key;
          local_rand_hash = 8;
          local_rand_hash = 40343 * local_rand_hash + (local_rand AND 0xFFFF);
          local_rand_hash = 40343 * local_rand_hash + (drop_bit 16 local_rand AND 0xFFFF);
          local_rand_hash = 40343 * local_rand_hash + (drop_bit 32 local_rand AND 0xFFFF);
          local_rand_hash = 40343 * local_rand_hash + drop_bit 48 local_rand;
          local_rand_hash = 40343 * local_rand_hash
      in Rotr64 local_rand_hash 43)"

definition faster_hash_bytes :: "byte list \<Rightarrow> u64" where
  "faster_hash_bytes data =
     (let kMagicNum = 40343
      in Rotr64 (kMagicNum *
           fold (\<lambda>b hashState. kMagicNum * hashState + scast b) data (of_nat (length data))) 6)"

definition hash_u64 :: "u64 \<Rightarrow> u64" where "hash_u64 key = faster_hash key"
definition hash_u32 :: "u32 \<Rightarrow> u64" where "hash_u32 key = faster_hash (ucast key)"
definition hash_i64 :: "i64 \<Rightarrow> u64" where "hash_i64 key = hash_u64 (case key of I64 w \<Rightarrow> w)"
definition hash_i32 :: "i32 \<Rightarrow> u64" where "hash_i32 key = hash_u32 (case key of I32 w \<Rightarrow> w)"

text \<open>The conversion to \<open>char\<close> that makes a hash a tag.\<close>

definition tag_u64 :: "u64 \<Rightarrow> byte" where "tag_u64 key = ucast (hash_u64 key)"
definition tag_u32 :: "u32 \<Rightarrow> byte" where "tag_u32 key = ucast (hash_u32 key)"
definition tag_i64 :: "i64 \<Rightarrow> byte" where "tag_i64 key = ucast (hash_i64 key)"
definition tag_i32 :: "i32 \<Rightarrow> byte" where "tag_i32 key = ucast (hash_i32 key)"

text \<open>A rotation loses no bit: rotating by \<open>64 - n\<close> brings the word back.\<close>

lemma bit_Rotr64: "n < 64 \<Longrightarrow> i < 64 \<Longrightarrow> bit (Rotr64 x n) i = bit x ((i + n) mod 64)"
  unfolding Rotr64_def
  using bit_imp_le_length[of x "n + i"]
  by (auto simp: bit_or_iff bit_drop_bit_eq bit_push_bit_iff add.commute mod_if not_less le_diff_conv
      intro!: arg_cong[where f = "bit x"])

lemma Rotr64_inverse: "0 < n \<Longrightarrow> n < 64 \<Longrightarrow> Rotr64 (Rotr64 x n) (64 - n) = x"
proof (rule bit_word_eqI)
  fix i assume n: "0 < n" "n < 64" and "i < LENGTH(64)"
  then have i: "i < 64" by simp
  have "((i + (64 - n)) mod 64 + n) mod 64 = (i + (64 - n) + n) mod 64" by (simp add: mod_add_left_eq)
  also have "\<dots> = i" using n i by simp
  finally show "bit (Rotr64 (Rotr64 x n) (64 - n)) i = bit x i"
    using n i by (simp add: bit_Rotr64)
qed

end
