(* ===== verification/Leaf.thy ===== *)
theory Leaf
  imports Control Compare Hash "HOL-Library.Multiset"
begin

text \<open>
  The leaf node for integer keys (\<open>LeafNode<K, V>\<close> of \<open>src/FBTree/lnode.h\<close>): 64 slots for key-value
  pairs in no particular order, a bitmap of the slots in use, and one hash byte per slot that
  filters the candidates of a search. Inserting into a full leaf splits it around the median
  key, removing from it may merge the right sibling into it, and a scan sorts it on demand.

  The operations take the tag function \<open>h\<close> (\<open>hash(key)\<close> cut to a byte) and, where a separator is
  produced, the encoding \<open>enc\<close> of keys (\<open>encode_convert\<close>). A pointer to a key-value pair is the
  pair, the null pointer is \<open>None\<close>. Memory that the code leaves uninitialised is an argument.
  A step the language leaves undefined (a null pointer followed, an index out of the array),
  and a wait for a latch that is held, gives \<open>None\<close>.

  The refinement: a leaf in its invariant is a finite map, and every operation is the
  corresponding operation on maps.
\<close>

section \<open>State and operations\<close>

type_synonym ('k, 'v) kv = "'k \<times> 'v"

record ('k, 'v) leaf =
  lcontrol :: u64
  lbitmap :: u64
  lhigh :: 'k
  lsibling :: ptr
  ltags :: "byte list"
  lkvs :: "('k, 'v) kv option list"

definition leaf_compare_equal :: "byte list \<Rightarrow> byte \<Rightarrow> u64" where
  "leaf_compare_equal p c = compare_equal_64 kCmpMode p c"

definition half_fill :: u64 where "half_fill = 0xFFFFFFFF"

definition full_idx :: int where "full_idx = - 1"

definition leaf_bitmap :: "nat \<Rightarrow> u64" where
  "leaf_bitmap sz = (if sz = kLeafSize then 0 - 1 else push_bit sz 1 - 1)"

text \<open>\<open>LeafNode()\<close> on the allocated memory \<open>raw\<close>: the tags and the slots keep what was there.\<close>

definition leaf_new :: "('k::zero, 'v) leaf \<Rightarrow> ('k, 'v) leaf" where
  "leaf_new raw = raw\<lparr>lcontrol := control_new True, lbitmap := 0, lhigh := 0, lsibling := None\<rparr>"

text \<open>\<open>~LeafNode()\<close>: the pairs it frees, in order.\<close>

definition leaf_destroy :: "('k, 'v) leaf \<Rightarrow> ('k, 'v) kv list option" where
  "leaf_destroy l =
     (case mask_loop (\<lambda>idx freed. case lkvs l ! idx of None \<Rightarrow> Inl () | Some kv \<Rightarrow> Inr (freed @ [kv]))
             (lbitmap l) []
      of Inl _ \<Rightarrow> None | Inr freed \<Rightarrow> Some freed)"

definition leaf_sibling :: "('k, 'v) leaf \<Rightarrow> ptr" where
  "leaf_sibling l =
     (if has_sibling (lcontrol l) then lsibling l
      else if deleted (lcontrol l) then lsibling l
      else None)"

text \<open>\<open>to_sibling\<close>: \<open>Some next\<close> when it answers true with \<open>next\<close> set.\<close>

definition leaf_to_sibling :: "'k::linorder \<Rightarrow> ('k, 'v) leaf \<Rightarrow> ptr option" where
  "leaf_to_sibling key l =
     (if deleted (lcontrol l) then Some (lsibling l)
      else if has_sibling (lcontrol l) \<and> lhigh l < key then Some (lsibling l)
      else None)"

definition leaf_candidates :: "('k \<Rightarrow> byte) \<Rightarrow> ('k, 'v) leaf \<Rightarrow> 'k \<Rightarrow> u64" where
  "leaf_candidates h l key = lbitmap l AND leaf_compare_equal (ltags l) (h key)"

definition leaf_lookup :: "('k \<Rightarrow> byte) \<Rightarrow> ('k, 'v) leaf \<Rightarrow> 'k \<Rightarrow> ('k, 'v) kv option" where
  "leaf_lookup h l key =
     (case mask_loop
             (\<lambda>idx u. case lkvs l ! idx of
                 None \<Rightarrow> Inr u
               | Some kv \<Rightarrow> if key = fst kv then Inl kv else Inr u)
             (leaf_candidates h l key) ()
      of Inl kv \<Rightarrow> Some kv | Inr _ \<Rightarrow> None)"

text \<open>
  \<open>update\<close> with no other thread between the load and the exchange: the exchange succeeds at
  once.
\<close>

definition leaf_update ::
  "('k \<Rightarrow> byte) \<Rightarrow> ('k, 'v) kv \<Rightarrow> ('k, 'v) leaf \<Rightarrow> ('k, 'v) kv option \<times> ('k, 'v) leaf" where
  "leaf_update h kv l =
     (case mask_loop
             (\<lambda>idx u. case lkvs l ! idx of
                 None \<Rightarrow> Inr u
               | Some old \<Rightarrow>
                   if fst kv = fst old
                   then Inl (Some old, l\<lparr>lkvs := (lkvs l)[idx := Some kv]\<rparr>)
                   else Inr u)
             (leaf_candidates h l (fst kv)) ()
      of Inl r \<Rightarrow> r | Inr _ \<Rightarrow> (None, l))"

definition leaf_insert_slot ::
  "nat \<Rightarrow> ('k, 'v) kv \<Rightarrow> byte \<Rightarrow> ('k, 'v) leaf \<Rightarrow> ('k, 'v) leaf" where
  "leaf_insert_slot idx kv tag l =
     l\<lparr>lkvs := (lkvs l)[idx := Some kv], ltags := (ltags l)[idx := tag],
       lbitmap := lbitmap l OR push_bit idx 1\<rparr>"

text \<open>One round of the loop that moves the upper half: slot \<open>lid\<close> of this leaf to slot \<open>rid\<close>.\<close>

definition leaf_move ::
  "nat \<times> nat \<Rightarrow> ('k, 'v) leaf \<times> ('k, 'v) leaf \<times> u64 \<Rightarrow> ('k, 'v) leaf \<times> ('k, 'v) leaf \<times> u64" where
  "leaf_move = (\<lambda>(rid, lid) (l, r, mask).
     (l\<lparr>lkvs := (lkvs l)[lid := None]\<rparr>,
      r\<lparr>ltags := (ltags r)[rid := ltags l ! lid], lkvs := (lkvs r)[rid := lkvs l ! lid]\<rparr>,
      mask OR push_bit lid 1))"

text \<open>
  The split of a full leaf before \<open>key\<close> is inserted: the two leaves, whether the new key goes
  to the right one, and the slot it goes to.
\<close>

definition leaf_split ::
  "addr \<Rightarrow> ('k::{linorder,zero}, 'v) leaf \<Rightarrow> 'k \<Rightarrow> ('k, 'v) leaf \<Rightarrow>
   (('k, 'v) leaf \<times> ('k, 'v) leaf \<times> bool \<times> nat) option" where
  "leaf_split rp raw key l =
     (if None \<in> set (take kLeafSize (lkvs l)) then None
      else
        let keys = sort_key fst (map (\<lambda>i. (fst (the (lkvs l ! i)), i)) [0..<kLeafSize]);
            r = leaf_new raw
        in if \<not> has_sibling (lcontrol l) \<and> fst (last keys) < key
           then Some (l\<lparr>lsibling := Some rp, lhigh := fst (last keys),
                        lcontrol := set_sibling (lcontrol l)\<rparr>, r, True, 0)
           else
             let lids = map snd (drop (kLeafSize div 2) keys);
                 (l, r, mask) = fold leaf_move (enumerate 0 lids) (l, r, 0);
                 r = r\<lparr>lbitmap := half_fill, lsibling := lsibling l, lhigh := lhigh l\<rparr>;
                 l = l\<lparr>lbitmap := lbitmap l AND NOT mask, lsibling := Some rp,
                       lhigh := fst (keys ! (kLeafSize div 2 - 1))\<rparr>;
                 (l, r) = (if \<not> has_sibling (lcontrol l)
                           then (l\<lparr>lcontrol := set_sibling (lcontrol l)\<rparr>, r)
                           else (l, r\<lparr>lcontrol := set_sibling (lcontrol r)\<rparr>))
             in if lhigh l < key then Some (l, r, True, kLeafSize div 2)
                else Some (l, r, False, last lids))"

text \<open>
  \<open>upsert\<close>: the pair it replaces, the new right leaf with its separator if the leaf was
  split, and this leaf. \<open>rp\<close> is the address that \<open>malloc\<close> returns and \<open>raw\<close> the memory there.
\<close>

definition leaf_upsert ::
  "('k \<Rightarrow> byte) \<Rightarrow> ('k \<Rightarrow> byte list) \<Rightarrow> addr \<Rightarrow> ('k::{linorder,zero}, 'v) leaf \<Rightarrow> ('k, 'v) kv \<Rightarrow>
   ('k, 'v) leaf \<Rightarrow>
   (('k, 'v) kv option \<times> (('k, 'v) leaf \<times> byte list) option \<times> ('k, 'v) leaf) option" where
  "leaf_upsert h enc rp raw kv l =
     (let tag = h (fst kv) in
      case mask_loop
             (\<lambda>idx u. case lkvs l ! idx of
                 None \<Rightarrow> Inl None
               | Some old \<Rightarrow>
                   if fst kv = fst old
                   then Inl (Some (Some old, None, l\<lparr>lkvs := (lkvs l)[idx := Some kv]\<rparr>))
                   else Inr u)
             (leaf_candidates h l (fst kv)) ()
      of Inl r \<Rightarrow> r
       | Inr _ \<Rightarrow>
           let l = l\<lparr>lcontrol := update_version (lcontrol l)\<rparr>;
               l = (if ordered (lcontrol l) then l\<lparr>lcontrol := clear_order (lcontrol l)\<rparr> else l);
               idx = index_least0 (lbitmap l)
           in if idx \<noteq> full_idx then Some (None, None, leaf_insert_slot (nat idx) kv tag l)
              else case leaf_split rp raw (fst kv) l of
                  None \<Rightarrow> None
                | Some (l, r, right, idx) \<Rightarrow>
                    let mid = enc (lhigh l) in
                    if right then Some (None, Some (leaf_insert_slot idx kv tag r, mid), l)
                    else Some (None, Some (r, mid), leaf_insert_slot idx kv tag l))"

text \<open>
  \<open>merge\<close> of the right sibling \<open>r\<close> into the leaf \<open>l\<close> at address \<open>this\<close>: the separator that goes
  away when the two were merged, and both leaves. One round of its loop moves the pair in
  slot \<open>ridx\<close> to the least free slot.
\<close>

definition leaf_merge_move ::
  "nat \<Rightarrow> ('k, 'v) leaf \<times> ('k, 'v) leaf \<Rightarrow> unit + ('k, 'v) leaf \<times> ('k, 'v) leaf" where
  "leaf_merge_move ridx = (\<lambda>(l, r).
     let lidx = index_least0 (lbitmap l)
     in if lidx = full_idx then Inl ()
        else let lidx = nat lidx
             in Inr (l\<lparr>ltags := (ltags l)[lidx := ltags r ! ridx],
                       lkvs := (lkvs l)[lidx := lkvs r ! ridx],
                       lbitmap := lbitmap l OR push_bit lidx 1\<rparr>,
                     r\<lparr>lkvs := (lkvs r)[ridx := None]\<rparr>))"

definition leaf_merge ::
  "('k \<Rightarrow> byte list) \<Rightarrow> addr \<Rightarrow> ('k, 'v) leaf \<Rightarrow> ('k, 'v) leaf option \<Rightarrow>
   (byte list option \<times> ('k, 'v) leaf \<times> ('k, 'v) leaf option) option" where
  "leaf_merge enc this l sib =
     (if has_sibling (lcontrol l)
      then case sib of
          None \<Rightarrow> None
        | Some r \<Rightarrow>
            let lnkey = popcount (lbitmap l); rnkey = popcount (lbitmap r)
            in if lnkey + rnkey \<le> kLeafMergeSize \<or> lnkey = 0
               then case latch_exclusive (lcontrol r) of
                   None \<Rightarrow> None
                 | Some rc \<Rightarrow>
                     let r = r\<lparr>lcontrol := rc\<rparr>;
                         rnkey = popcount (lbitmap r)
                     in if lnkey + rnkey \<le> kLeafMergeSize \<or> lnkey = 0
                        then case mask_loop leaf_merge_move (lbitmap r) (l, r) of
                            Inl _ \<Rightarrow> None
                          | Inr (l', r') \<Rightarrow>
                              let mid = enc (lhigh l);
                                  r' = r'\<lparr>lbitmap := 0\<rparr>;
                                  l' = l'\<lparr>lhigh := lhigh r', lsibling := lsibling r'\<rparr>;
                                  r' = r'\<lparr>lsibling := Some this\<rparr>;
                                  l' = (if \<not> has_sibling (lcontrol r')
                                        then l'\<lparr>lcontrol := clear_sibling (lcontrol l')\<rparr> else l');
                                  r' = r'\<lparr>lcontrol :=
                                           unlatch_exclusive (update_version (set_delete (lcontrol r')))\<rparr>
                              in Some (Some mid, l', Some r')
                        else Some (None, l, Some (r\<lparr>lcontrol := unlatch_exclusive (lcontrol r)\<rparr>))
               else Some (None, l, Some r)
      else Some (None, l, sib))"

text \<open>
  \<open>remove\<close>: the pair that was removed, the separator of the merged sibling if there was a merge,
  and both leaves.
\<close>

definition leaf_remove ::
  "('k \<Rightarrow> byte) \<Rightarrow> ('k \<Rightarrow> byte list) \<Rightarrow> addr \<Rightarrow> 'k \<Rightarrow> ('k, 'v) leaf \<Rightarrow> ('k, 'v) leaf option \<Rightarrow>
   (('k, 'v) kv option \<times> byte list option \<times> ('k, 'v) leaf \<times> ('k, 'v) leaf option) option" where
  "leaf_remove h enc this key l sib =
     (case mask_loop
             (\<lambda>idx u. case lkvs l ! idx of
                 None \<Rightarrow> Inl None
               | Some kv \<Rightarrow>
                   if fst kv = key
                   then
                     let l = l\<lparr>lcontrol := update_version (lcontrol l)\<rparr>;
                         l = l\<lparr>lbitmap := clear_bit idx (lbitmap l)\<rparr>;
                         l = l\<lparr>lkvs := (lkvs l)[idx := None]\<rparr>
                     in Inl (case leaf_merge enc this l sib of
                          None \<Rightarrow> None
                        | Some (mid, l, sib) \<Rightarrow>
                            Some (Some kv, mid,
                                  if ordered (lcontrol l) then l\<lparr>lcontrol := clear_order (lcontrol l)\<rparr>
                                  else l, sib))
                   else Inr u)
             (leaf_candidates h l key) ()
      of Inl r \<Rightarrow> r | Inr _ \<Rightarrow> Some (None, None, l, sib))"

text \<open>\<open>kv_sort\<close>; \<open>junk\<close> is the local array of tags before it is written.\<close>

definition leaf_kv_sort ::
  "byte list \<Rightarrow> ('k::linorder, 'v) leaf \<Rightarrow> ('k, 'v) leaf option" where
  "leaf_kv_sort junk l =
     (if ordered (lcontrol l) then Some l
      else
        case mask_loop
               (\<lambda>idx (l, keys). case lkvs l ! idx of
                   None \<Rightarrow> Inl ()
                 | Some kv \<Rightarrow> Inr (l\<lparr>lkvs := (lkvs l)[idx := None]\<rparr>, keys @ [(kv, idx)]))
               (lbitmap l) (l, [])
        of Inl _ \<Rightarrow> None
         | Inr (l, keys) \<Rightarrow>
             let keys = sort_key (\<lambda>(kv, idx). fst kv) keys;
                 (tags, kvs) = fold (\<lambda>(idx, (kv, pos)) (tags, kvs).
                     (tags[idx := ltags l ! pos], kvs[idx := Some kv]))
                     (enumerate 0 keys) (junk, lkvs l);
                 l = l\<lparr>ltags := memcpy_at 0 0 kLeafSize tags (ltags l), lkvs := kvs,
                       lbitmap := leaf_bitmap (length keys)\<rparr>
             in Some (l\<lparr>lcontrol := update_version (set_order (lcontrol l))\<rparr>))"

text \<open>
  \<open>bound\<close>: the pair (or null) and its slot. The branch for an upper bound at the last slot in
  use builds a pair and drops it, so the code reads on at \<open>idx + 1\<close>.
\<close>

definition leaf_bound ::
  "('k \<Rightarrow> byte) \<Rightarrow> 'k::linorder \<Rightarrow> bool \<Rightarrow> ('k, 'v) leaf \<Rightarrow> (('k, 'v) kv option \<times> nat) option" where
  "leaf_bound h key upper l =
     (let nkey = popcount (lbitmap l) in
      case mask_loop
             (\<lambda>idx u. case lkvs l ! idx of
                 None \<Rightarrow> Inr u
               | Some kv \<Rightarrow>
                   if key = fst kv
                   then Inl (if upper
                             then if idx + 1 < kLeafSize then Some (lkvs l ! (idx + 1), idx + 1) else None
                             else Some (Some kv, idx))
                   else Inr u)
             (leaf_candidates h l key) ()
      of Inl r \<Rightarrow> r
       | Inr _ \<Rightarrow>
           if None \<in> set (take nkey (lkvs l)) then Some (None, 0)
           else let keys = map (fst \<circ> the) (take nkey (lkvs l));
                    kid = length (takeWhile (\<lambda>k. \<not> key < k) keys)
                in if nkey \<le> kid then Some (None, 0) else Some (lkvs l ! kid, kid))"

definition leaf_access_pos :: "int \<Rightarrow> ('k, 'v) leaf \<Rightarrow> ('k, 'v) kv option" where
  "leaf_access_pos pos l =
     (if pos < 0 \<or> pos \<ge> int kLeafSize then None
      else if push_bit (nat pos) 1 AND lbitmap l = 0 then None
      else lkvs l ! nat pos)"

definition leaf_access ::
  "('k \<Rightarrow> byte) \<Rightarrow> byte list \<Rightarrow> ('k::linorder, 'v) kv option \<Rightarrow> int \<Rightarrow> u64 \<Rightarrow> ('k, 'v) leaf \<Rightarrow>
   ((('k, 'v) kv option \<times> int \<times> u64) \<times> ('k, 'v) leaf) option" where
  "leaf_access h junk kv pos version l =
     (let slow =
        (case latch_exclusive (lcontrol l) of
           None \<Rightarrow> None
         | Some c \<Rightarrow>
             case leaf_kv_sort junk (l\<lparr>lcontrol := c\<rparr>) of
               None \<Rightarrow> None
             | Some l \<Rightarrow>
                 case (case kv of
                         Some (key, _) \<Rightarrow> map_option (\<lambda>(n, p). (n, int p)) (leaf_bound h key True l)
                       | None \<Rightarrow> Some (leaf_access_pos pos l, pos))
                 of None \<Rightarrow> None
                  | Some (next, pos) \<Rightarrow>
                      Some ((next, pos, load_version (lcontrol l)),
                            l\<lparr>lcontrol := unlatch_exclusive (lcontrol l)\<rparr>))
      in if ordered (lcontrol l)
         then case end_read (lcontrol l) version of
             None \<Rightarrow> None
           | Some True \<Rightarrow> Some ((leaf_access_pos pos l, pos, version), l)
           | Some False \<Rightarrow> slow
         else slow)"

section \<open>Invariant and abstraction\<close>

definition leaf_kvs :: "('k, 'v) leaf \<Rightarrow> ('k, 'v) kv list" where
  "leaf_kvs l = map (\<lambda>i. the (lkvs l ! i)) (mask_bits (lbitmap l))"

definition leaf_map :: "('k, 'v) leaf \<Rightarrow> 'k \<Rightarrow> 'v option" where
  "leaf_map l = map_of (leaf_kvs l)"

text \<open>
  Every slot in use holds a pair with its tag, no key occurs twice, and a leaf that is flagged
  as ordered has its pairs in ascending order in its first slots.
\<close>

definition leaf_inv :: "('k::linorder \<Rightarrow> byte) \<Rightarrow> ('k, 'v) leaf \<Rightarrow> bool" where
  "leaf_inv h l \<longleftrightarrow>
     length (ltags l) = kLeafSize \<and> length (lkvs l) = kLeafSize \<and> ctl_is_leaf (lcontrol l) \<and>
     list_all (\<lambda>i. case lkvs l ! i of None \<Rightarrow> False | Some kv \<Rightarrow> ltags l ! i = h (fst kv))
       (mask_bits (lbitmap l)) \<and>
     distinct (map fst (leaf_kvs l)) \<and>
     (ordered (lcontrol l) \<longrightarrow>
        lbitmap l = leaf_bitmap (popcount (lbitmap l)) \<and> sorted (map fst (leaf_kvs l)))"

text \<open>The part of the invariant that is about slots, as statements about single slots.\<close>

definition slots_ok :: "('k \<Rightarrow> byte) \<Rightarrow> ('k, 'v) leaf \<Rightarrow> bool" where
  "slots_ok h l \<longleftrightarrow>
     length (ltags l) = 64 \<and> length (lkvs l) = 64 \<and>
     (\<forall>i. bit (lbitmap l) i \<longrightarrow> (\<exists>kv. lkvs l ! i = Some kv \<and> ltags l ! i = h (fst kv))) \<and>
     (\<forall>i j k v w. bit (lbitmap l) i \<longrightarrow> bit (lbitmap l) j \<longrightarrow>
        lkvs l ! i = Some (k, v) \<longrightarrow> lkvs l ! j = Some (k, w) \<longrightarrow> i = j)"

definition order_ok :: "('k::linorder, 'v) leaf \<Rightarrow> bool" where
  "order_ok l \<longleftrightarrow> (ordered (lcontrol l) \<longrightarrow>
     lbitmap l = leaf_bitmap (popcount (lbitmap l)) \<and> sorted (map fst (leaf_kvs l)))"

definition slot_has :: "('k, 'v) leaf \<Rightarrow> nat \<Rightarrow> 'k \<Rightarrow> 'v \<Rightarrow> bool" where
  "slot_has l i k v \<longleftrightarrow> bit (lbitmap l) i \<and> lkvs l ! i = Some (k, v)"

lemma bit64: "bit (m :: u64) i \<Longrightarrow> i < 64"
  using bit_imp_le_length[of m i] by simp

lemma case_option_ex: "(case x of None \<Rightarrow> False | Some y \<Rightarrow> P y) \<longleftrightarrow> (\<exists>y. x = Some y \<and> P y)"
  by (cases x) auto

lemma distinct_slots:
  assumes "\<And>i. bit (lbitmap l) i \<Longrightarrow> \<exists>kv. lkvs l ! i = Some kv"
  shows "distinct (map fst (leaf_kvs l)) \<longleftrightarrow>
     (\<forall>i j k v w. bit (lbitmap l) i \<longrightarrow> bit (lbitmap l) j \<longrightarrow>
        lkvs l ! i = Some (k, v) \<longrightarrow> lkvs l ! j = Some (k, w) \<longrightarrow> i = j)" (is "?L \<longleftrightarrow> ?R")
proof -
  have "?L \<longleftrightarrow> inj_on (\<lambda>i. fst (the (lkvs l ! i))) {i. bit (lbitmap l) i}"
    by (simp add: leaf_kvs_def distinct_map comp_def)
  also have "\<dots> \<longleftrightarrow> ?R"
  proof
    assume ?R
    show "inj_on (\<lambda>i. fst (the (lkvs l ! i))) {i. bit (lbitmap l) i}"
    proof (rule inj_onI, clarify)
      fix i j assume ij: "bit (lbitmap l) i" "bit (lbitmap l) j"
        and e: "fst (the (lkvs l ! i)) = fst (the (lkvs l ! j))"
      obtain k v k' w where "lkvs l ! i = Some (k, v)" "lkvs l ! j = Some (k', w)"
        using assms ij by fastforce
      with \<open>?R\<close> ij e show "i = j" by auto
    qed
  next
    assume "inj_on (\<lambda>i. fst (the (lkvs l ! i))) {i. bit (lbitmap l) i}"
    then show ?R unfolding inj_on_def by (metis (mono_tags, lifting) fst_conv mem_Collect_eq option.sel)
  qed
  finally show ?thesis .
qed

lemma leaf_inv_iff: "leaf_inv h l \<longleftrightarrow> slots_ok h l \<and> ctl_is_leaf (lcontrol l) \<and> order_ok l"
proof -
  have all: "list_all (\<lambda>i. case lkvs l ! i of None \<Rightarrow> False | Some kv \<Rightarrow> ltags l ! i = h (fst kv))
       (mask_bits (lbitmap l)) \<longleftrightarrow>
     (\<forall>i. bit (lbitmap l) i \<longrightarrow> (\<exists>kv. lkvs l ! i = Some kv \<and> ltags l ! i = h (fst kv)))" (is "?L \<longleftrightarrow> ?R")
    unfolding list_all_iff case_option_ex by simp
  have "?R \<Longrightarrow> distinct (map fst (leaf_kvs l)) \<longleftrightarrow>
     (\<forall>i j k v w. bit (lbitmap l) i \<longrightarrow> bit (lbitmap l) j \<longrightarrow>
        lkvs l ! i = Some (k, v) \<longrightarrow> lkvs l ! j = Some (k, w) \<longrightarrow> i = j)"
    by (rule distinct_slots) blast
  then show ?thesis
    unfolding leaf_inv_def slots_ok_def order_ok_def kLeafSize_def all by blast
qed

lemma slots_some: "slots_ok h l \<Longrightarrow> bit (lbitmap l) i \<Longrightarrow> \<exists>k v. lkvs l ! i = Some (k, v) \<and> ltags l ! i = h k"
  unfolding slots_ok_def by (metis prod.collapse)

lemma slots_inj: "slots_ok h l \<Longrightarrow> slot_has l i k v \<Longrightarrow> slot_has l j k w \<Longrightarrow> i = j"
  unfolding slots_ok_def slot_has_def by blast

lemma slots_len: "slots_ok h l \<Longrightarrow> length (ltags l) = 64" "slots_ok h l \<Longrightarrow> length (lkvs l) = 64"
  by (simp_all add: slots_ok_def)

lemma slots_okI:
  assumes "length (ltags l) = 64" "length (lkvs l) = 64"
    and "\<And>i. bit (lbitmap l) i \<Longrightarrow> \<exists>k v. lkvs l ! i = Some (k, v) \<and> ltags l ! i = h k"
    and "\<And>i j k v w. slot_has l i k v \<Longrightarrow> slot_has l j k w \<Longrightarrow> i = j"
  shows "slots_ok h l"
proof -
  have "\<exists>kv. lkvs l ! i = Some kv \<and> ltags l ! i = h (fst kv)" if "bit (lbitmap l) i" for i
    using assms(3)[OF that] by force
  with assms show ?thesis unfolding slots_ok_def slot_has_def by blast
qed

lemma slots_distinct: "slots_ok h l \<Longrightarrow> distinct (map fst (leaf_kvs l))"
  using distinct_slots[of l] unfolding slots_ok_def by blast

lemma set_leaf_kvs: "slots_ok h l \<Longrightarrow> (k, v) \<in> set (leaf_kvs l) \<longleftrightarrow> (\<exists>i. slot_has l i k v)"
proof -
  assume ok: "slots_ok h l"
  have "(k, v) = the (lkvs l ! i) \<longleftrightarrow> lkvs l ! i = Some (k, v)" if "bit (lbitmap l) i" for i
    using slots_some[OF ok that] by auto
  then show ?thesis by (auto simp: leaf_kvs_def slot_has_def image_iff)
qed

lemma leaf_map_iff: "slots_ok h l \<Longrightarrow> leaf_map l k = Some v \<longleftrightarrow> (\<exists>i. slot_has l i k v)"
  by (simp add: leaf_map_def slots_distinct set_leaf_kvs)

lemma leaf_map_None: "slots_ok h l \<Longrightarrow> leaf_map l k = None \<longleftrightarrow> (\<forall>i v. \<not> slot_has l i k v)"
  using leaf_map_iff[of h l k] not_None_eq[of "leaf_map l k"] by blast

lemma leaf_map_eqI:
  assumes "slots_ok h l" "\<And>k v. (\<exists>i. slot_has l i k v) \<longleftrightarrow> m k = Some v"
  shows "leaf_map l = m"
proof
  fix k
  show "leaf_map l k = m k"
    using assms(2)[of k] leaf_map_iff[OF assms(1), of k] by (metis option.exhaust)
qed

lemma finite_leaf_map [simp]: "finite (dom (leaf_map l))"
  by (simp add: leaf_map_def finite_dom_map_of)

lemma dom_leaf_map: "slots_ok h l \<Longrightarrow> card (dom (leaf_map l)) = popcount (lbitmap l)"
  by (simp add: leaf_map_def dom_map_of_conv_image_fst slots_distinct distinct_card
      flip: set_map) (simp add: leaf_kvs_def popcount_mask_bits)

section \<open>The candidate search\<close>

text \<open>
  All operations search their key with the same loop: over the slots whose tag matches,
  the first whose key is equal. The tags only filter: the result is the slot with the key.
\<close>

definition leaf_find :: "('k, 'v) leaf \<Rightarrow> 'k \<Rightarrow> nat option" where
  "leaf_find l k = find (\<lambda>i. fst (the (lkvs l ! i)) = k) (mask_bits (lbitmap l))"

lemma mask_bits_filter: "mask_bits (m AND n :: u64) = filter (bit n) (mask_bits m)"
  by (rule strict_sorted_set_unique) (auto simp: bit_simps sorted_wrt_filter)

lemma leaf_candidates_bits:
  "length (ltags l) = 64 \<Longrightarrow>
   mask_bits (leaf_candidates h l k) = filter (\<lambda>i. ltags l ! i = h k) (mask_bits (lbitmap l))"
  unfolding leaf_candidates_def mask_bits_filter leaf_compare_equal_def compare_equal_64_char
  by (rule filter_cong) (auto simp: bit_test_mask dest: bit64)

lemma list_loop_tagged:
  assumes "\<And>i. i \<in> set is \<Longrightarrow> \<exists>x v. kvs ! i = Some (x, v) \<and> tags ! i = h x" "\<And>kv. P kv \<longleftrightarrow> fst kv = k"
  shows "list_loop (\<lambda>i u. case kvs ! i of None \<Rightarrow> N u | Some kv \<Rightarrow> if P kv then Inl (g i kv) else Inr u)
      (filter (\<lambda>i. tags ! i = h k) is) () =
    (case find (\<lambda>i. fst (the (kvs ! i)) = k) is of None \<Rightarrow> Inr () | Some i \<Rightarrow> Inl (g i (the (kvs ! i))))"
  using assms(1)
proof (induction "is")
  case (Cons i "is")
  obtain x v where "kvs ! i = Some (x, v)" "tags ! i = h x" using Cons.prems[of i] by auto
  with Cons show ?case by (auto simp: assms(2))
qed simp

lemma leaf_search:
  assumes "slots_ok h l" "\<And>kv. P kv \<longleftrightarrow> fst kv = k"
  shows "mask_loop (\<lambda>i u. case lkvs l ! i of None \<Rightarrow> N u | Some kv \<Rightarrow> if P kv then Inl (g i kv) else Inr u)
      (leaf_candidates h l k) () =
    (case leaf_find l k of None \<Rightarrow> Inr () | Some i \<Rightarrow> Inl (g i (the (lkvs l ! i))))"
proof -
  have len: "length (ltags l) = 64" using assms(1) by (simp add: slots_ok_def)
  show ?thesis
    unfolding mask_loop_list leaf_candidates_bits[OF len] leaf_find_def
    using slots_some[OF assms(1)] assms(2)
    by (intro list_loop_tagged) auto
qed

lemma find_Some_in: "find P xs = Some x \<Longrightarrow> P x \<and> x \<in> set xs"
  by (induction xs) (auto split: if_splits)

lemma leaf_find_Some:
  assumes "slots_ok h l" "leaf_find l k = Some i"
  shows "\<exists>v. slot_has l i k v \<and> leaf_map l k = Some v"
proof -
  have "bit (lbitmap l) i" "fst (the (lkvs l ! i)) = k"
    using find_Some_in[OF assms(2)[unfolded leaf_find_def]] by auto
  then obtain v where "slot_has l i k v"
    using slots_some[OF assms(1), of i] by (fastforce simp: slot_has_def)
  then show ?thesis using leaf_map_iff[OF assms(1)] by blast
qed

lemma leaf_find_None:
  assumes "slots_ok h l" "leaf_find l k = None"
  shows "leaf_map l k = None" "\<not> slot_has l i k v"
proof -
  show "\<not> slot_has l i k v" for i v
    using assms(2) by (auto simp: leaf_find_def find_None_iff slot_has_def)
  then show "leaf_map l k = None" using leaf_map_None[OF assms(1)] by blast
qed

lemma leaf_lookup_spec: "slots_ok h l \<Longrightarrow> leaf_lookup h l k = map_option (Pair k) (leaf_map l k)"
  unfolding leaf_lookup_def
  by (cases "leaf_find l k"; subst leaf_search[where k = k])
     (auto dest: leaf_find_Some leaf_find_None(1) simp: slot_has_def)

text \<open>Writing a pair with the same key into its slot changes the value of the key.\<close>

lemma slots_ok_replace:
  fixes l :: "('k, 'v) leaf" and w :: 'v
  assumes ok: "slots_ok h l" and i: "slot_has l i k v"
  defines "l' \<equiv> l\<lparr>lkvs := (lkvs l)[i := Some (k, w)]\<rparr>"
  shows "slots_ok h l'" "leaf_map l' = (leaf_map l)(k \<mapsto> w)" "map fst (leaf_kvs l') = map fst (leaf_kvs l)"
proof -
  have i64: "i < length (lkvs l)" using ok i bit64 by (auto simp: slots_ok_def slot_has_def)
  have has: "slot_has l' j x y \<longleftrightarrow> (if j = i then x = k \<and> y = w else slot_has l j x y)" for j x y
    using i i64 by (auto simp: l'_def slot_has_def)
  have tags: "ltags l ! j = h x" if "slot_has l j x y" for j x y
    using slots_some[OF ok, of j] that by (auto simp: slot_has_def)
  have some: "\<exists>kv. lkvs l' ! j = Some kv \<and> ltags l' ! j = h (fst kv)" if "bit (lbitmap l') j" for j
    using that slots_some[OF ok, of j] tags[OF i] i64 by (auto simp: l'_def nth_list_update)
  have inj: "a = b" if "slot_has l' a x y" "slot_has l' b x z" for a b x y z
    using that slots_inj[OF ok] i unfolding has by (metis)
  show ok': "slots_ok h l'"
    using ok some inj by (auto simp: slots_ok_def l'_def slot_has_def)
  show "leaf_map l' = (leaf_map l)(k \<mapsto> w)"
  proof (rule leaf_map_eqI[OF ok'])
    fix x y
    show "(\<exists>j. slot_has l' j x y) \<longleftrightarrow> ((leaf_map l)(k \<mapsto> w)) x = Some y"
    proof (cases "x = k")
      case True
      then show ?thesis using slots_inj[OF ok i] unfolding has by auto
    next
      case False
      then have "slot_has l j x y \<Longrightarrow> j \<noteq> i" for j using i by (auto simp: slot_has_def)
      with False show ?thesis unfolding has using leaf_map_iff[OF ok, of x y] by auto
    qed
  qed
  show "map fst (leaf_kvs l') = map fst (leaf_kvs l)"
    using i i64 by (auto simp: leaf_kvs_def l'_def nth_list_update slot_has_def)
qed

section \<open>Update and insertion into a free slot\<close>

lemma leaf_update_find:
  assumes "slots_ok h l"
  shows "leaf_update h (k, v) l =
    (case leaf_find l k of None \<Rightarrow> (None, l)
     | Some i \<Rightarrow> (Some (the (lkvs l ! i)), l\<lparr>lkvs := (lkvs l)[i := Some (k, v)]\<rparr>))"
  unfolding leaf_update_def fst_conv
  by (subst leaf_search[OF assms, where k = k]) (auto split: option.splits)

lemma leaf_update_spec:
  assumes "leaf_inv h l" "leaf_update h (k, v) l = (old, l')"
  shows "leaf_inv h l'" "old = map_option (Pair k) (leaf_map l k)"
    "leaf_map l' = (if k \<in> dom (leaf_map l) then (leaf_map l)(k \<mapsto> v) else leaf_map l)"
    "lbitmap l' = lbitmap l" "lcontrol l' = lcontrol l" "lhigh l' = lhigh l" "lsibling l' = lsibling l"
proof -
  have ok: "slots_ok h l" using assms(1) by (simp add: leaf_inv_iff)
  note eq = assms(2)[unfolded leaf_update_find[OF ok]]
  have "leaf_inv h l' \<and> old = map_option (Pair k) (leaf_map l k) \<and>
    leaf_map l' = (if k \<in> dom (leaf_map l) then (leaf_map l)(k \<mapsto> v) else leaf_map l) \<and>
    lbitmap l' = lbitmap l \<and> lcontrol l' = lcontrol l \<and> lhigh l' = lhigh l \<and> lsibling l' = lsibling l"
  proof (cases "leaf_find l k")
    case None
    then show ?thesis using eq leaf_find_None(1)[OF ok None] assms(1) by auto
  next
    case (Some i)
    then obtain w where w: "slot_has l i k w" "leaf_map l k = Some w" using leaf_find_Some[OF ok] by blast
    note r = slots_ok_replace[OF ok w(1), of v]
    have l': "l' = l\<lparr>lkvs := (lkvs l)[i := Some (k, v)]\<rparr>" and old: "old = Some (k, w)"
      using eq Some w by (auto simp: slot_has_def)
    have "leaf_inv h l'"
      using assms(1) r(1,3) unfolding leaf_inv_iff l' by (simp add: order_ok_def)
    with r(2) w old show ?thesis by (auto simp: l')
  qed
  then show "leaf_inv h l'" "old = map_option (Pair k) (leaf_map l k)"
    "leaf_map l' = (if k \<in> dom (leaf_map l) then (leaf_map l)(k \<mapsto> v) else leaf_map l)"
    "lbitmap l' = lbitmap l" "lcontrol l' = lcontrol l" "lhigh l' = lhigh l" "lsibling l' = lsibling l"
    by blast+
qed

lemma bit_set_slot:
  "i < 64 \<Longrightarrow> bit (m OR push_bit i 1 :: u64) j \<longleftrightarrow> bit m j \<or> j = i"
  "i < 64 \<Longrightarrow> bit (m OR 2 ^ i :: u64) j \<longleftrightarrow> bit m j \<or> j = i"
  using bit_or_single[of m i j] by (auto simp: push_bit_eq_mult)

lemma slots_ok_insert:
  fixes l :: "('k, 'v) leaf" and v :: 'v
  assumes ok: "slots_ok h l" and i: "i < 64" "\<not> bit (lbitmap l) i" and k: "leaf_map l k = None"
  defines "l' \<equiv> leaf_insert_slot i (k, v) (h k) l"
  shows "slots_ok h l'" "leaf_map l' = (leaf_map l)(k \<mapsto> v)"
proof -
  have len: "length (lkvs l) = 64" "length (ltags l) = 64" using ok by (auto simp: slots_ok_def)
  have has: "slot_has l' j x y \<longleftrightarrow> (if j = i then x = k \<and> y = v else slot_has l j x y)" for j x y
    using i len by (auto simp: l'_def slot_has_def leaf_insert_slot_def bit_set_slot)
  have some: "\<exists>kv. lkvs l' ! j = Some kv \<and> ltags l' ! j = h (fst kv)" if "bit (lbitmap l') j" for j
  proof (cases "j = i")
    case True
    then show ?thesis using i len by (simp add: l'_def leaf_insert_slot_def)
  next
    case False
    then show ?thesis using that slots_some[OF ok, of j] i
      by (auto simp: l'_def leaf_insert_slot_def bit_set_slot)
  qed
  have nk: "\<not> slot_has l j k y" for j y using k leaf_map_None[OF ok] by blast
  have inj: "a = b" if "slot_has l' a x y" "slot_has l' b x z" for a b x y z
    using that slots_inj[OF ok] nk unfolding has by (metis)
  have inj': "\<forall>a b x y z. bit (lbitmap l') a \<longrightarrow> bit (lbitmap l') b \<longrightarrow>
      lkvs l' ! a = Some (x, y) \<longrightarrow> lkvs l' ! b = Some (x, z) \<longrightarrow> a = b"
    using inj unfolding slot_has_def by blast
  have "length (ltags l') = 64" "length (lkvs l') = 64" using len by (auto simp: l'_def leaf_insert_slot_def)
  with some inj' show ok': "slots_ok h l'" unfolding slots_ok_def by blast
  show "leaf_map l' = (leaf_map l)(k \<mapsto> v)"
  proof (rule leaf_map_eqI[OF ok'])
    fix x y
    have "slot_has l j x y \<Longrightarrow> j \<noteq> i" for j using i by (auto simp: slot_has_def)
    then show "(\<exists>j. slot_has l' j x y) \<longleftrightarrow> ((leaf_map l)(k \<mapsto> v)) x = Some y"
      unfolding has using leaf_map_iff[OF ok, of x y] nk by auto
  qed
qed

section \<open>Splitting a full leaf\<close>

definition split_keys :: "('k::linorder, 'v) leaf \<Rightarrow> ('k \<times> nat) list" where
  "split_keys l = sort_key fst (map (\<lambda>i. (fst (the (lkvs l ! i)), i)) [0..<kLeafSize])"

definition leaf_full :: "('k, 'v) leaf \<Rightarrow> bool" where
  "leaf_full l \<longleftrightarrow> (\<forall>i < 64. bit (lbitmap l) i)"

lemma leaf_full_iff: "index_least0 (lbitmap l) = full_idx \<longleftrightarrow> leaf_full l"
  using index_least0_full[of "lbitmap l"] by (simp add: full_idx_def leaf_full_def)

lemma full_slot:
  assumes "slots_ok h l" "leaf_full l" "i < 64"
  obtains v where "slot_has l i (fst (the (lkvs l ! i))) v"
  using slots_some[OF assms(1), of i] assms(2,3) by (fastforce simp: slot_has_def leaf_full_def)

lemma split_keys_facts:
  assumes "slots_ok h l" "leaf_full l"
  shows "length (split_keys l) = 64" "set (split_keys l) = (\<lambda>i. (fst (the (lkvs l ! i)), i)) ` {0..<64}"
    "sorted_wrt (<) (map fst (split_keys l))" "distinct (map snd (split_keys l))"
proof -
  let ?f = "\<lambda>i. (fst (the (lkvs l ! i)), i)"
  have n: "kLeafSize = 64" by (simp add: kLeafSize_def)
  show "length (split_keys l) = 64" by (simp add: split_keys_def n)
  have "set (split_keys l) = ?f ` {0..<kLeafSize}" by (simp add: split_keys_def)
  then show "set (split_keys l) = ?f ` {0..<64}" by (simp only: n)
  have "mset (map snd (split_keys l)) = mset [0..<kLeafSize]"
    by (simp add: split_keys_def image_mset.compositionality comp_def)
  then show "distinct (map snd (split_keys l))"
    by (rule iffD2[OF mset_eq_imp_distinct_iff distinct_upt])
  have "inj_on (\<lambda>i. fst (the (lkvs l ! i))) {0..<kLeafSize}"
  proof (rule inj_onI)
    fix i j assume "i \<in> {0..<kLeafSize}" "j \<in> {0..<kLeafSize}"
      and e: "fst (the (lkvs l ! i)) = fst (the (lkvs l ! j))"
    then obtain v w where "slot_has l i (fst (the (lkvs l ! i))) v" "slot_has l j (fst (the (lkvs l ! j))) w"
      using full_slot[OF assms] n by (metis atLeastLessThan_iff)
    with e slots_inj[OF assms(1)] show "i = j" by metis
  qed
  then have d: "distinct (map fst (map ?f [0..<kLeafSize]))" by (simp add: distinct_map comp_def)
  have "mset (map fst (split_keys l)) = mset (map fst (map ?f [0..<kLeafSize]))"
    by (simp add: split_keys_def image_mset.compositionality)
  then have "distinct (map fst (split_keys l))" by (rule iffD2[OF mset_eq_imp_distinct_iff d])
  moreover have "sorted (map fst (split_keys l))" by (simp add: split_keys_def)
  ultimately show "sorted_wrt (<) (map fst (split_keys l))" by (simp add: strict_sorted_iff)
qed

lemma split_keys_slot:
  assumes "slots_ok h l" "leaf_full l" "i < 64"
  obtains p where "p < 64" "split_keys l ! p = (fst (the (lkvs l ! i)), i)"
proof -
  have "(fst (the (lkvs l ! i)), i) \<in> set (split_keys l)"
    using split_keys_facts(2)[OF assms(1,2)] assms(3) by auto
  then show thesis using that split_keys_facts(1)[OF assms(1,2)] by (metis in_set_conv_nth)
qed

lemma split_keys_less:
  assumes "slots_ok h l" "leaf_full l" "p < 64" "q < 64"
  shows "fst (split_keys l ! p) < fst (split_keys l ! q) \<longleftrightarrow> p < q"
proof -
  note f = split_keys_facts[OF assms(1,2)]
  have less: "fst (split_keys l ! a) < fst (split_keys l ! b)" if "a < b" "b < 64" for a b
    using sorted_wrt_nth_less[OF f(3), of a b] that f(1) by simp
  show ?thesis using less[of p q] less[of q p] assms(3,4) by (metis less_asym less_irrefl linorder_neqE_nat)
qed

text \<open>The slots that move are those with a key above the median.\<close>

lemma split_moved:
  assumes "slots_ok h l" "leaf_full l" "i < 64"
  shows "i \<in> set (map snd (drop 32 (split_keys l))) \<longleftrightarrow>
    fst (split_keys l ! 31) < fst (the (lkvs l ! i))"
proof -
  note f = split_keys_facts[OF assms(1,2)]
  obtain p where p: "p < 64" "split_keys l ! p = (fst (the (lkvs l ! i)), i)"
    using split_keys_slot[OF assms] .
  have "i \<in> set (map snd (drop 32 (split_keys l))) \<longleftrightarrow> 32 \<le> p"
  proof
    assume "i \<in> set (map snd (drop 32 (split_keys l)))"
    then obtain q where q: "q < 32" "i = map snd (split_keys l) ! (32 + q)"
      using f(1) by (auto simp: in_set_conv_nth)
    then have "32 + q = p"
      using nth_eq_iff_index_eq[OF f(4), of "32 + q" p] f(1) p by simp
    then show "32 \<le> p" by simp
  next
    assume "32 \<le> p"
    then have "map snd (drop 32 (split_keys l)) ! (p - 32) = i" "p - 32 < length (drop 32 (split_keys l))"
      using p f(1) by auto
    then show "i \<in> set (map snd (drop 32 (split_keys l)))" by (metis length_map nth_mem)
  qed
  also have "\<dots> \<longleftrightarrow> fst (split_keys l ! 31) < fst (split_keys l ! p)"
    using split_keys_less[OF assms(1,2), of 31 p] p by auto
  finally show ?thesis using p by simp
qed

text \<open>The loop that moves the upper half, slot by slot; no other field changes.\<close>

definition same_meta :: "('k, 'v) leaf \<Rightarrow> ('k, 'v) leaf \<Rightarrow> bool" where
  "same_meta l' l \<longleftrightarrow> lbitmap l' = lbitmap l \<and> lcontrol l' = lcontrol l \<and> lhigh l' = lhigh l \<and>
     lsibling l' = lsibling l"

lemma fold_leaf_move:
  assumes "fold leaf_move (enumerate n lids) (l, r, m) = (l', r', m')"
    and "distinct lids" "\<And>i. i \<in> set lids \<Longrightarrow> i < 64" "length (lkvs l) = 64"
    and "length (lkvs r) = 64" "length (ltags r) = 64" "n + length lids \<le> 64"
  shows "same_meta l' l \<and> same_meta r' r \<and> ltags l' = ltags l \<and>
    length (lkvs l') = 64 \<and> length (lkvs r') = 64 \<and> length (ltags r') = 64 \<and>
    (\<forall>j < 64. lkvs l' ! j = (if j \<in> set lids then None else lkvs l ! j)) \<and>
    (\<forall>j < n. ltags r' ! j = ltags r ! j \<and> lkvs r' ! j = lkvs r ! j) \<and>
    (\<forall>j < length lids. ltags r' ! (n + j) = ltags l ! (lids ! j) \<and> lkvs r' ! (n + j) = lkvs l ! (lids ! j)) \<and>
    (\<forall>j. bit m' j \<longleftrightarrow> bit m j \<or> j \<in> set lids)"
  using assms
proof (induction lids arbitrary: n l r m)
  case Nil
  then show ?case by (auto simp: same_meta_def)
next
  case (Cons i lids)
  let ?l = "l\<lparr>lkvs := (lkvs l)[i := None]\<rparr>"
  let ?r = "r\<lparr>ltags := (ltags r)[n := ltags l ! i], lkvs := (lkvs r)[n := lkvs l ! i]\<rparr>"
  have i: "i < 64" "i \<notin> set lids" using Cons.prems by auto
  have f: "fold leaf_move (enumerate (Suc n) lids) (?l, ?r, m OR push_bit i 1) = (l', r', m')"
    using Cons.prems(1) by (simp add: leaf_move_def)
  have ih: "same_meta l' ?l" "same_meta r' ?r" "ltags l' = ltags l"
    "length (lkvs l') = 64" "length (lkvs r') = 64" "length (ltags r') = 64"
    "\<And>j. j < 64 \<Longrightarrow> lkvs l' ! j = (if j \<in> set lids then None else lkvs ?l ! j)"
    "\<And>j. j < Suc n \<Longrightarrow> ltags r' ! j = ltags ?r ! j \<and> lkvs r' ! j = lkvs ?r ! j"
    "\<And>j. j < length lids \<Longrightarrow>
       ltags r' ! (Suc n + j) = ltags ?l ! (lids ! j) \<and> lkvs r' ! (Suc n + j) = lkvs ?l ! (lids ! j)"
    "\<And>j. bit m' j \<longleftrightarrow> bit (m OR push_bit i 1) j \<or> j \<in> set lids"
    using Cons.IH[OF f] Cons.prems(2-7) by auto
  have "lkvs ?l ! (lids ! j) = lkvs l ! (lids ! j)" if "j < length lids" for j
  proof -
    have "lids ! j \<noteq> i" using i(2) that nth_mem by metis
    then show ?thesis by simp
  qed
  then have a: "ltags r' ! (n + j) = ltags l ! ((i # lids) ! j) \<and> lkvs r' ! (n + j) = lkvs l ! ((i # lids) ! j)"
    if "j < Suc (length lids)" for j
    using ih(8)[of n] ih(9)[of "j - 1"] that Cons.prems(5-7) by (cases j) auto
  have b: "lkvs l' ! j = (if j \<in> set (i # lids) then None else lkvs l ! j)" if "j < 64" for j
    using ih(7)[OF that] Cons.prems(4) that by (auto simp: nth_list_update)
  have c: "ltags r' ! j = ltags r ! j \<and> lkvs r' ! j = lkvs r ! j" if "j < n" for j
    using ih(8)[of j] that by simp
  have d: "bit m' j \<longleftrightarrow> bit m j \<or> j \<in> set (i # lids)" for j
    using ih(10) bit_set_slot(1)[OF i(1)] by auto
  have meta: "same_meta l' l" "same_meta r' r" using ih(1,2) by (simp_all add: same_meta_def)
  show ?case
    unfolding length_Cons by (intro conjI allI impI meta ih(3-6) a b c d)
qed

text \<open>The memory that \<open>malloc\<close> hands out has room for the arrays of a leaf.\<close>

definition leaf_sized :: "('k, 'v) leaf \<Rightarrow> bool" where
  "leaf_sized l \<longleftrightarrow> length (ltags l) = kLeafSize \<and> length (lkvs l) = kLeafSize"

lemma slots_ok_cong:
  "slots_ok h l \<Longrightarrow> lbitmap l' = lbitmap l \<Longrightarrow> ltags l' = ltags l \<Longrightarrow> lkvs l' = lkvs l \<Longrightarrow> slots_ok h l'"
  by (simp add: slots_ok_def)

lemma leaf_map_cong: "lbitmap l' = lbitmap l \<Longrightarrow> lkvs l' = lkvs l \<Longrightarrow> leaf_map l' = leaf_map l"
  by (simp add: leaf_map_def leaf_kvs_def)

lemma leaf_new_facts:
  assumes "leaf_sized raw"
  shows "slots_ok h (leaf_new raw)" "leaf_map (leaf_new raw) = Map.empty"
  using assms by (auto simp: slots_ok_def leaf_new_def leaf_sized_def kLeafSize_def leaf_map_def leaf_kvs_def)

lemma bit_half_fill: "bit half_fill i \<longleftrightarrow> i < 32"
proof -
  have "half_fill = mask 32" by (simp add: half_fill_def mask_eq_exp_minus_1)
  then have "bit half_fill i \<longleftrightarrow> bit (mask 32 :: u64) i" by simp
  then show ?thesis by (auto simp: bit_mask_iff)
qed

lemma option_eqI: "(\<And>v. a = Some v \<longleftrightarrow> b = Some v) \<Longrightarrow> a = b"
  by (cases a; cases b) blast+

lemma restrict_eqI: "(\<And>k v. m k = Some v \<longleftrightarrow> n k = Some v \<and> k \<in> A) \<Longrightarrow> m = n |` A"
  by (rule ext, rule option_eqI) (simp add: restrict_map_def)

text \<open>The normal split: the median and the keys below it stay, the others move.\<close>

lemma split_halves:
  assumes ok: "slots_ok h l" and full: "leaf_full l" and raw: "leaf_sized r0" "lbitmap r0 = 0"
    and f: "fold leaf_move (enumerate 0 (map snd (drop 32 (split_keys l)))) (l, r0, 0) = (l1, r1, m)"
    and l': "lbitmap l' = lbitmap l1 AND NOT m" "ltags l' = ltags l1" "lkvs l' = lkvs l1"
    and r': "lbitmap r' = half_fill" "ltags r' = ltags r1" "lkvs r' = lkvs r1"
  defines "hi \<equiv> fst (split_keys l ! 31)"
  shows "slots_ok h l'" "slots_ok h r'"
    "leaf_map l' = leaf_map l |` {..hi}" "leaf_map r' = leaf_map l |` {hi<..}"
    "bit (lbitmap l') i \<longleftrightarrow> i < 64 \<and> i \<notin> set (map snd (drop 32 (split_keys l)))"
proof -
  let ?lids = "map snd (drop 32 (split_keys l))"
  note k = split_keys_facts[OF ok full]
  have len: "length ?lids = 32" using k(1) by simp
  have "set (map snd (split_keys l)) = {0..<64}" by (simp only: set_map k(2) image_image snd_conv image_ident)
  then have lt: "i < 64" if "i \<in> set ?lids" for i
    using that by (metis atLeastLessThan_iff in_set_dropD drop_map)
  have d: "distinct ?lids" using k(4) by (metis distinct_drop drop_map)
  have raw': "length (lkvs r0) = 64" "length (ltags r0) = 64"
    using raw by (auto simp: leaf_sized_def kLeafSize_def)
  have lkl: "length (lkvs l) = 64" using ok by (simp add: slots_ok_def)
  note m = fold_leaf_move[OF f d lt lkl raw']
  have l1: "lbitmap l1 = lbitmap l" "ltags l1 = ltags l" "length (lkvs l1) = 64"
    "\<And>j. j < 64 \<Longrightarrow> lkvs l1 ! j = (if j \<in> set ?lids then None else lkvs l ! j)"
    and r1: "length (lkvs r1) = 64" "length (ltags r1) = 64"
    "\<And>j. j < 32 \<Longrightarrow> ltags r1 ! j = ltags l ! (?lids ! j) \<and> lkvs r1 ! j = lkvs l ! (?lids ! j)"
    and m': "\<And>j. bit m j \<longleftrightarrow> j \<in> set ?lids"
    using m len by (auto simp: same_meta_def)
  have bits: "bit (lbitmap l') j \<longleftrightarrow> j < 64 \<and> j \<notin> set ?lids" for j
    using full bit64[of "lbitmap l" j] unfolding l' leaf_full_def
    by (auto simp: bit_and_iff bit_not_iff l1 m')
  then show "bit (lbitmap l') i \<longleftrightarrow> i < 64 \<and> i \<notin> set ?lids" .
  have lhas: "slot_has l' j x y \<longleftrightarrow> slot_has l j x y \<and> j \<notin> set ?lids" for j x y
    using bits[of j] l1(4)[of j] full bit64[of "lbitmap l" j] by (auto simp: slot_has_def l'(3) leaf_full_def)
  have rhas: "slot_has r' j x y \<longleftrightarrow> j < 32 \<and> slot_has l (?lids ! j) x y" for j x y
  proof -
    have "bit (lbitmap l) (?lids ! j)" if "j < 32"
      using lt[OF nth_mem[of j ?lids]] len that full by (simp add: leaf_full_def)
    then show ?thesis using r1(3)[of j] by (auto simp: slot_has_def r' bit_half_fill)
  qed
  have moved: "j \<in> set ?lids \<longleftrightarrow> hi < x" if "slot_has l j x y" for j x y
    using split_moved[OF ok full, of j] that bit64[of "lbitmap l" j] by (auto simp: hi_def slot_has_def)
  show ok': "slots_ok h l'"
  proof (rule slots_okI)
    fix j assume "bit (lbitmap l') j"
    then show "\<exists>k v. lkvs l' ! j = Some (k, v) \<and> ltags l' ! j = h k"
      using bits[of j] l1 l' slots_some[OF ok, of j] full by (auto simp: leaf_full_def)
  next
    fix a b x y z assume "slot_has l' a x y" "slot_has l' b x z"
    then show "a = b" using lhas slots_inj[OF ok] by blast
  qed (use ok l1 l' in \<open>auto simp: slots_ok_def\<close>)
  show rok: "slots_ok h r'"
  proof (rule slots_okI)
    fix j assume "bit (lbitmap r') j"
    then have "j < 32" by (simp add: r' bit_half_fill)
    then show "\<exists>k v. lkvs r' ! j = Some (k, v) \<and> ltags r' ! j = h k"
      using r1(3)[of j] slots_some[OF ok, of "?lids ! j"] lt[OF nth_mem[of j ?lids]] len full
      by (auto simp: r' leaf_full_def)
  next
    fix a b x y z assume ab: "slot_has r' a x y" "slot_has r' b x z"
    then have "?lids ! a = ?lids ! b" using rhas slots_inj[OF ok] by blast
    then show "a = b" using ab rhas nth_eq_iff_index_eq[OF d] len by metis
  qed (use r1 r' in auto)
  show "leaf_map l' = leaf_map l |` {..hi}"
  proof (intro restrict_eqI)
    fix x y
    have "(\<exists>j. slot_has l j x y \<and> j \<notin> set ?lids) \<longleftrightarrow> (\<exists>j. slot_has l j x y) \<and> \<not> hi < x"
      using moved by blast
    then show "leaf_map l' x = Some y \<longleftrightarrow> leaf_map l x = Some y \<and> x \<in> {..hi}"
      unfolding leaf_map_iff[OF ok'] leaf_map_iff[OF ok] lhas by (simp add: not_less)
  qed
  show "leaf_map r' = leaf_map l |` {hi<..}"
  proof (intro restrict_eqI)
    fix x y
    have "(\<exists>j. slot_has r' j x y) \<longleftrightarrow> (\<exists>j. slot_has l j x y \<and> j \<in> set ?lids)"
      unfolding rhas using len by (metis in_set_conv_nth nth_mem)
    also have "\<dots> \<longleftrightarrow> (\<exists>j. slot_has l j x y) \<and> hi < x" using moved by blast
    finally show "leaf_map r' x = Some y \<longleftrightarrow> leaf_map l x = Some y \<and> x \<in> {hi<..}"
      unfolding leaf_map_iff[OF rok] leaf_map_iff[OF ok] by simp
  qed
qed

lemma full_no_null: "slots_ok h l \<Longrightarrow> leaf_full l \<Longrightarrow> None \<notin> set (take kLeafSize (lkvs l))"
  using slots_some[of h l]
  by (auto simp: in_set_conv_nth slots_ok_def leaf_full_def kLeafSize_def)

lemma split_last:
  assumes "slots_ok h l" "leaf_full l" "leaf_map l x = Some y"
  shows "x \<le> fst (last (split_keys l))"
proof -
  note f = split_keys_facts[OF assms(1,2)]
  obtain i where i: "slot_has l i x y" using leaf_map_iff[OF assms(1)] assms(3) by blast
  then have "i < 64" using bit64 by (auto simp: slot_has_def)
  then obtain p where p: "p < 64" "split_keys l ! p = (fst (the (lkvs l ! i)), i)"
    using split_keys_slot[OF assms(1,2)] by blast
  then have "x = fst (split_keys l ! p)" using i by (simp add: slot_has_def)
  moreover have "last (split_keys l) = split_keys l ! 63"
    using f(1) by (subst last_conv_nth) auto
  moreover have "p < 63 \<or> p = 63" using p by auto
  ultimately show ?thesis using split_keys_less[OF assms(1,2), of p 63] p by auto
qed

lemma split_key_mem:
  assumes "slots_ok h l" "leaf_full l" "p < 64"
  shows "fst (split_keys l ! p) \<in> dom (leaf_map l)"
proof -
  note f = split_keys_facts[OF assms(1,2)]
  have "split_keys l ! p \<in> set (split_keys l)" using f(1) assms(3) by simp
  then obtain i where "i < 64" "fst (split_keys l ! p) = fst (the (lkvs l ! i))" using f(2) by auto
  then show ?thesis using full_slot[OF assms(1,2)] leaf_map_iff[OF assms(1)] by (metis domI)
qed

text \<open>
  What a split leaves: the map is cut at the new high key, the new leaf takes the place of the
  old one in front of its former sibling, and there is a free slot on the side of the key.
\<close>

definition split_post ::
  "('k::linorder \<Rightarrow> byte) \<Rightarrow> addr \<Rightarrow> 'k \<Rightarrow> ('k, 'v) leaf \<Rightarrow> ('k, 'v) leaf \<Rightarrow> ('k, 'v) leaf \<Rightarrow> bool \<Rightarrow> nat \<Rightarrow> bool"
where
  "split_post h rp key l l' r right idx \<longleftrightarrow>
     slots_ok h l' \<and> slots_ok h r \<and>
     leaf_map l' = leaf_map l |` {..lhigh l'} \<and> leaf_map r = leaf_map l |` {lhigh l'<..} \<and>
     lhigh l' \<in> dom (leaf_map l) \<and> (right \<longleftrightarrow> lhigh l' < key) \<and>
     idx < 64 \<and> \<not> bit (lbitmap (if right then r else l')) idx \<and>
     lsibling l' = Some rp \<and> (has_sibling (lcontrol l) \<longrightarrow> bit (lbitmap r) 0) \<and>
     lcontrol l' = (if has_sibling (lcontrol l) then lcontrol l else set_sibling (lcontrol l)) \<and>
     lcontrol r = (if has_sibling (lcontrol l) then set_sibling (control_new True) else control_new True) \<and>
     (has_sibling (lcontrol l) \<longrightarrow> lhigh r = lhigh l \<and> lsibling r = lsibling l)"

lemma leaf_split_spec:
  assumes ok: "slots_ok h l" and full: "leaf_full l" and raw: "leaf_sized raw"
    and key: "leaf_map l key = None"
  shows "\<exists>l' r right idx. leaf_split rp raw key l = Some (l', r, right, idx) \<and> split_post h rp key l l' r right idx"
proof (cases "\<not> has_sibling (lcontrol l) \<and> fst (last (split_keys l)) < key")
  case True
  let ?l = "l\<lparr>lsibling := Some rp, lhigh := fst (last (split_keys l)), lcontrol := set_sibling (lcontrol l)\<rparr>"
  have eq: "leaf_split rp raw key l = Some (?l, leaf_new raw, True, 0)"
    using True full_no_null[OF ok full] unfolding leaf_split_def Let_def split_keys_def by simp
  have "last (split_keys l) = split_keys l ! 63"
    using split_keys_facts(1)[OF ok full] by (subst last_conv_nth) auto
  then have "lhigh ?l \<in> dom (leaf_map l)" using split_key_mem[OF ok full, of 63] by simp
  moreover have m: "leaf_map ?l = leaf_map l" by (rule leaf_map_cong) simp_all
  moreover have "leaf_map ?l = leaf_map l |` {..lhigh ?l}"
    unfolding m using split_last[OF ok full] by (intro restrict_eqI) auto
  moreover have "leaf_map (leaf_new raw) = leaf_map l |` {lhigh ?l<..}"
    unfolding leaf_new_facts(2)[OF raw] using split_last[OF ok full]
    by (intro restrict_eqI) (auto simp: not_less[symmetric])
  moreover have "slots_ok h ?l" using ok by (rule slots_ok_cong) simp_all
  moreover have "slots_ok h (leaf_new raw)" using raw by (rule leaf_new_facts)
  moreover have "lbitmap (leaf_new raw) = 0" "lcontrol (leaf_new raw) = control_new True"
    by (simp_all add: leaf_new_def)
  ultimately show ?thesis using eq True unfolding split_post_def by simp
next
  case False
  let ?lids = "map snd (drop 32 (split_keys l))" and ?c = "lcontrol l"
  obtain l1 r1 m where f: "fold leaf_move (enumerate 0 ?lids) (l, leaf_new raw, 0) = (l1, r1, m)"
    using prod_cases3 by blast
  define l' where "l' = l1\<lparr>lbitmap := lbitmap l1 AND NOT m, lsibling := Some rp,
    lhigh := fst (split_keys l ! 31), lcontrol := if has_sibling ?c then ?c else set_sibling ?c\<rparr>"
  define r' where "r' = r1\<lparr>lbitmap := half_fill, lsibling := lsibling l, lhigh := lhigh l,
    lcontrol := if has_sibling ?c then set_sibling (control_new True) else control_new True\<rparr>"
  note k = split_keys_facts[OF ok full]
  have len: "length ?lids = 32" using k(1) by simp
  have "set (map snd (split_keys l)) = {0..<64}" by (simp only: set_map k(2) image_image snd_conv image_ident)
  then have lt: "i < 64" if "i \<in> set ?lids" for i
    using that by (metis atLeastLessThan_iff in_set_dropD drop_map)
  have d: "distinct ?lids" using k(4) by (metis distinct_drop drop_map)
  have szd: "leaf_sized (leaf_new raw)" "lbitmap (leaf_new raw) = 0" "lcontrol (leaf_new raw) = control_new True"
    using raw by (simp_all add: leaf_sized_def leaf_new_def)
  have "same_meta l1 l" "same_meta r1 (leaf_new raw)"
    using fold_leaf_move[OF f d lt] ok szd(1) len
    by (simp_all add: slots_ok_def leaf_sized_def kLeafSize_def)
  then have meta: "lcontrol l1 = ?c" "lsibling l1 = lsibling l" "lhigh l1 = lhigh l"
    "lcontrol r1 = control_new True" using szd by (simp_all add: same_meta_def)
  have eq: "leaf_split rp raw key l =
     Some (if lhigh l' < key then (l', r', True, 32) else (l', r', False, last ?lids))"
    using False full_no_null[OF ok full] f meta
    unfolding leaf_split_def Let_def split_keys_def[symmetric]
    by (simp add: l'_def r'_def kLeafSize_def)
  have h: "lhigh l' = fst (split_keys l ! 31)" by (simp add: l'_def)
  note halves = split_halves[OF ok full szd(1,2) f, of l' r', unfolded h[symmetric]]
  have "?lids \<noteq> []" using len by auto
  then have "last ?lids \<in> set ?lids" by (rule last_in_set)
  then have free: "last ?lids < 64" "\<not> bit (lbitmap l') (last ?lids)"
    using lt halves(5)[of "last ?lids"] by (auto simp: l'_def r'_def)
  have "lhigh l' \<in> dom (leaf_map l)" unfolding h by (rule split_key_mem[OF ok full]) simp
  then have "split_post h rp key l l' r' (lhigh l' < key) (if lhigh l' < key then 32 else last ?lids)"
    using halves(1-4) free by (simp add: split_post_def l'_def r'_def bit_half_fill)
  then show ?thesis unfolding eq by (cases "lhigh l' < key") auto
qed

section \<open>Upsert\<close>

text \<open>The control word after the version update that comes before an insertion.\<close>

definition unordered_ctl :: "u64 \<Rightarrow> u64" where
  "unordered_ctl c = (let c = update_version c in if ordered c then clear_order c else c)"

lemma unordered_ctl_bits: "n < 24 \<Longrightarrow> bit (unordered_ctl c) n \<longleftrightarrow> bit c n \<and> n \<noteq> 4"
  by (auto simp: unordered_ctl_def Let_def flag_bits ctl_bits bit_update_version)

lemma unordered_ctl_version: "version_of (unordered_ctl c) = Suc (version_of c) mod 2 ^ 40"
  by (simp add: unordered_ctl_def Let_def flag_bits ctl_bits version_of_update)

lemma control_new_bits: "bit (control_new lf) n \<longleftrightarrow> lf \<and> n = 3"
proof -
  have "bit (8 :: u64) n \<longleftrightarrow> n = 3"
    using bit_or_single[of 0 3 n] by (simp add: push_bit_eq_mult)
  then show ?thesis by (simp add: control_new_def kLeafBit_def)
qed

lemma leaf_upsert_find:
  assumes "slots_ok h l"
  shows "leaf_upsert h enc rp raw (k, v) l =
    (case leaf_find l k of
       Some i \<Rightarrow> Some (Some (the (lkvs l ! i)), None, l\<lparr>lkvs := (lkvs l)[i := Some (k, v)]\<rparr>)
     | None \<Rightarrow>
        let l = l\<lparr>lcontrol := unordered_ctl (lcontrol l)\<rparr>; idx = index_least0 (lbitmap l)
        in if idx \<noteq> full_idx then Some (None, None, leaf_insert_slot (nat idx) (k, v) (h k) l)
           else case leaf_split rp raw k l of
                  None \<Rightarrow> None
                | Some (l, r, right, idx) \<Rightarrow>
                    if right then Some (None, Some (leaf_insert_slot idx (k, v) (h k) r, enc (lhigh l)), l)
                    else Some (None, Some (r, enc (lhigh l)), leaf_insert_slot idx (k, v) (h k) l))"
  unfolding leaf_upsert_def fst_conv Let_def[of "h k"]
  by (subst leaf_search[OF assms, where k = k])
     (auto simp: Let_def unordered_ctl_def split: option.splits)

lemma leaf_upsert_present:
  assumes inv: "leaf_inv h l" and k: "leaf_map l k = Some w"
  shows "\<exists>l'. leaf_upsert h enc rp raw (k, v) l = Some (Some (k, w), None, l') \<and> leaf_inv h l' \<and>
    leaf_map l' = (leaf_map l)(k \<mapsto> v) \<and> same_meta l' l"
proof -
  have ok: "slots_ok h l" using inv by (simp add: leaf_inv_iff)
  obtain i where i: "leaf_find l k = Some i" using k leaf_find_None(1)[OF ok] by (cases "leaf_find l k") auto
  then have w: "slot_has l i k w" using leaf_find_Some[OF ok i] k by auto
  note r = slots_ok_replace[OF ok w, of v]
  have "leaf_inv h (l\<lparr>lkvs := (lkvs l)[i := Some (k, v)]\<rparr>)"
    using inv r(1,3) unfolding leaf_inv_iff by (simp add: order_ok_def)
  then show ?thesis using i w r(2) by (simp add: leaf_upsert_find[OF ok] slot_has_def same_meta_def)
qed

lemma leaf_upsert_free:
  assumes inv: "leaf_inv h l" and k: "leaf_map l k = None" and "\<not> leaf_full l"
  shows "\<exists>l'. leaf_upsert h enc rp raw (k, v) l = Some (None, None, l') \<and> leaf_inv h l' \<and>
    leaf_map l' = (leaf_map l)(k \<mapsto> v) \<and> lcontrol l' = unordered_ctl (lcontrol l) \<and>
    lhigh l' = lhigh l \<and> lsibling l' = lsibling l"
proof -
  have ok: "slots_ok h l" and lf: "bit (lcontrol l) 3" using inv by (simp_all add: leaf_inv_iff flag_bits)
  have f: "leaf_find l k = None" using k leaf_find_Some[OF ok] by (cases "leaf_find l k") fastforce+
  define i where "i = nat (index_least0 (lbitmap l))"
  have i: "index_least0 (lbitmap l) \<noteq> full_idx" using assms(3) leaf_full_iff by blast
  then have i64: "i < 64" "\<not> bit (lbitmap l) i"
    using index_least0_nat[of "lbitmap l"] by (auto simp: full_idx_def i_def)
  let ?l = "l\<lparr>lcontrol := unordered_ctl (lcontrol l)\<rparr>"
  have ok': "slots_ok h ?l" using ok by (rule slots_ok_cong) simp_all
  have m: "leaf_map ?l = leaf_map l" by (rule leaf_map_cong) simp_all
  note ins = slots_ok_insert[OF ok', of i k v]
  have "leaf_inv h (leaf_insert_slot i (k, v) (h k) ?l)"
    using ins(1) i64 k lf unordered_ctl_bits[of _ "lcontrol l"]
    by (simp add: leaf_inv_iff m order_ok_def flag_bits) (simp add: leaf_insert_slot_def)
  then show ?thesis
    using f i i64 k ins(2) by (simp add: leaf_upsert_find[OF ok] m i_def[symmetric]) (simp add: leaf_insert_slot_def)
qed

lemma leaf_insert_slot_fields [simp]:
  "lcontrol (leaf_insert_slot i kv t l) = lcontrol l" "lhigh (leaf_insert_slot i kv t l) = lhigh l"
  "lsibling (leaf_insert_slot i kv t l) = lsibling l"
  by (simp_all add: leaf_insert_slot_def)

lemma restrict_upd_in: "k \<in> A \<Longrightarrow> (m |` A)(k \<mapsto> v) = (m(k \<mapsto> v)) |` A"
  by (auto simp: restrict_map_def)

text \<open>
  An insertion into a full leaf: the resulting map is cut at the new high key of the left leaf,
  whose encoding is the separator that goes to the parent.
\<close>

lemma leaf_upsert_split:
  assumes inv: "leaf_inv h l" and k: "leaf_map l k = None" and full: "leaf_full l" and raw: "leaf_sized raw"
  shows "\<exists>l' r. leaf_upsert h enc rp raw (k, v) l = Some (None, Some (r, enc (lhigh l')), l') \<and>
    leaf_inv h l' \<and> leaf_inv h r \<and>
    leaf_map l' = (leaf_map l)(k \<mapsto> v) |` {..lhigh l'} \<and> leaf_map r = (leaf_map l)(k \<mapsto> v) |` {lhigh l'<..} \<and>
    lhigh l' \<in> dom (leaf_map l) \<and> lsibling l' = Some rp \<and>
    (has_sibling (lcontrol l) \<longrightarrow> dom (leaf_map l) \<inter> {lhigh l'<..} \<noteq> {}) \<and>
    lcontrol l' = (if has_sibling (lcontrol l) then unordered_ctl (lcontrol l)
                   else set_sibling (unordered_ctl (lcontrol l))) \<and>
    lcontrol r = (if has_sibling (lcontrol l) then set_sibling (control_new True) else control_new True) \<and>
    (has_sibling (lcontrol l) \<longrightarrow> lhigh r = lhigh l \<and> lsibling r = lsibling l)"
proof -
  let ?l = "l\<lparr>lcontrol := unordered_ctl (lcontrol l)\<rparr>"
  have ok: "slots_ok h l" and lf: "bit (lcontrol l) 3" using inv by (simp_all add: leaf_inv_iff flag_bits)
  have f: "leaf_find l k = None" using k leaf_find_Some[OF ok] by (cases "leaf_find l k") fastforce+
  have ok': "slots_ok h ?l" using ok by (rule slots_ok_cong) simp_all
  have m: "leaf_map ?l = leaf_map l" by (rule leaf_map_cong) simp_all
  have "leaf_full ?l" using full by (simp add: leaf_full_def)
  then obtain l' r right idx where s: "leaf_split rp raw k ?l = Some (l', r, right, idx)"
    and post: "split_post h rp k ?l l' r right idx"
    using leaf_split_spec[OF ok' _ raw, of k rp] k m by auto
  have hs: "has_sibling (unordered_ctl (lcontrol l)) = has_sibling (lcontrol l)"
    by (simp add: flag_bits unordered_ctl_bits)
  have ctl: "bit (lcontrol l') 3" "bit (lcontrol r) 3" "\<not> bit (lcontrol l') 4" "\<not> bit (lcontrol r) 4"
    using post lf by (auto simp: split_post_def flag_bits ctl_bits unordered_ctl_bits control_new_bits)
  have ll: "leaf_map l' k = None" "leaf_map r k = None" using post k by (auto simp: split_post_def m restrict_map_def)
  have up: "leaf_upsert h enc rp raw (k, v) l =
      (if right then Some (None, Some (leaf_insert_slot idx (k, v) (h k) r, enc (lhigh l')), l')
       else Some (None, Some (r, enc (lhigh l')), leaf_insert_slot idx (k, v) (h k) l'))"
    using f full leaf_full_iff[of l] s by (simp add: leaf_upsert_find[OF ok])
  have above: "dom (leaf_map l) \<inter> {lhigh l'<..} \<noteq> {}" if "has_sibling (lcontrol l)"
  proof -
    have b0: "bit (lbitmap r) 0" and okr: "slots_ok h r" using post that hs by (simp_all add: split_post_def)
    obtain x w where "slot_has r 0 x w" using slots_some[OF okr b0] b0 by (auto simp: slot_has_def)
    then have "leaf_map r x = Some w" using leaf_map_iff[OF okr] by blast
    then have "x \<in> dom (leaf_map l) \<inter> {lhigh l'<..}"
      using post by (auto simp: split_post_def m restrict_map_def split: if_splits)
    then show ?thesis by blast
  qed
  have io: "leaf_inv h x" if "slots_ok h x" "bit (lcontrol x) 3" "\<not> bit (lcontrol x) 4" for x :: "('a, 'b) leaf"
    using that by (simp add: leaf_inv_iff order_ok_def flag_bits)
  show ?thesis
  proof (cases right)
    case True
    note ins = slots_ok_insert[of h r idx k v]
    have "\<not> k \<le> lhigh l'" using post True by (auto simp: split_post_def)
    then show ?thesis
      using post ctl ll True up ins hs above restrict_upd_in[of k "{lhigh l'<..}" "leaf_map l" v]
      by (simp add: split_post_def m io)
  next
    case False
    note ins = slots_ok_insert[of h l' idx k v]
    have k': "\<not> lhigh l' < k" using post False by (auto simp: split_post_def)
    have "slots_ok h (leaf_insert_slot idx (k, v) (h k) l')"
      "leaf_map (leaf_insert_slot idx (k, v) (h k) l') = (leaf_map l |` {..lhigh l'})(k \<mapsto> v)"
      using ins post ll False by (simp_all add: split_post_def m)
    moreover have "(leaf_map l |` {..lhigh l'})(k \<mapsto> v) = (leaf_map l)(k \<mapsto> v) |` {..lhigh l'}"
      using k' by (intro restrict_upd_in) simp
    ultimately have ins': "slots_ok h (leaf_insert_slot idx (k, v) (h k) l')"
      "leaf_map (leaf_insert_slot idx (k, v) (h k) l') = (leaf_map l)(k \<mapsto> v) |` {..lhigh l'}"
      by simp_all
    show ?thesis
      by (rule exI[of _ "leaf_insert_slot idx (k, v) (h k) l'"], rule exI[of _ r])
         (use post ctl False up ins' hs above k' in \<open>simp add: split_post_def m io\<close>)
  qed
qed

section \<open>All cases of an upsert\<close>

text \<open>
  Without a split the leaf holds the pair; with one the two leaves divide the pairs at the high key
  of the left one, whose encoding goes up to the parent.
\<close>

definition upsert_post ::
  "('k::linorder \<Rightarrow> byte) \<Rightarrow> ('k \<Rightarrow> byte list) \<Rightarrow> addr \<Rightarrow> ('k, 'v) kv \<Rightarrow> ('k, 'v) leaf \<Rightarrow> (('k, 'v) leaf \<times> byte list) option \<Rightarrow> ('k, 'v) leaf \<Rightarrow> bool"
where
  "upsert_post h enc rp kv l split l' \<longleftrightarrow>
     (case split of
        None \<Rightarrow> leaf_map l' = (leaf_map l)(fst kv \<mapsto> snd kv) \<and> lhigh l' = lhigh l \<and> lsibling l' = lsibling l
      | Some (r, mid) \<Rightarrow> mid = enc (lhigh l') \<and> leaf_inv h r \<and> lsibling l' = Some rp \<and>
          leaf_map l' = (leaf_map l)(fst kv \<mapsto> snd kv) |` {..lhigh l'} \<and>
          leaf_map r = (leaf_map l)(fst kv \<mapsto> snd kv) |` {lhigh l'<..})"

lemma leaf_upsert_all:
  assumes inv: "leaf_inv h l" and raw: "leaf_sized raw"
  shows "\<exists>split l'. leaf_upsert h enc rp raw (k, v) l = Some (map_option (Pair k) (leaf_map l k), split, l') \<and>
    leaf_inv h l' \<and> upsert_post h enc rp (k, v) l split l'"
proof (cases "leaf_map l k")
  case None
  show ?thesis
  proof (cases "leaf_full l")
    case True
    then show ?thesis using leaf_upsert_split[OF inv None True raw, of enc rp v] None by (fastforce simp: upsert_post_def)
  next
    case False
    then show ?thesis using leaf_upsert_free[OF inv None False, of enc rp raw v] None by (fastforce simp: upsert_post_def)
  qed
next
  case (Some w)
  then show ?thesis using leaf_upsert_present[OF inv Some, of enc rp raw v] by (fastforce simp: upsert_post_def same_meta_def)
qed

end
