(* ===== verification/LeafMerge.thy ===== *)
theory LeafMerge
  imports Leaf
begin

text \<open>
  Removal from a leaf, with the merge of its right sibling: the lemmas about \<open>leaf_remove\<close> and
  \<open>leaf_merge\<close>. Removing takes the key out of the map; merging gives the left leaf the union of
  both maps and the high key and sibling of the right one, which it leaves empty and flagged
  as deleted.
\<close>

section \<open>Merge\<close>

lemma not_full: "slots_ok h l \<Longrightarrow> popcount (lbitmap l) < 64 \<Longrightarrow> \<not> leaf_full l"
proof
  assume "popcount (lbitmap l) < 64" "leaf_full l"
  moreover from this have "{i. bit (lbitmap l) i} = {0..<64}" using bit64 by (auto simp: leaf_full_def)
  ultimately show False by (simp add: popcount_card)
qed

lemma map_upd_add: "k \<notin> dom n \<Longrightarrow> m(k \<mapsto> v) ++ n = m ++ n(k \<mapsto> v)"
  by (rule ext) (auto simp: map_add_def split: option.splits)

lemma merge_loop:
  assumes "slots_ok h l" "\<And>i. i \<in> set is \<Longrightarrow> \<exists>k v. lkvs r ! i = Some (k, v) \<and> ltags r ! i = h k"
    and "distinct is" "distinct (map (\<lambda>i. fst (the (lkvs r ! i))) is)"
    and "\<And>i. i \<in> set is \<Longrightarrow> leaf_map l (fst (the (lkvs r ! i))) = None"
    and "popcount (lbitmap l) + length is \<le> 64"
  shows "\<exists>l' kvs'. list_loop leaf_merge_move is (l, r) = Inr (l', r\<lparr>lkvs := kvs'\<rparr>) \<and> slots_ok h l' \<and>
    leaf_map l' = leaf_map l ++ map_of (map (\<lambda>i. the (lkvs r ! i)) is) \<and>
    lcontrol l' = lcontrol l \<and> lhigh l' = lhigh l \<and> lsibling l' = lsibling l \<and> length kvs' = length (lkvs r)"
  using assms
proof (induction "is" arbitrary: l r)
  case Nil
  have "r = r\<lparr>lkvs := lkvs r\<rparr>" by simp
  with Nil show ?case by (intro exI[of _ l] exI[of _ "lkvs r"]) simp
next
  case (Cons i "is")
  obtain k v where kv: "lkvs r ! i = Some (k, v)" "ltags r ! i = h k" using Cons.prems(2)[of i] by auto
  define j where "j = nat (index_least0 (lbitmap l))"
  have nf: "index_least0 (lbitmap l) \<noteq> full_idx"
    using not_full[OF Cons.prems(1)] Cons.prems(6) leaf_full_iff[of l] by simp
  then have j: "j < 64" "\<not> bit (lbitmap l) j"
    using index_least0_nat[of "lbitmap l"] by (auto simp: full_idx_def j_def)
  have k: "leaf_map l k = None" using Cons.prems(5)[of i] kv by simp
  let ?l = "leaf_insert_slot j (k, v) (h k) l" and ?r = "r\<lparr>lkvs := (lkvs r)[i := None]\<rparr>"
  have step: "leaf_merge_move i (l, r) = Inr (?l, ?r)"
    using nf kv by (simp add: leaf_merge_move_def Let_def leaf_insert_slot_def j_def)
  note ins = slots_ok_insert[OF Cons.prems(1) j k, of v]
  have rest: "lkvs ?r ! a = lkvs r ! a" if "a \<in> set is" for a
  proof -
    have "a \<noteq> i" using Cons.prems(3) that by auto
    then show ?thesis by simp
  qed
  then have same: "map (\<lambda>i. fst (the (lkvs ?r ! i))) is = map (\<lambda>i. fst (the (lkvs r ! i))) is"
    "map (\<lambda>i. the (lkvs ?r ! i)) is = map (\<lambda>i. the (lkvs r ! i)) is" by simp_all
  have ks: "k \<notin> fst ` set (map (\<lambda>i. the (lkvs r ! i)) is)" using Cons.prems(4) kv by (simp add: image_image)
  have "popcount (lbitmap ?l) = Suc (popcount (lbitmap l))"
    using dom_leaf_map[OF ins(1)] dom_leaf_map[OF Cons.prems(1)] k
    by (simp add: ins(2) card_insert_if domIff)
  then have p6: "popcount (lbitmap ?l) + length is \<le> 64" using Cons.prems(6) by simp
  have p2: "\<exists>k v. lkvs ?r ! a = Some (k, v) \<and> ltags ?r ! a = h k" if "a \<in> set is" for a
    using Cons.prems(2)[of a] rest[OF that] that by simp
  have p4: "distinct (map (\<lambda>i. fst (the (lkvs ?r ! i))) is)" using Cons.prems(4) by (simp only: same) simp
  have p5: "leaf_map ?l (fst (the (lkvs ?r ! a))) = None" if "a \<in> set is" for a
  proof -
    have "fst (the (lkvs r ! a)) \<noteq> k" using ks that by (auto simp: image_iff)
    then show ?thesis using Cons.prems(5)[of a] rest[OF that] that by (simp add: ins(2))
  qed
  have p3: "distinct is" using Cons.prems(3) by simp
  obtain l' kvs' where ih: "list_loop leaf_merge_move is (?l, ?r) = Inr (l', ?r\<lparr>lkvs := kvs'\<rparr>)"
    "slots_ok h l'" "leaf_map l' = leaf_map ?l ++ map_of (map (\<lambda>i. the (lkvs ?r ! i)) is)"
    "lcontrol l' = lcontrol l" "lhigh l' = lhigh l" "lsibling l' = lsibling l" "length kvs' = length (lkvs ?r)"
    using Cons.IH[OF ins(1) p2 p3 p4 p5 p6] by auto
  have m: "leaf_map l' = leaf_map l ++ map_of (map (\<lambda>i. the (lkvs r ! i)) (i # is))"
    using ih(3)[unfolded same(2) ins(2)] map_upd_add[of k "map_of (map (\<lambda>i. the (lkvs r ! i)) is)"] ks kv
    by (simp add: dom_map_of_conv_image_fst)
  show ?case
    by (intro exI[of _ l'] exI[of _ kvs'] conjI m ih(2,4-6)) (use step ih(1,7) in simp_all)
qed

definition merge_wanted :: "('k, 'v) leaf \<Rightarrow> ('k, 'v) leaf \<Rightarrow> bool" where
  "merge_wanted l r \<longleftrightarrow>
     popcount (lbitmap l) + popcount (lbitmap r) \<le> kLeafMergeSize \<or> popcount (lbitmap l) = 0"

text \<open>The control words of the two leaves after a merge.\<close>

definition merged_ctl :: "u64 \<Rightarrow> u64" where
  "merged_ctl c = unlatch_exclusive (update_version (set_delete (c OR push_bit 1 1)))"

lemma merged_ctl_bits:
  "\<not> bit c 1 \<Longrightarrow> \<not> bit c 0 \<Longrightarrow> n < 24 \<Longrightarrow> bit (merged_ctl c) n \<longleftrightarrow> bit c n \<or> n = 0"
  unfolding merged_ctl_def
  using bit_or_single[of c 1] by (auto simp: ctl_bits bit_update_version)

lemma leaf_merge_spec:
  assumes ok: "slots_ok h l" "slots_ok h r" and hs: "has_sibling (lcontrol l)"
    and dj: "dom (leaf_map l) \<inter> dom (leaf_map r) = {}" and free: "\<not> locked (lcontrol r)"
    and want: "merge_wanted l r"
  shows "\<exists>l' r'. leaf_merge enc this l (Some r) = Some (Some (enc (lhigh l)), l', Some r') \<and>
    slots_ok h l' \<and> leaf_map l' = leaf_map l ++ leaf_map r \<and> lhigh l' = lhigh r \<and> lsibling l' = lsibling r \<and>
    lcontrol l' = (if has_sibling (lcontrol r) then lcontrol l else clear_sibling (lcontrol l)) \<and>
    slots_ok h r' \<and> leaf_map r' = Map.empty \<and> lsibling r' = Some this \<and> lcontrol r' = merged_ctl (lcontrol r)"
proof -
  let ?rc = "lcontrol r OR push_bit 1 1"
  let ?r = "r\<lparr>lcontrol := ?rc\<rparr>"
  have lt: "latch_exclusive (lcontrol r) = Some ?rc" using free by (simp add: latch_exclusive_iff flag_bits)
  have "popcount (lbitmap l) + popcount (lbitmap r) \<le> 64"
    using want popcount_le[of "lbitmap r"] by (auto simp: merge_wanted_def kLeafMergeSize_def kLeafSize_def)
  then have sz: "popcount (lbitmap l) + length (mask_bits (lbitmap r)) \<le> 64"
    by (simp add: popcount_mask_bits)
  have notin: "leaf_map l (fst (the (lkvs ?r ! i))) = None" if "i \<in> set (mask_bits (lbitmap r))" for i
  proof -
    have "bit (lbitmap r) i" using that by simp
    then obtain k v where "slot_has r i k v" using slots_some[OF ok(2)] unfolding slot_has_def by blast
    then show ?thesis using leaf_map_iff[OF ok(2), of k v] dj by (auto simp: slot_has_def)
  qed
  have some: "\<exists>k v. lkvs ?r ! i = Some (k, v) \<and> ltags ?r ! i = h k" if "i \<in> set (mask_bits (lbitmap r))" for i
    using slots_some[OF ok(2), of i] that by simp
  have dist: "distinct (map (\<lambda>i. fst (the (lkvs ?r ! i))) (mask_bits (lbitmap r)))"
    using slots_distinct[OF ok(2)] by (simp add: leaf_kvs_def comp_def)
  have kvs: "map_of (map (\<lambda>i. the (lkvs ?r ! i)) (mask_bits (lbitmap r))) = leaf_map r"
    by (simp add: leaf_map_def leaf_kvs_def)
  obtain l1 kvs' where loop: "mask_loop leaf_merge_move (lbitmap r) (l, ?r) = Inr (l1, ?r\<lparr>lkvs := kvs'\<rparr>)"
    and l1: "slots_ok h l1" "leaf_map l1 = leaf_map l ++ leaf_map r" "lcontrol l1 = lcontrol l"
      "lhigh l1 = lhigh l" "lsibling l1 = lsibling l" "length kvs' = length (lkvs r)"
    using merge_loop[OF ok(1) some distinct_mask_bits dist notin sz]
    unfolding kvs mask_loop_list by auto
  let ?l' = "l1\<lparr>lhigh := lhigh r, lsibling := lsibling r,
      lcontrol := if has_sibling (lcontrol r) then lcontrol l else clear_sibling (lcontrol l)\<rparr>"
  let ?r' = "r\<lparr>lkvs := kvs', lbitmap := 0, lsibling := Some this, lcontrol := merged_ctl (lcontrol r)\<rparr>"
  have hsr: "has_sibling ?rc = has_sibling (lcontrol r)" using bit_or_single[of "lcontrol r" 1 2] by (simp add: flag_bits)
  have "leaf_merge enc this l (Some r) = Some (Some (enc (lhigh l)), ?l', Some ?r')"
    using hs lt loop want hsr l1(3-5)
    by (simp add: leaf_merge_def Let_def merge_wanted_def merged_ctl_def)
  moreover have "slots_ok h ?l'" using l1(1) by (rule slots_ok_cong) simp_all
  moreover have "leaf_map ?l' = leaf_map l ++ leaf_map r"
    unfolding l1(2)[symmetric] by (rule leaf_map_cong) simp_all
  moreover have "slots_ok h ?r'" "leaf_map ?r' = Map.empty"
    using ok(2) l1(6) by (auto simp: slots_ok_def leaf_map_def leaf_kvs_def)
  ultimately show ?thesis by simp
qed

lemma leaf_merge_unwanted:
  assumes "has_sibling (lcontrol l) \<Longrightarrow> \<not> merge_wanted l r"
  shows "leaf_merge enc this l (Some r) = Some (None, l, Some r)"
  using assms by (simp add: leaf_merge_def merge_wanted_def Let_def)

section \<open>Remove\<close>

definition removed :: "nat \<Rightarrow> ('k, 'v) leaf \<Rightarrow> ('k, 'v) leaf" where
  "removed i l = l\<lparr>lcontrol := update_version (lcontrol l), lbitmap := clear_bit i (lbitmap l),
     lkvs := (lkvs l)[i := None]\<rparr>"

lemma slots_ok_removed:
  assumes ok: "slots_ok h l" and i: "slot_has l i k v"
  shows "slots_ok h (removed i l)" "leaf_map (removed i l) = (leaf_map l)(k := None)"
proof -
  have has: "slot_has (removed i l) j x y \<longleftrightarrow> slot_has l j x y \<and> j \<noteq> i" for j x y
    by (auto simp: removed_def slot_has_def bit_clear_bit)
  show ok': "slots_ok h (removed i l)"
  proof (rule slots_okI)
    fix j assume "bit (lbitmap (removed i l)) j"
    then have "bit (lbitmap l) j" "j \<noteq> i" by (simp_all add: removed_def bit_clear_bit)
    then show "\<exists>k v. lkvs (removed i l) ! j = Some (k, v) \<and> ltags (removed i l) ! j = h k"
      using slots_some[OF ok, of j] by (simp add: removed_def)
  next
    fix a b x y z assume "slot_has (removed i l) a x y" "slot_has (removed i l) b x z"
    then have "slot_has l a x y" "slot_has l b x z" by (simp_all add: has)
    then show "a = b" by (rule slots_inj[OF ok])
  qed (simp_all add: slots_len[OF ok] removed_def)
  show "leaf_map (removed i l) = (leaf_map l)(k := None)"
  proof (rule leaf_map_eqI[OF ok'])
    fix x y
    have "slot_has l i x y \<Longrightarrow> x = k" using i by (simp add: slot_has_def)
    moreover have "slot_has l j k y \<Longrightarrow> j = i" for j using i by (metis slots_inj[OF ok])
    ultimately have "(\<exists>j. slot_has l j x y \<and> j \<noteq> i) \<longleftrightarrow> (\<exists>j. slot_has l j x y) \<and> x \<noteq> k" by blast
    then show "(\<exists>j. slot_has (removed i l) j x y) \<longleftrightarrow> ((leaf_map l)(k := None)) x = Some y"
      unfolding has using leaf_map_iff[OF ok, of x y] by simp
  qed
qed

lemma leaf_remove_find:
  assumes "slots_ok h l"
  shows "leaf_remove h enc this k l sib =
    (case leaf_find l k of
       None \<Rightarrow> Some (None, None, l, sib)
     | Some i \<Rightarrow>
        (case leaf_merge enc this (removed i l) sib of
           None \<Rightarrow> None
         | Some (mid, l', sib') \<Rightarrow>
             Some (lkvs l ! i, mid,
               if ordered (lcontrol l') then l'\<lparr>lcontrol := clear_order (lcontrol l')\<rparr> else l', sib')))"
proof -
  have "lkvs l ! i = Some (the (lkvs l ! i))" if "leaf_find l k = Some i" for i
    using leaf_find_Some[OF assms that] by (auto simp: slot_has_def)
  then show ?thesis
    unfolding leaf_remove_def Let_def
    by (subst leaf_search[OF assms, where k = k])
       (auto simp: removed_def split: option.splits prod.splits)
qed

text \<open>A key that is absent leaves both leaves as they are.\<close>

lemma leaf_remove_absent:
  assumes "leaf_inv h l" "leaf_map l k = None"
  shows "leaf_remove h enc this k l sib = Some (None, None, l, sib)"
proof -
  have ok: "slots_ok h l" using assms(1) by (simp add: leaf_inv_iff)
  have "leaf_find l k = None" using assms(2) leaf_find_Some[OF ok] by (cases "leaf_find l k") fastforce+
  then show ?thesis by (simp add: leaf_remove_find[OF ok])
qed

lemma clear_order_slots:
  "slots_ok h l \<Longrightarrow> bit (lcontrol l) 3 \<Longrightarrow>
   leaf_inv h (if ordered (lcontrol l) then l\<lparr>lcontrol := clear_order (lcontrol l)\<rparr> else l)"
  by (auto simp: leaf_inv_iff order_ok_def flag_bits ctl_bits intro: slots_ok_cong)

text \<open>The two outcomes of removing a key that is present.\<close>

lemma leaf_remove_keep:
  assumes inv: "leaf_inv h l" and k: "leaf_map l k = Some v"
    and keep: "has_sibling (lcontrol l) \<Longrightarrow> \<exists>r. sib = Some r \<and> \<not> merge_wanted (removed i l) r"
    and i: "leaf_find l k = Some i"
  shows "\<exists>l'. leaf_remove h enc this k l sib = Some (Some (k, v), None, l', sib) \<and> leaf_inv h l' \<and>
    leaf_map l' = (leaf_map l)(k := None) \<and> lhigh l' = lhigh l \<and> lsibling l' = lsibling l \<and>
    lcontrol l' = unordered_ctl (lcontrol l)"
proof -
  have ok: "slots_ok h l" and lf: "bit (lcontrol l) 3" using inv by (simp_all add: leaf_inv_iff flag_bits)
  have s: "slot_has l i k v" using leaf_find_Some[OF ok i] k by auto
  note rm = slots_ok_removed[OF ok s]
  have c: "lcontrol (removed i l) = update_version (lcontrol l)" "lhigh (removed i l) = lhigh l"
    "lsibling (removed i l) = lsibling l" by (simp_all add: removed_def)
  have "has_sibling (lcontrol (removed i l)) = has_sibling (lcontrol l)"
    by (simp add: c flag_bits bit_update_version)
  then have m: "leaf_merge enc this (removed i l) sib = Some (None, removed i l, sib)"
    using keep by (auto simp: leaf_merge_def merge_wanted_def Let_def)
  let ?l' = "if ordered (lcontrol (removed i l))
     then (removed i l)\<lparr>lcontrol := clear_order (lcontrol (removed i l))\<rparr> else removed i l"
  have "leaf_inv h ?l'" using rm(1) lf by (intro clear_order_slots) (simp_all add: c bit_update_version)
  moreover have "leaf_map ?l' = (leaf_map l)(k := None)"
    unfolding rm(2)[symmetric] by (rule leaf_map_cong) simp_all
  moreover have "leaf_remove h enc this k l sib = Some (Some (k, v), None, ?l', sib)"
    using s i m by (simp add: leaf_remove_find[OF ok] slot_has_def)
  ultimately show ?thesis by (intro exI[of _ ?l']) (simp add: c unordered_ctl_def Let_def)
qed

lemma leaf_remove_merge:
  assumes inv: "leaf_inv h l" and k: "leaf_map l k = Some v" and hs: "has_sibling (lcontrol l)"
    and r: "slots_ok h r" "\<not> locked (lcontrol r)" and dj: "dom (leaf_map l) \<inter> dom (leaf_map r) = {}"
    and i: "leaf_find l k = Some i" and want: "merge_wanted (removed i l) r"
  shows "\<exists>l' r'. leaf_remove h enc this k l (Some r) = Some (Some (k, v), Some (enc (lhigh l)), l', Some r') \<and>
    leaf_inv h l' \<and> leaf_map l' = (leaf_map l)(k := None) ++ leaf_map r \<and>
    lhigh l' = lhigh r \<and> lsibling l' = lsibling r \<and>
    (\<forall>n < 24. bit (lcontrol l') n \<longleftrightarrow>
        bit (lcontrol l) n \<and> n \<noteq> 4 \<and> (n = 2 \<longrightarrow> has_sibling (lcontrol r))) \<and>
    slots_ok h r' \<and> leaf_map r' = Map.empty \<and> lsibling r' = Some this \<and> lcontrol r' = merged_ctl (lcontrol r)"
proof -
  have ok: "slots_ok h l" and lf: "bit (lcontrol l) 3" using inv by (simp_all add: leaf_inv_iff flag_bits)
  have s: "slot_has l i k v" using leaf_find_Some[OF ok i] k by auto
  note rm = slots_ok_removed[OF ok s]
  have c: "lcontrol (removed i l) = update_version (lcontrol l)" "lhigh (removed i l) = lhigh l"
    by (simp_all add: removed_def)
  have "has_sibling (lcontrol (removed i l))" using hs by (simp add: c flag_bits bit_update_version)
  moreover have "dom (leaf_map (removed i l)) \<inter> dom (leaf_map r) = {}" using dj by (auto simp: rm(2))
  ultimately obtain l1 r' where m: "leaf_merge enc this (removed i l) (Some r) = Some (Some (enc (lhigh l)), l1, Some r')"
    and l1: "slots_ok h l1" "leaf_map l1 = (leaf_map l)(k := None) ++ leaf_map r" "lhigh l1 = lhigh r"
      "lsibling l1 = lsibling r"
      "lcontrol l1 = (if has_sibling (lcontrol r) then update_version (lcontrol l)
         else clear_sibling (update_version (lcontrol l)))"
    and r': "slots_ok h r'" "leaf_map r' = Map.empty" "lsibling r' = Some this" "lcontrol r' = merged_ctl (lcontrol r)"
    using leaf_merge_spec[OF rm(1) r(1) _ _ r(2) want, of enc this] by (auto simp: c rm(2))
  let ?l' = "if ordered (lcontrol l1) then l1\<lparr>lcontrol := clear_order (lcontrol l1)\<rparr> else l1"
  have b: "bit (lcontrol l1) n \<longleftrightarrow> bit (lcontrol l) n \<and> (n = 2 \<longrightarrow> has_sibling (lcontrol r))" if "n < 24" for n
    using that hs by (auto simp: l1(5) flag_bits ctl_bits bit_update_version)
  have "leaf_inv h ?l'" using l1(1) lf b[of 3] by (intro clear_order_slots) simp_all
  moreover have "leaf_map ?l' = (leaf_map l)(k := None) ++ leaf_map r"
    unfolding l1(2)[symmetric] by (rule leaf_map_cong) simp_all
  moreover have "leaf_remove h enc this k l (Some r) = Some (Some (k, v), Some (enc (lhigh l)), ?l', Some r')"
    using s i m by (simp add: leaf_remove_find[OF ok] slot_has_def)
  moreover have "bit (lcontrol ?l') n \<longleftrightarrow>
      bit (lcontrol l) n \<and> n \<noteq> 4 \<and> (n = 2 \<longrightarrow> has_sibling (lcontrol r))" if "n < 24" for n
    using b[OF that] by (auto simp: flag_bits ctl_bits)
  ultimately show ?thesis using r' l1(3,4) by (intro exI[of _ ?l'] exI[of _ r']) simp
qed

section \<open>All cases of a removal\<close>

text \<open>
  Without a merge the removal affects the leaf only; with one the right sibling moves into the leaf,
  is empty and deleted afterwards, and the middle key is the old high key.
\<close>

definition remove_post ::
  "('k::linorder \<Rightarrow> byte) \<Rightarrow> ('k \<Rightarrow> byte list) \<Rightarrow> 'k \<Rightarrow> ('k, 'v) leaf \<Rightarrow> ('k, 'v) leaf \<Rightarrow> byte list option \<Rightarrow> ('k, 'v) leaf \<Rightarrow> ('k, 'v) leaf \<Rightarrow> bool"
where
  "remove_post h enc k l r mid l' r' \<longleftrightarrow>
     (case mid of
        None \<Rightarrow> leaf_map l' = (leaf_map l)(k := None) \<and> lhigh l' = lhigh l \<and> lsibling l' = lsibling l \<and> r' = r
      | Some m \<Rightarrow> m = enc (lhigh l) \<and> leaf_map l' = (leaf_map l)(k := None) ++ leaf_map r \<and>
          lhigh l' = lhigh r \<and> lsibling l' = lsibling r \<and> leaf_map r' = Map.empty \<and> deleted (lcontrol r'))"

lemma leaf_remove_all:
  assumes inv: "leaf_inv h l" and r: "slots_ok h r" "\<not> locked (lcontrol r)" "\<not> deleted (lcontrol r)"
    and dj: "dom (leaf_map l) \<inter> dom (leaf_map r) = {}"
  shows "\<exists>mid l' r'. leaf_remove h enc this k l (Some r) = Some (map_option (Pair k) (leaf_map l k), mid, l', Some r') \<and>
    leaf_inv h l' \<and> remove_post h enc k l r mid l' r'"
proof (cases "leaf_map l k")
  case None
  then have "(leaf_map l)(k := None) = leaf_map l" by (rule fun_upd_idem)
  then show ?thesis using leaf_remove_absent[OF inv None, of enc this "Some r"] inv None by (auto simp: remove_post_def)
next
  case (Some v)
  have ok: "slots_ok h l" using inv by (simp add: leaf_inv_iff)
  obtain i where i: "leaf_find l k = Some i" using leaf_find_None(1)[OF ok] Some by (cases "leaf_find l k") auto
  show ?thesis
  proof (cases "has_sibling (lcontrol l) \<and> merge_wanted (removed i l) r")
    case True
    then have hs: "has_sibling (lcontrol l)" and want: "merge_wanted (removed i l) r" by auto
    have "deleted (merged_ctl (lcontrol r))" using r(2,3) by (simp add: flag_bits merged_ctl_bits)
    then show ?thesis using leaf_remove_merge[OF inv Some hs r(1,2) dj i want, of enc this] Some by (fastforce simp: remove_post_def)
  next
    case False
    then show ?thesis
      using leaf_remove_keep[OF inv Some, of "Some r" i enc this, OF _ i] Some by (fastforce simp: remove_post_def)
  qed
qed

end
