(* ===== verification/LeafSort.thy ===== *)
theory LeafSort
  imports Leaf
begin

text \<open>
  Ordered access to a leaf: the lemmas about \<open>leaf_kv_sort\<close>, \<open>leaf_bound\<close> and \<open>leaf_access\<close>.
  Sorting keeps the map, packs the pairs into the first slots in ascending order and sets
  the ordered flag; on an ordered leaf \<open>bound\<close> finds the first pair at or above a key.
\<close>

section \<open>Sorting\<close>

lemma slots_ok_distinctI:
  assumes "length (ltags l) = 64" "length (lkvs l) = 64" "distinct (map fst (leaf_kvs l))"
    and some: "\<And>i. bit (lbitmap l) i \<Longrightarrow> \<exists>kv. lkvs l ! i = Some kv \<and> ltags l ! i = h (fst kv)"
  shows "slots_ok h l"
proof -
  have "\<forall>i j k v w. bit (lbitmap l) i \<longrightarrow> bit (lbitmap l) j \<longrightarrow>
      lkvs l ! i = Some (k, v) \<longrightarrow> lkvs l ! j = Some (k, w) \<longrightarrow> i = j"
    using distinct_slots[of l] some assms(3) by blast
  with assms show ?thesis unfolding slots_ok_def by blast
qed

lemma map_of_eqI_set:
  assumes "distinct (map fst xs)" "distinct (map fst ys)" "set xs = set ys"
  shows "map_of xs = map_of ys"
  by (rule ext, rule option_eqI) (simp add: assms)

lemma bit_leaf_bitmap: "n \<le> 64 \<Longrightarrow> bit (leaf_bitmap n) i \<longleftrightarrow> i < n"
proof -
  assume n: "n \<le> 64"
  have "leaf_bitmap n = mask n"
    using n by (auto simp: leaf_bitmap_def kLeafSize_def mask_eq_exp_minus_1 push_bit_eq_mult)
  then show ?thesis using n by (auto simp: bit_mask_iff)
qed

lemma mask_bits_leaf_bitmap: "n \<le> 64 \<Longrightarrow> mask_bits (leaf_bitmap n) = [0..<n]"
  by (rule strict_sorted_set_unique) (auto simp: bit_leaf_bitmap)

lemma popcount_leaf_bitmap: "n \<le> 64 \<Longrightarrow> popcount (leaf_bitmap n) = n"
  by (simp add: popcount_mask_bits mask_bits_leaf_bitmap)

lemma sort_collect:
  assumes "distinct is" "\<And>i. i \<in> set is \<Longrightarrow> lkvs l ! i \<noteq> None"
  shows "\<exists>kvs. list_loop
      (\<lambda>idx (l, keys). case lkvs l ! idx of
          None \<Rightarrow> Inl ()
        | Some kv \<Rightarrow> Inr (l\<lparr>lkvs := (lkvs l)[idx := None]\<rparr>, keys @ [(kv, idx)])) is (l, ks) =
    Inr (l\<lparr>lkvs := kvs\<rparr>, ks @ map (\<lambda>i. (the (lkvs l ! i), i)) is) \<and> length kvs = length (lkvs l) \<and>
    (\<forall>i < length kvs. kvs ! i = (if i \<in> set is then None else lkvs l ! i))"
  using assms
proof (induction "is" arbitrary: l ks)
  case Nil
  show ?case by (rule exI[of _ "lkvs l"]) simp
next
  case (Cons i "is")
  let ?l = "l\<lparr>lkvs := (lkvs l)[i := None]\<rparr>"
  obtain kv where kv: "lkvs l ! i = Some kv" using Cons.prems(2)[of i] by auto
  have same: "lkvs ?l ! j = lkvs l ! j" if "j \<in> set is" for j
    using Cons.prems(1) that by (metis distinct.simps(2) leaf.select_convs(6) leaf.surjective leaf.update_convs(6) nth_list_update_neq)
  have d: "distinct is" using Cons.prems(1) by simp
  have n: "lkvs ?l ! j \<noteq> None" if "j \<in> set is" for j using same[OF that] Cons.prems(2)[of j] that by simp
  have mp: "map (\<lambda>i. (the (lkvs ?l ! i), i)) is = map (\<lambda>i. (the (lkvs l ! i), i)) is"
    using same by simp
  obtain kvs where kvs: "length kvs = length (lkvs l)"
    "\<And>j. j < length kvs \<Longrightarrow> kvs ! j = (if j \<in> set is then None else lkvs ?l ! j)"
    and loop: "list_loop
      (\<lambda>idx (l, keys). case lkvs l ! idx of
          None \<Rightarrow> Inl ()
        | Some kv \<Rightarrow> Inr (l\<lparr>lkvs := (lkvs l)[idx := None]\<rparr>, keys @ [(kv, idx)])) is (?l, ks @ [(kv, i)]) =
      Inr (?l\<lparr>lkvs := kvs\<rparr>, (ks @ [(kv, i)]) @ map (\<lambda>i. (the (lkvs l ! i), i)) is)"
    using Cons.IH[OF d n, of "ks @ [(kv, i)]"] unfolding mp by auto
  have "kvs ! j = (if j \<in> set (i # is) then None else lkvs l ! j)" if "j < length kvs" for j
    using kvs(2)[OF that] kvs(1) that by (auto simp: nth_list_update)
  then show ?case using loop kv kvs(1) by (intro exI[of _ kvs]) simp
qed

text \<open>The loop that stores the sorted pairs.\<close>

lemma sort_store:
  assumes "fold (\<lambda>(idx, (kv, pos)) (tags, kvs). (tags[idx := lt ! pos], kvs[idx := Some kv]))
      (enumerate n ks) (tags, kvs) = (tags', kvs')"
    and "n + length ks \<le> length tags" "n + length ks \<le> length kvs"
  shows "length tags' = length tags \<and> length kvs' = length kvs \<and>
    (\<forall>j < length ks. tags' ! (n + j) = lt ! snd (ks ! j) \<and> kvs' ! (n + j) = Some (fst (ks ! j))) \<and>
    (\<forall>j < n. tags' ! j = tags ! j \<and> kvs' ! j = kvs ! j)"
  using assms
proof (induction ks arbitrary: n tags kvs)
  case Nil
  then show ?case by auto
next
  case (Cons x ks)
  obtain kv pos where x: "x = (kv, pos)" by (cases x)
  let ?t = "tags[n := lt ! pos]" and ?k = "kvs[n := Some kv]"
  have ih: "length tags' = length ?t \<and> length kvs' = length ?k \<and>
    (\<forall>j < length ks. tags' ! (Suc n + j) = lt ! snd (ks ! j) \<and> kvs' ! (Suc n + j) = Some (fst (ks ! j))) \<and>
    (\<forall>j < Suc n. tags' ! j = ?t ! j \<and> kvs' ! j = ?k ! j)"
    using Cons.prems by (intro Cons.IH) (auto simp: x)
  have "tags' ! (n + j) = lt ! snd ((x # ks) ! j) \<and> kvs' ! (n + j) = Some (fst ((x # ks) ! j))"
    if "j < length (x # ks)" for j
    using ih that Cons.prems(2,3) by (cases j) (auto simp: x)
  moreover have "tags' ! j = tags ! j \<and> kvs' ! j = kvs ! j" if "j < n" for j using ih that by simp
  ultimately show ?case using ih by simp
qed

definition sort_keys :: "('k::linorder, 'v) leaf \<Rightarrow> (('k, 'v) kv \<times> nat) list" where
  "sort_keys l = sort_key (\<lambda>(kv, idx). fst kv) (map (\<lambda>i. (the (lkvs l ! i), i)) (mask_bits (lbitmap l)))"

lemma sort_keys_facts:
  "length (sort_keys l) = popcount (lbitmap l)"
  "set (sort_keys l) = (\<lambda>i. (the (lkvs l ! i), i)) ` {i. bit (lbitmap l) i}"
  "sorted (map (fst \<circ> fst) (sort_keys l))"
  "mset (map fst (sort_keys l)) = mset (leaf_kvs l)"
proof -
  show "length (sort_keys l) = popcount (lbitmap l)" by (simp add: sort_keys_def popcount_mask_bits)
  show "set (sort_keys l) = (\<lambda>i. (the (lkvs l ! i), i)) ` {i. bit (lbitmap l) i}" by (simp add: sort_keys_def)
  have "sorted (map (\<lambda>(kv, idx). fst kv) (sort_keys l))" by (simp add: sort_keys_def)
  then show "sorted (map (fst \<circ> fst) (sort_keys l))" by (simp add: case_prod_unfold comp_def)
  show "mset (map fst (sort_keys l)) = mset (leaf_kvs l)"
    by (simp add: sort_keys_def leaf_kvs_def image_mset.compositionality comp_def)
qed

text \<open>What sorting leaves: the same pairs, in ascending order in the first slots.\<close>

lemma leaf_kv_sort_spec:
  assumes ok: "slots_ok h l" and lf: "bit (lcontrol l) 3" and un: "\<not> ordered (lcontrol l)"
    and junk: "length junk = kLeafSize"
  shows "\<exists>l'. leaf_kv_sort junk l = Some l' \<and> leaf_inv h l' \<and> ordered (lcontrol l') \<and>
    leaf_map l' = leaf_map l \<and> mset (leaf_kvs l') = mset (leaf_kvs l) \<and>
    lcontrol l' = update_version (set_order (lcontrol l)) \<and> lhigh l' = lhigh l \<and> lsibling l' = lsibling l"
proof -
  let ?K = "sort_keys l" and ?n = "popcount (lbitmap l)"
  note f = sort_keys_facts[of l]
  have n64: "?n \<le> 64" using popcount_le[of "lbitmap l"] by simp
  have j64: "length junk = 64" using junk by (simp add: kLeafSize_def)
  obtain kvs where loop: "mask_loop
      (\<lambda>idx (l, keys). case lkvs l ! idx of
          None \<Rightarrow> Inl ()
        | Some kv \<Rightarrow> Inr (l\<lparr>lkvs := (lkvs l)[idx := None]\<rparr>, keys @ [(kv, idx)])) (lbitmap l) (l, []) =
    Inr (l\<lparr>lkvs := kvs\<rparr>, map (\<lambda>i. (the (lkvs l ! i), i)) (mask_bits (lbitmap l)))"
    and kvs: "length kvs = 64"
    using sort_collect[OF distinct_mask_bits[of "lbitmap l"], of l "[]"] slots_some[OF ok] slots_len[OF ok]
    by (fastforce simp: mask_loop_list)
  obtain tags' kvs' where st: "fold (\<lambda>(idx, (kv, pos)) (tags, kvs). (tags[idx := ltags l ! pos], kvs[idx := Some kv]))
      (enumerate 0 ?K) (junk, kvs) = (tags', kvs')" by (rule prod.exhaust)
  have len: "length ?K = ?n" by (rule f(1))
  have s: "length tags' = 64" "length kvs' = 64"
    "\<And>j. j < ?n \<Longrightarrow> tags' ! j = ltags l ! snd (?K ! j) \<and> kvs' ! j = Some (fst (?K ! j))"
    using sort_store[OF st] len n64 j64 kvs by auto
  define l' where "l' = l\<lparr>ltags := memcpy_at 0 0 kLeafSize tags' (ltags l), lkvs := kvs',
     lbitmap := leaf_bitmap ?n, lcontrol := update_version (set_order (lcontrol l))\<rparr>"
  have eq: "leaf_kv_sort junk l = Some l'"
    using un loop st len
    unfolding leaf_kv_sort_def sort_keys_def[symmetric] 
    by (simp add: Let_def l'_def sort_keys_def[symmetric] popcount_mask_bits)
  have tags: "ltags l' ! j = tags' ! j" if "j < 64" for j
    using that slots_len[OF ok] by (simp add: l'_def kLeafSize_def)
  have nth: "?K ! j \<in> set ?K" if "j < ?n" for j using that len by simp
  have kv_l': "leaf_kvs l' = map fst ?K"
    using s(3) len by (auto simp: leaf_kvs_def l'_def mask_bits_leaf_bitmap[OF n64] intro!: nth_equalityI)
  have dist: "distinct (map fst (leaf_kvs l'))"
  proof -
    have "mset (map fst (leaf_kvs l')) = mset (map fst (leaf_kvs l))" 
      by (simp only: kv_l' mset_map[of fst "map fst ?K"] mset_map[of fst "leaf_kvs l"] f(4))
    then show ?thesis using slots_distinct[OF ok] mset_eq_imp_distinct_iff by blast
  qed
  have some: "\<exists>kv. lkvs l' ! i = Some kv \<and> ltags l' ! i = h (fst kv)" if "bit (lbitmap l') i" for i
  proof -
    have i: "i < ?n" using that by (simp add: l'_def bit_leaf_bitmap[OF n64])
    obtain p where p: "bit (lbitmap l) p" "?K ! i = (the (lkvs l ! p), p)" using nth[OF i] f(2) by auto
    show ?thesis using s(3)[OF i] p slots_some[OF ok p(1)] tags[of i] i n64 by (auto simp: l'_def)
  qed
  have ok': "slots_ok h l'"
    using some dist s(1,2) slots_len[OF ok] by (intro slots_ok_distinctI) (auto simp: l'_def)
  have ms: "mset (leaf_kvs l') = mset (leaf_kvs l)" unfolding kv_l' by (rule f(4))
  have "leaf_map l' = leaf_map l"
    unfolding leaf_map_def using ms dist slots_distinct[OF ok] by (metis map_of_eqI_set mset_eq_setD)
  moreover have bits: "bit (lcontrol l') 3" "bit (lcontrol l') 4"
    using lf un by (simp_all add: l'_def bit_update_version ctl_bits flag_bits)
  moreover have "order_ok l'"
    using f(3) unfolding order_ok_def kv_l'
    by (simp add: l'_def popcount_leaf_bitmap[OF n64])
  ultimately show ?thesis
    using eq ok' ms by (intro exI[of _ l']) (simp add: leaf_inv_iff flag_bits, simp add: l'_def)
qed

section \<open>Bounds in an ordered leaf\<close>

text \<open>An ordered leaf is a strictly sorted list of pairs in its first slots.\<close>

lemma ordered_view:
  assumes "leaf_inv h l" "ordered (lcontrol l)"
  shows "length (leaf_kvs l) = popcount (lbitmap l)" "popcount (lbitmap l) \<le> 64"
    "sorted_wrt (<) (map fst (leaf_kvs l))"
    "bit (lbitmap l) i \<longleftrightarrow> i < popcount (lbitmap l)"
    "i < popcount (lbitmap l) \<Longrightarrow> lkvs l ! i = Some (leaf_kvs l ! i)"
proof -
  let ?n = "popcount (lbitmap l)"
  have ok: "slots_ok h l" and o: "lbitmap l = leaf_bitmap ?n" "sorted (map fst (leaf_kvs l))"
    using assms by (simp_all add: leaf_inv_iff order_ok_def)
  show n: "?n \<le> 64" using popcount_le[of "lbitmap l"] by simp
  show "length (leaf_kvs l) = ?n" by (simp add: leaf_kvs_def popcount_mask_bits)
  show "sorted_wrt (<) (map fst (leaf_kvs l))"
    using o(2) slots_distinct[OF ok] by (simp add: strict_sorted_iff)
  have b: "bit (lbitmap l) i \<longleftrightarrow> i < ?n" for i using bit_leaf_bitmap[OF n, of i] o(1) by simp
  then show "bit (lbitmap l) i \<longleftrightarrow> i < ?n" .
  assume i: "i < ?n"
  have "mask_bits (lbitmap l) = [0..<?n]" using mask_bits_leaf_bitmap[OF n] o(1) by simp
  then have "leaf_kvs l ! i = the (lkvs l ! i)" using i by (simp add: leaf_kvs_def)
  then show "lkvs l ! i = Some (leaf_kvs l ! i)" using slots_some[OF ok, of i] b[of i] i by auto
qed

lemma leaf_bound_find:
  assumes ok: "slots_ok h l"
  shows "leaf_bound h key upper l =
    (case leaf_find l key of
       Some idx \<Rightarrow>
         (if upper then if idx + 1 < kLeafSize then Some (lkvs l ! (idx + 1), idx + 1) else None
          else Some (lkvs l ! idx, idx))
     | None \<Rightarrow>
         let nkey = popcount (lbitmap l) in
         if None \<in> set (take nkey (lkvs l)) then Some (None, 0)
         else let keys = map (fst \<circ> the) (take nkey (lkvs l));
                  kid = length (takeWhile (\<lambda>k. \<not> key < k) keys)
              in if nkey \<le> kid then Some (None, 0) else Some (lkvs l ! kid, kid))"
proof -
  have "lkvs l ! i = Some (the (lkvs l ! i))" if "leaf_find l key = Some i" for i
    using leaf_find_Some[OF ok that] by (auto simp: slot_has_def)
  then show ?thesis
    unfolding leaf_bound_def Let_def
    by (subst leaf_search[OF ok, where k = key]) (auto split: option.splits)
qed

lemma takeWhile_rank:
  assumes "sorted_wrt (<) xs" "x \<notin> set xs"
  shows "length (takeWhile (\<lambda>y. \<not> x < y) xs) = rank x xs"
  using assms
proof (induction xs)
  case (Cons y ys)
  then show ?case
  proof (cases "y < x")
    case False
    then have "x < y" using Cons.prems by auto
    moreover have "rank x ys = 0" using Cons.prems \<open>x < y\<close> by (intro rank_eq_0) auto
    ultimately show ?thesis by simp
  qed auto
qed simp

text \<open>A key that is in the leaf sits at its position in the sorted order.\<close>

lemma rank_at:
  assumes "sorted_wrt (<) xs" "i < length xs"
  shows "rank (xs ! i) xs = i"
proof (rule rank_unique)
  fix j assume "j < i"
  then show "xs ! j < xs ! i" using sorted_wrt_nth_less[OF assms(1)] assms(2) by blast
next
  fix j assume "i \<le> j" "j < length xs"
  then show "xs ! i \<le> xs ! j"
    using sorted_wrt_nth_less[OF assms(1), of i j] by (cases "i = j") auto
qed (use assms in simp)

lemma leaf_bound_cases:
  fixes l :: "('k::linorder, 'v) leaf" and key :: 'k
  assumes inv: "leaf_inv h l" and o: "ordered (lcontrol l)"
  defines "S \<equiv> leaf_kvs l"
  defines "n \<equiv> popcount (lbitmap l)" and "p \<equiv> rank key (map fst S)"
  shows "leaf_bound h key upper l =
    (if key \<in> fst ` set S \<and> upper
     then if p + 1 < n then Some (Some (S ! (p + 1)), p + 1)
          else if n < 64 then Some (lkvs l ! n, n) else None
     else if p < n then Some (Some (S ! p), p) else Some (None, 0))"
proof -
  have ok: "slots_ok h l" using inv by (simp add: leaf_inv_iff)
  note v = ordered_view[OF inv o, folded S_def n_def]
  have lenS: "length S = n" using v(1) by simp
  show ?thesis
  proof (cases "leaf_find l key")
    case (Some i)
    then obtain w where w: "slot_has l i key w" using leaf_find_Some[OF ok] by blast
    then have i: "i < n" "S ! i = (key, w)" using v(4,5)[of i] by (auto simp: slot_has_def)
    then have "rank (map fst S ! i) (map fst S) = i" using v(3) lenS by (intro rank_at) auto
    then have p: "p = i" using i lenS by (simp add: p_def)
    have "key \<in> fst ` set S" using i lenS by (metis fst_conv image_eqI nth_mem)
    moreover have "Suc i < n \<or> n = Suc i" using i by auto
    ultimately show ?thesis
      using Some i v(5) v(2) by (elim disjE) (auto simp: leaf_bound_find[OF ok] p kLeafSize_def)
  next
    case None
    have key: "key \<notin> set (map fst S)"
    proof
      assume "key \<in> set (map fst S)"
      then obtain i where i: "i < n" "fst (S ! i) = key" using lenS by (auto simp: in_set_conv_nth)
      then have "slot_has l i key (snd (S ! i))" using v(4,5)[of i] by (auto simp: slot_has_def)
      then show False using leaf_find_None(2)[OF ok None] by blast
    qed
    have tk: "take n (lkvs l) = map Some S"
      using v(5) lenS v(2) slots_len[OF ok] by (intro nth_equalityI) auto
    have "length (takeWhile (\<lambda>k. \<not> key < k) (map fst S)) = p"
      unfolding p_def using v(3) key by (rule takeWhile_rank)
    then show ?thesis
      using None key v(5)[of p] by (auto simp: leaf_bound_find[OF ok] n_def[symmetric] tk Let_def comp_def)
  qed
qed

end
