(* ===== verification/Inner.thy ===== *)
theory Inner
  imports Control Compare Keys
begin

text \<open>
  The inner node for integer keys (\<open>InnerNode<K>\<close> of \<open>src/FBTree/inode.h\<close>). The separators are
  stored by byte position: the bytes that all separators share form the prefix, and row
  \<open>r\<close> of the features holds byte \<open>plen + r\<close> of every separator, so that one vector
  comparison examines that byte of all separators at once.

  Keys are encoded keys, as the byte strings that \<open>((char*) &key)[i]\<close> reads. The number of
  feature rows is \<open>kFeatureSize\<close>, the length of an encoded key. Memory that \<open>malloc\<close> returns is an
  argument; \<open>None\<close> is a step that waits for a latch or that the language leaves undefined.
\<close>

section \<open>State and operations\<close>

record inode =
  icontrol :: u64
  knum :: nat
  plen :: nat
  prefix :: "byte list"
  inext :: ptr
  features :: "byte list list"
  ichildren :: "ptr list"

definition kFeatureSize :: "inode \<Rightarrow> nat" where "kFeatureSize n = length (features n)"

definition kBitCnt :: nat where "kBitCnt = 64"

definition inner_compare_equal :: "byte list \<Rightarrow> byte \<Rightarrow> u64" where
  "inner_compare_equal p c = compare_equal_64 kCmpMode p c"

definition inner_compare_less :: "byte list \<Rightarrow> byte \<Rightarrow> u64" where
  "inner_compare_less p c = compare_less_64 kCmpMode p c"

definition inner_bitmap :: "inode \<Rightarrow> u64" where
  "inner_bitmap n = (if knum n = kInnerSize then 0 - 1 else push_bit (knum n) 1 - 1)"

text \<open>The byte \<open>pid\<close> where the loop over the prefix stops; \<open>plen\<close> when the key has the prefix.\<close>

definition prefix_pos :: "byte list \<Rightarrow> inode \<Rightarrow> nat" where
  "prefix_pos key n = length (takeWhile (\<lambda>pid. key ! pid = prefix n ! pid) [0..<plen n])"

text \<open>\<open>to_next_phase1\<close>: the comparison with the prefix, and \<open>next\<close> and \<open>to_sibling\<close> if it decides.\<close>

definition to_next_phase1 :: "byte list \<Rightarrow> inode \<Rightarrow> int \<times> ptr \<times> bool" where
  "to_next_phase1 key n =
     (let pid = prefix_pos key n in
      if pid = plen n then (0, None, False)
      else if key ! pid <s prefix n ! pid then (- 1, ichildren n ! 0, False)
      else (1, inext n, has_sibling (icontrol n)))"

text \<open>\<open>index_phase1\<close>: the comparison with the prefix, and the index or \<open>next\<close> if it decides.\<close>

definition index_phase1 :: "byte list \<Rightarrow> inode \<Rightarrow> int \<times> nat \<times> ptr \<times> bool" where
  "index_phase1 key n =
     (let pid = prefix_pos key n in
      if pid = plen n then (0, 0, None, False)
      else if key ! pid <s prefix n ! pid then (- 1, 0, None, False)
      else if \<not> has_sibling (icontrol n) then (1, knum n, None, False)
      else (1, 0, inext n, True))"

text \<open>The loop over the feature rows: the row it stops at and the candidates it leaves.\<close>

function row_loop :: "inode \<Rightarrow> byte list \<Rightarrow> nat \<Rightarrow> u64 \<Rightarrow> nat \<times> u64" where
  "row_loop n key rid eqmask =
     (if rid + plen n < kFeatureSize n
      then let mask = inner_compare_equal (features n ! rid) (key ! (rid + plen n)) AND eqmask
           in if mask = 0 then (rid, eqmask) else row_loop n key (rid + 1) mask
      else (rid, eqmask))"
  by pat_completeness auto
termination by (relation "measure (\<lambda>(n, key, rid, eqmask). kFeatureSize n - rid)") auto

declare row_loop.simps [simp del]

text \<open>The index that \<open>to_next\<close> and \<open>index_or_sibling\<close> compute once the key has the prefix.\<close>

definition search_index :: "inode \<Rightarrow> byte list \<Rightarrow> int option" where
  "search_index n key =
     (let (rid, eqmask) = row_loop n key 0 (inner_bitmap n) in
      if rid + plen n < kFeatureSize n
      then let mask = inner_compare_less (features n ! rid) (key ! (rid + plen n)) AND eqmask
           in if mask = 0 then Some (if eqmask = 0 then 0 else index_least1 eqmask)
              else map_option (\<lambda>z. int kBitCnt - int z) (countl_zero mask)
      else Some (index_least1 eqmask))"

text \<open>\<open>to_next\<close>: whether it goes to the sibling, and the node it goes to.\<close>

definition to_next :: "byte list \<Rightarrow> inode \<Rightarrow> (bool \<times> ptr) option" where
  "to_next key n =
     (case begin_read (icontrol n) of
        None \<Rightarrow> None
      | Some init_version \<Rightarrow>
          if deleted (icontrol n) then Some (True, inext n)
          else
            let (pcmp, nxt, to_sibling) = to_next_phase1 key n;
                found =
                  (if pcmp \<noteq> 0 then Some (to_sibling, nxt)
                   else case search_index n key of
                       None \<Rightarrow> None
                     | Some idx \<Rightarrow>
                         if idx = int (knum n) then Some (has_sibling (icontrol n), inext n)
                         else if 0 \<le> idx \<and> idx < int kInnerSize
                              then Some (False, ichildren n ! nat idx) else None)
            in case end_read (icontrol n) init_version of Some True \<Rightarrow> found | _ \<Rightarrow> None)"

text \<open>\<open>index_or_sibling\<close>: the node to go to (\<open>Inl\<close>) or the index in this one (\<open>Inr\<close>).\<close>

definition index_or_sibling :: "byte list \<Rightarrow> inode \<Rightarrow> (ptr + int) option" where
  "index_or_sibling key n =
     (if deleted (icontrol n) then Some (Inl (inext n))
      else
        let (pcmp, index, nxt, to_sibling) = index_phase1 key n
        in if pcmp \<noteq> 0 then Some (if to_sibling then Inl nxt else Inr (int index))
           else
             let (rid, eqmask) = row_loop n key 0 (inner_bitmap n) in
             if rid + plen n < kFeatureSize n
             then let mask = inner_compare_less (features n ! rid) (key ! (rid + plen n)) AND eqmask
                  in if mask = 0 then Some (Inr (if eqmask = 0 then 0 else index_least1 eqmask))
                     else case countl_zero mask of
                         None \<Rightarrow> None
                       | Some z \<Rightarrow>
                           let index = int kBitCnt - int z
                           in if index = int (knum n) \<and> has_sibling (icontrol n)
                              then Some (Inl (inext n)) else Some (Inr index)
             else Some (Inr (index_least1 eqmask)))"

text \<open>A loop over the first \<open>m\<close> rows that changes each row by itself.\<close>

definition on_rows :: "nat \<Rightarrow> (nat \<Rightarrow> byte list \<Rightarrow> byte list) \<Rightarrow> byte list list \<Rightarrow> byte list list" where
  "on_rows m f rows = map (\<lambda>rid. if rid < m then f rid (rows ! rid) else rows ! rid) [0..<length rows]"

definition key_insert :: "byte list \<Rightarrow> nat \<Rightarrow> inode \<Rightarrow> inode" where
  "key_insert mid index n =
     (let F = kFeatureSize n in
      if knum n = 0 then n\<lparr>prefix := memcpy_at 0 0 F mid (prefix n), plen := F\<rparr>
      else
        let n = n\<lparr>features := on_rows (F - plen n)
              (\<lambda>rid row. (memmove_in (index + 1) index (knum n - index) row)[index := mid ! (rid + plen n)])
              (features n)\<rparr>
        in if index = 0 \<or> index = knum n
           then let pid = prefix_pos mid n
                in if pid < plen n
                   then n\<lparr>features := on_rows (plen n - pid)
                            (\<lambda>rid row. (memset_n (prefix n ! (pid + rid)) (knum n + 1) row)[index := mid ! (rid + pid)])
                            (memmove_in (plen n - pid) 0 (F - plen n) (features n)),
                          plen := pid\<rparr>
                   else n
           else n)"

text \<open>The rows from \<open>m\<close> on in which the entries \<open>0\<close> and \<open>lst\<close> agree, up to the first where they do not.\<close>

definition equal_rows :: "nat \<Rightarrow> nat \<Rightarrow> byte list list \<Rightarrow> nat" where
  "equal_rows m lst rows = length (takeWhile (\<lambda>pid. rows ! pid ! 0 = rows ! pid ! lst) [0..<m])"

text \<open>The prefix extension of \<open>key_remove\<close> and \<open>bound_extension\<close>.\<close>

definition prefix_extend :: "nat \<Rightarrow> inode \<Rightarrow> inode" where
  "prefix_extend lst n =
     (let F = kFeatureSize n;
          pid = equal_rows (F - plen n) lst (features n);
          n = n\<lparr>prefix := memcpy_at (plen n) 0 pid (map (\<lambda>row. row ! 0) (features n)) (prefix n)\<rparr>
      in if pid > 0
         then n\<lparr>features := memmove_in 0 pid (F - plen n - pid) (features n), plen := plen n + pid\<rparr>
         else n)"

definition key_remove :: "nat \<Rightarrow> inode \<Rightarrow> inode" where
  "key_remove index n =
     (let n = n\<lparr>features := on_rows (kFeatureSize n - plen n)
            (\<lambda>rid row. memmove_in index (index + 1) (knum n - index - 1) row) (features n)\<rparr>
      in if index = 0 then prefix_extend (knum n - 2) n else n)"

text \<open>\<open>memmove64\<close> inside one array and from one array to another, element by element.\<close>

definition memmove64 :: "nat \<Rightarrow> nat \<Rightarrow> nat \<Rightarrow> bool \<Rightarrow> 'a list \<Rightarrow> 'a list" where
  "memmove64 s d n forward a =
     fold (\<lambda>idx a. a[d + idx := a ! (s + idx)]) (if forward then [0..<n] else rev [0..<n]) a"

definition memmove64_to :: "'a list \<Rightarrow> nat \<Rightarrow> nat \<Rightarrow> nat \<Rightarrow> 'a list \<Rightarrow> 'a list" where
  "memmove64_to src s d n dst = fold (\<lambda>idx a. a[d + idx := src ! (s + idx)]) [0..<n] dst"

definition memory_expand :: "inode \<Rightarrow> inode" where
  "memory_expand n =
     n\<lparr>features := on_rows (plen n) (\<lambda>rid row. memset_n (prefix n ! rid) kInnerSize row)
         (memmove_in (plen n) 0 (kFeatureSize n - plen n) (features n))\<rparr>"

text \<open>
  \<open>memory_shrink\<close> writes the first byte of every row that it looks at to the prefix, also of the row
  at which it stops. With no keys it reads in front of the row.
\<close>

definition memory_shrink :: "inode \<Rightarrow> inode option" where
  "memory_shrink n =
     (if knum n = 0 then None
      else
        let F = kFeatureSize n;
            pid = equal_rows F (knum n - 1) (features n);
            n = n\<lparr>prefix := memcpy_at 0 0 (min (pid + 1) F) (map (\<lambda>row. row ! 0) (features n)) (prefix n),
                  plen := pid\<rparr>
        in Some (n\<lparr>features := memmove_in 0 pid (F - pid) (features n)\<rparr>))"

text \<open>Separator \<open>kid\<close>, as the loops that copy one to \<open>mid\<close> read it.\<close>

definition read_sep :: "inode \<Rightarrow> nat \<Rightarrow> byte list" where
  "read_sep n kid =
     map (\<lambda>rid. if rid < plen n then prefix n ! rid else features n ! (rid - plen n) ! kid) [0..<kFeatureSize n]"

text \<open>\<open>InnerNode()\<close> on the allocated memory \<open>raw\<close>.\<close>

definition inner_new :: "inode \<Rightarrow> inode" where
  "inner_new raw = raw\<lparr>icontrol := control_new False, knum := 0, plen := 0, inext := None\<rparr>"

text \<open>The three layouts of a split, before \<open>mid\<close> is read back: this node, the right one, \<open>midx\<close>.\<close>

definition split_last :: "ptr \<Rightarrow> ptr \<Rightarrow> byte list \<Rightarrow> inode \<Rightarrow> inode \<Rightarrow> (inode \<times> inode \<times> nat) option" where
  "split_last lchild rchild mid n r =
     Some (n, r\<lparr>prefix := memcpy_at 0 0 (kFeatureSize r) mid (prefix r), plen := kFeatureSize r,
              ichildren := (ichildren r)[0 := lchild], inext := rchild, knum := 1\<rparr>, kInnerSize - 1)"

definition split_left :: "ptr \<Rightarrow> byte list \<Rightarrow> nat \<Rightarrow> inode \<Rightarrow> inode \<Rightarrow> (inode \<times> inode \<times> nat) option" where
  "split_left rchild mid index n r =
     (let half = kInnerSize div 2;
          n = memory_expand n;
          r = r\<lparr>features := on_rows (kFeatureSize n) (\<lambda>rid row. memcpy_at 0 half half (features n ! rid) row) (features r)\<rparr>;
          r = r\<lparr>ichildren := memmove64_to (ichildren n) half 0 half (ichildren r)\<rparr>;
          n = n\<lparr>features := on_rows (kFeatureSize n)
                (\<lambda>rid row. (memmove_in (index + 1) index (half - index) row)[index := mid ! rid]) (features n)\<rparr>;
          n = n\<lparr>ichildren := (memmove64 index (index + 1) (half - index) False (ichildren n))[index + 1 := rchild]\<rparr>;
          n = n\<lparr>knum := half + 1\<rparr>;
          r = r\<lparr>knum := half\<rparr>
      in case (memory_shrink n, memory_shrink r) of
           (Some n, Some r) \<Rightarrow> Some (n, r, half)
         | _ \<Rightarrow> None)"

definition split_right :: "ptr \<Rightarrow> byte list \<Rightarrow> nat \<Rightarrow> inode \<Rightarrow> inode \<Rightarrow> (inode \<times> inode \<times> nat) option" where
  "split_right rchild mid index n r =
     (let half = kInnerSize div 2;
          n = memory_expand n;
          r = r\<lparr>features := on_rows (kFeatureSize n)
                (\<lambda>rid row. memcpy_at (index - half + 1) index (kInnerSize - index) (features n ! rid)
                   ((memcpy_at 0 half (index - half) (features n ! rid) row)[index - half := mid ! rid]))
                (features r)\<rparr>;
          r = r\<lparr>ichildren := memmove64_to (ichildren n) half 0 (index - half + 1) (ichildren r)\<rparr>;
          r = r\<lparr>ichildren := (ichildren r)[index - half + 1 := rchild]\<rparr>;
          r = r\<lparr>ichildren := memmove64_to (ichildren n) (index + 1) (index - half + 2) (kInnerSize - index - 1) (ichildren r)\<rparr>;
          n = n\<lparr>knum := half\<rparr>;
          r = r\<lparr>knum := half + 1\<rparr>
      in case (memory_shrink n, memory_shrink r) of
           (Some n, Some r) \<Rightarrow> Some (n, r, half - 1)
         | _ \<Rightarrow> None)"

definition inner_split ::
  "addr \<Rightarrow> inode \<Rightarrow> ptr \<Rightarrow> ptr \<Rightarrow> byte list \<Rightarrow> nat \<Rightarrow> inode \<Rightarrow> (inode \<times> byte list \<times> inode) option" where
  "inner_split rp raw lchild rchild mid index n =
     (let r = (inner_new raw)\<lparr>inext := inext n\<rparr>;
          n = n\<lparr>inext := Some rp\<rparr>;
          (n, r) = (if \<not> has_sibling (icontrol n)
                    then (n\<lparr>icontrol := set_sibling (icontrol n)\<rparr>, r)
                    else (n, r\<lparr>icontrol := set_sibling (icontrol r)\<rparr>))
      in case (if index = kInnerSize then split_last lchild rchild mid n r
               else if index < kInnerSize div 2 then split_left rchild mid index n r
               else split_right rchild mid index n r)
         of None \<Rightarrow> None
          | Some (n, r, midx) \<Rightarrow> Some (r, read_sep n midx, n))"

definition inner_sibling :: "inode \<Rightarrow> ptr" where
  "inner_sibling n = (if has_sibling (icontrol n) then inext n else None)"

text \<open>\<open>insert\<close>: the new right node and its separator if the node was split, and this node.\<close>

definition inner_insert ::
  "addr \<Rightarrow> inode \<Rightarrow> ptr \<Rightarrow> ptr \<Rightarrow> byte list \<Rightarrow> nat \<Rightarrow> inode \<Rightarrow>
   ((inode \<times> byte list) option \<times> inode) option" where
  "inner_insert rp raw lchild rchild mid index n =
     (let n = n\<lparr>icontrol := update_version (icontrol n)\<rparr> in
      if knum n < kInnerSize
      then
        let n = key_insert mid index n;
            n = (if index \<noteq> knum n
                 then n\<lparr>ichildren := (memmove64 (index + 1) (index + 2) (knum n - index - 1) False
                                       (ichildren n))[index + 1 := rchild]\<rparr>
                 else n\<lparr>ichildren := (ichildren n)[index := lchild], inext := rchild\<rparr>)
        in Some (None, n\<lparr>knum := knum n + 1\<rparr>)
      else case inner_split rp raw lchild rchild mid index n of
          None \<Rightarrow> None
        | Some (r, mid, n) \<Rightarrow> Some (Some (r, mid), n))"

text \<open>
  \<open>merge\<close> of the right sibling into the node at address \<open>this\<close>: the separator that goes away if
  the two were merged, and both nodes.
\<close>

definition inner_merge ::
  "addr \<Rightarrow> inode \<Rightarrow> inode option \<Rightarrow> (byte list option \<times> inode \<times> inode option) option" where
  "inner_merge this n sib =
     (if has_sibling (icontrol n)
      then case sib of
          None \<Rightarrow> None
        | Some r \<Rightarrow>
            if knum n + knum r \<le> kInnerMergeSize \<or> knum r = 0
            then case latch_exclusive (icontrol r) of
                None \<Rightarrow> None
              | Some rc \<Rightarrow>
                  let r = r\<lparr>icontrol := rc\<rparr>;
                      rnkey = knum r
                  in if knum n + rnkey \<le> kInnerMergeSize \<or> rnkey = 0
                     then
                       if knum n = 0 then None
                       else
                         let mid = read_sep n (knum n - 1);
                             n = memory_expand n;
                             r = memory_expand r;
                             n = n\<lparr>features := on_rows (kFeatureSize n)
                                   (\<lambda>rid row. memcpy_at (knum n) 0 rnkey (features r ! rid) row) (features n)\<rparr>;
                             n = n\<lparr>ichildren := memmove64_to (ichildren r) 0 (knum n) rnkey (ichildren n)\<rparr>;
                             n = n\<lparr>knum := knum n + rnkey\<rparr>;
                             r = r\<lparr>knum := 0\<rparr>
                         in case memory_shrink n of
                             None \<Rightarrow> None
                           | Some n \<Rightarrow>
                               let n = n\<lparr>inext := inext r\<rparr>;
                                   r = r\<lparr>inext := Some this\<rparr>;
                                   n = (if \<not> has_sibling (icontrol r)
                                        then n\<lparr>icontrol := clear_sibling (icontrol n)\<rparr> else n);
                                   r = r\<lparr>icontrol := unlatch_exclusive (update_version (set_delete (icontrol r)))\<rparr>
                               in Some (Some mid, n, Some r)
                     else Some (None, n, Some (r\<lparr>icontrol := unlatch_exclusive (icontrol r)\<rparr>))
            else Some (None, n, Some r)
      else Some (None, n, sib))"

definition bound_extension :: "inode \<Rightarrow> inode" where
  "bound_extension n = prefix_extend (knum n - 1) n"

text \<open>
  The outcome of a removal: nothing more to do, the sibling was merged into this node and the
  separator between them has to go, or that separator has to be replaced further up.
\<close>

datatype remove_result = Removed | Merged "byte list" | Up "byte list"

definition bound_remove ::
  "addr \<Rightarrow> byte list \<Rightarrow> nat \<Rightarrow> inode \<Rightarrow> inode option \<Rightarrow> (remove_result \<times> inode \<times> inode option) option" where
  "bound_remove this mid index n sib =
     (if \<not> has_sibling (icontrol n)
      then let n = n\<lparr>inext := ichildren n ! index, knum := knum n - 1\<rparr>
           in Some (Removed, if knum n = 0 then n\<lparr>plen := 0\<rparr> else bound_extension n, sib)
      else case sib of
          None \<Rightarrow> None
        | Some r \<Rightarrow>
            (case latch_exclusive (icontrol r) of
              None \<Rightarrow> None
            | Some rc \<Rightarrow>
                let r = r\<lparr>icontrol := update_version rc\<rparr>;
                    rnkey = knum r
                in if index + rnkey \<le> kInnerMergeSize \<or> index = 0 \<or> rnkey = 0 \<or> rnkey = 1
                   then
                     let n = memory_expand n;
                         r = memory_expand r;
                         n = n\<lparr>features := on_rows (kFeatureSize n)
                               (\<lambda>rid row. memcpy_at index 0 rnkey (features r ! rid) row) (features n)\<rparr>;
                         n = n\<lparr>ichildren := memmove64_to (ichildren r) 1 (knum n)
                               (if rnkey \<noteq> 0 then rnkey - 1 else 0) (ichildren n)\<rparr>;
                         n = n\<lparr>knum := knum n + rnkey - 1\<rparr>;
                         r = r\<lparr>knum := 0\<rparr>
                     in case memory_shrink n of
                         None \<Rightarrow> None
                       | Some n \<Rightarrow>
                           let n = n\<lparr>inext := if rnkey \<noteq> 0 then inext r else ichildren n ! index\<rparr>;
                               r = r\<lparr>inext := Some this\<rparr>;
                               n = (if \<not> has_sibling (icontrol r)
                                    then n\<lparr>icontrol := clear_sibling (icontrol n)\<rparr> else n);
                               r = r\<lparr>icontrol := unlatch_exclusive (set_delete (icontrol r))\<rparr>
                           in Some (Merged mid, n, Some r)
                   else
                     let mid = read_sep n (index - 1);
                         r = r\<lparr>ichildren := (ichildren r)[0 := ichildren n ! index]\<rparr>;
                         n = bound_extension (n\<lparr>knum := knum n - 1\<rparr>)
                     in Some (Up mid, n, Some (r\<lparr>icontrol := unlatch_exclusive (icontrol r)\<rparr>))))"

definition inner_remove ::
  "addr \<Rightarrow> byte list \<Rightarrow> nat \<Rightarrow> inode \<Rightarrow> inode option \<Rightarrow> (remove_result \<times> inode \<times> inode option) option" where
  "inner_remove this mid index n sib =
     (let n = n\<lparr>icontrol := update_version (icontrol n)\<rparr> in
      if index + 1 < knum n
      then
        let n = key_remove index n;
            n = n\<lparr>ichildren := memmove64 (index + 2) (index + 1) (knum n - index - 2) True (ichildren n)\<rparr>;
            n = n\<lparr>knum := knum n - 1\<rparr>
        in case inner_merge this n sib of
            None \<Rightarrow> None
          | Some (merged, n, sib) \<Rightarrow>
              Some (case merged of None \<Rightarrow> Removed | Some mid \<Rightarrow> Merged mid, n, sib)
      else bound_remove this mid index n sib)"

definition anchor_update :: "byte list \<Rightarrow> nat \<Rightarrow> inode \<Rightarrow> (bool \<times> inode) option" where
  "anchor_update mid index n =
     (let n = n\<lparr>icontrol := update_version (icontrol n)\<rparr>;
          n = memory_expand n;
          n = n\<lparr>features := on_rows (kFeatureSize n) (\<lambda>rid row. row[index := mid ! rid]) (features n)\<rparr>
      in case memory_shrink n of
          None \<Rightarrow> None
        | Some n \<Rightarrow> Some (has_sibling (icontrol n) \<and> knum n - 1 = index, n))"

text \<open>\<open>root_remove\<close>: the new root if this one has no separator left.\<close>

definition root_remove :: "inode \<Rightarrow> ptr option \<times> inode" where
  "root_remove n =
     (if knum n = 0 then (Some (inext n), n\<lparr>icontrol := set_delete (icontrol n)\<rparr>) else (None, n))"

end
