(* ===== verification/InnerSearch.thy ===== *)
theory InnerSearch
  imports Inner
begin

text \<open>
  The search inside an inner node. The separators of a node are a strictly sorted list of byte
  strings; \<open>to_next\<close> and \<open>index_or_sibling\<close>, which compare one byte position of all separators
  at a time, compute the rank of the key in that list.
\<close>

section \<open>Lexicographic order of strings of one length\<close>

lemma append_less:
  fixes u w a b :: "'a::linorder list"
  assumes "length u = length w"
  shows "u @ a < w @ b \<longleftrightarrow> u < w \<or> u = w \<and> a < b"
  using assms by (induction u w rule: list_induct2) auto

lemma less_take:
  fixes a b :: "'a::linorder list"
  assumes "length a = length b"
  shows "a < b \<longleftrightarrow> take m a < take m b \<or> take m a = take m b \<and> drop m a < drop m b"
  using append_less[of "take m a" "take m b" "drop m a" "drop m b"] assms by simp

lemma less_nth:
  fixes a b :: "'a::linorder list"
  assumes "length a = length b" "m < length a" "take m a = take m b" "a ! m \<noteq> b ! m"
  shows "a < b \<longleftrightarrow> a ! m < b ! m"
proof -
  have "drop m a < drop m b \<longleftrightarrow> a ! m < b ! m"
    using assms by (simp add: Cons_nth_drop_Suc[symmetric])
  then show ?thesis using less_take[OF assms(1), of m] assms(3) by simp
qed

text \<open>Two strings that agree on a prefix lie on the same side of a string that differs there.\<close>

lemma less_same_side:
  fixes a b c :: "'a::linorder list"
  assumes "length a = length b" "length c = length b" "take m a = take m b" "take m c \<noteq> take m b"
  shows "a < c \<longleftrightarrow> b < c" "c < a \<longleftrightarrow> c < b"
  using less_take[of a c m] less_take[of b c m] less_take[of c a m] less_take[of c b m] assms by auto

section \<open>Separators and invariant\<close>

definition seps :: "inode \<Rightarrow> byte list list" where
  "seps n = map (read_sep n) [0..<knum n]"

definition sep_keys :: "inode \<Rightarrow> int list list" where
  "sep_keys n = map schars (seps n)"

text \<open>The sizes that the C++ types fix, for keys of \<open>F\<close> bytes.\<close>

definition inner_sized :: "nat \<Rightarrow> inode \<Rightarrow> bool" where
  "inner_sized F n \<longleftrightarrow> length (features n) = F \<and> list_all (\<lambda>row. length row = kInnerSize) (features n) \<and>
     length (ichildren n) = kInnerSize \<and> length (prefix n) = 8 \<and> 0 < F \<and> F \<le> 8"

definition inner_inv :: "nat \<Rightarrow> inode \<Rightarrow> bool" where
  "inner_inv F n \<longleftrightarrow> inner_sized F n \<and> \<not> ctl_is_leaf (icontrol n) \<and>
     knum n \<le> kInnerSize \<and> plen n \<le> F \<and> (knum n = 0 \<longrightarrow> plen n = 0) \<and>
     sorted_wrt (<) (sep_keys n)"

lemma inner_sizedD:
  assumes "inner_sized F n"
  shows "kFeatureSize n = F" "length (features n) = F" "rid < F \<Longrightarrow> length (features n ! rid) = 64"
    "length (ichildren n) = 64" "length (prefix n) = 8" "0 < F" "F \<le> 8"
  using assms by (auto simp: inner_sized_def kFeatureSize_def kInnerSize_def list_all_length)

lemma length_seps [simp]: "length (seps n) = knum n" "length (sep_keys n) = knum n"
  by (simp_all add: seps_def sep_keys_def)

lemma nth_seps [simp]: "i < knum n \<Longrightarrow> seps n ! i = read_sep n i"
  by (simp add: seps_def)

lemma nth_sep_keys [simp]: "i < knum n \<Longrightarrow> sep_keys n ! i = schars (read_sep n i)"
  by (simp add: sep_keys_def)

lemma length_read_sep [simp]: "length (read_sep n i) = kFeatureSize n"
  by (simp add: read_sep_def)

lemma nth_read_sep:
  "b < kFeatureSize n \<Longrightarrow>
   read_sep n i ! b = (if b < plen n then prefix n ! b else features n ! (b - plen n) ! i)"
  by (simp add: read_sep_def)

lemma take_schars: "take m (schars xs) = schars (take m xs)"
  by (simp add: schars_def take_map)

lemma take_Suc_eq:
  "take (Suc m) a = take (Suc m) b \<longleftrightarrow> take m a = take m b \<and> a ! m = b ! m"
  if "length a = length b" "m < length a"
  using that by (simp add: take_Suc_conv_app_nth)

section \<open>The search\<close>

lemma bit_inner_bitmap: "knum n \<le> 64 \<Longrightarrow> bit (inner_bitmap n) i \<longleftrightarrow> i < knum n"
proof -
  assume k: "knum n \<le> 64"
  have "inner_bitmap n = mask (knum n)"
    using k by (auto simp: inner_bitmap_def kInnerSize_def mask_eq_exp_minus_1 push_bit_eq_mult)
  then show ?thesis using k by (auto simp: bit_mask_iff)
qed

text \<open>
  The candidates after \<open>rid\<close> rows are the separators that agree with the key on all bytes so
  far. The loop stops with candidates left unless there are no separators, and if it stops
  early then no candidate agrees on the next byte.
\<close>

definition agree :: "inode \<Rightarrow> byte list \<Rightarrow> nat \<Rightarrow> nat \<Rightarrow> bool" where
  "agree n key m i \<longleftrightarrow> i < knum n \<and> take m (read_sep n i) = take m key"

lemma row_loop_spec:
  assumes sz: "inner_sized F n" and k: "knum n \<le> 64" "plen n \<le> F" "length key = F"
    and m: "\<And>i. bit m i \<longleftrightarrow> agree n key (plen n + rid) i" "rid + plen n \<le> F"
    and r: "row_loop n key rid m = (rid', m')"
  shows "rid' + plen n \<le> F \<and> (\<forall>i. bit m' i \<longleftrightarrow> agree n key (plen n + rid') i) \<and>
    (m \<noteq> 0 \<longrightarrow> m' \<noteq> 0) \<and>
    (rid' + plen n < F \<longrightarrow> (\<forall>i. \<not> agree n key (Suc (plen n + rid')) i))"
  using m r
proof (induction "F - rid" arbitrary: rid m rule: less_induct)
  case less
  note D = inner_sizedD[OF sz]
  show ?case
  proof (cases "rid + plen n < F")
    case True
    let ?mask = "inner_compare_equal (features n ! rid) (key ! (rid + plen n)) AND m"
    have b: "bit ?mask i \<longleftrightarrow> agree n key (Suc (plen n + rid)) i" for i
    proof -
      have "i < 64 \<Longrightarrow> bit (inner_compare_equal (features n ! rid) (key ! (rid + plen n))) i \<longleftrightarrow>
          features n ! rid ! i = key ! (rid + plen n)"
        using D(3)[of rid] True by (simp add: inner_compare_equal_def compare_equal_64_char bit_test_mask)
      moreover have "read_sep n i ! (plen n + rid) = features n ! rid ! i"
        using True D by (simp add: nth_read_sep)
      ultimately show ?thesis
        using less.prems(1)[of i] True k D(1)
        by (auto simp: bit_and_iff agree_def take_Suc_eq add.commute)
    qed
    show ?thesis
    proof (cases "?mask = 0")
      case True2: True
      then have "row_loop n key rid m = (rid, m)" using True D by (subst row_loop.simps) (simp add: Let_def)
      moreover have "\<not> agree n key (Suc (plen n + rid)) i" for i
        using b[of i] True2 by (metis bit_0_eq bot_apply bot_bool_def)
      ultimately show ?thesis using less.prems by auto
    next
      case False
      then have step: "row_loop n key rid m = row_loop n key (rid + 1) ?mask"
        using True D by (subst row_loop.simps) (simp add: Let_def)
      show ?thesis
        using less.hyps[of "rid + 1" ?mask] True b less.prems(2,3) step False by auto
    qed
  next
    case False
    then have "row_loop n key rid m = (rid, m)" using D by (subst row_loop.simps) simp
    then show ?thesis using less.prems False by auto
  qed
qed

text \<open>The candidates in the order of the separators, with the key placed among them.\<close>

lemma agree_keys:
  assumes "inner_sized F n" "length key = F" "i < knum n"
  shows "agree n key m i \<longleftrightarrow> take m (sep_keys n ! i) = take m (schars key)"
  using assms by (simp add: agree_def take_schars)

lemma sep_keys_len: "i < knum n \<Longrightarrow> length (sep_keys n ! i) = kFeatureSize n"
  by simp

lemma candidate_side:
  assumes inv: "inner_inv F n" and key: "length key = F" and j: "agree n key m j"
    and i: "i < knum n" "\<not> agree n key m i"
  shows "j < i \<Longrightarrow> schars key < sep_keys n ! i" "i < j \<Longrightarrow> sep_keys n ! i < schars key"
proof -
  have sz: "inner_sized F n" and s: "sorted_wrt (<) (sep_keys n)" using inv by (simp_all add: inner_inv_def)
  have jk: "j < knum n" using j by (simp add: agree_def)
  have len: "length (sep_keys n ! a) = length (schars key)" if "a < knum n" for a
    using that key inner_sizedD(1)[OF sz] by simp
  have t: "take m (sep_keys n ! j) = take m (schars key)" "take m (sep_keys n ! i) \<noteq> take m (schars key)"
    using agree_keys[OF sz key jk] agree_keys[OF sz key i(1)] i(2) j by auto
  note side = less_same_side[OF len[OF jk] len[OF i(1)] t]
  show "j < i \<Longrightarrow> schars key < sep_keys n ! i"
    using side(1) sorted_wrt_nth_less[OF s, of j i] i(1) by simp
  show "i < j \<Longrightarrow> sep_keys n ! i < schars key"
    using side(2) sorted_wrt_nth_less[OF s, of i j] jk by simp
qed

lemma candidate_byte:
  assumes inv: "inner_inv F n" and key: "length key = F" and i: "agree n key m i" "\<not> agree n key (Suc m) i"
    and m: "m < F" "plen n \<le> m"
  shows "sep_keys n ! i < schars key \<longleftrightarrow> sint (features n ! (m - plen n) ! i) < sint (key ! m)"
    "sep_keys n ! i \<noteq> schars key"
proof -
  have sz: "inner_sized F n" using inv by (simp add: inner_inv_def)
  have ik: "i < knum n" using i by (simp add: agree_def)
  note F = inner_sizedD(1)[OF sz]
  have ne: "read_sep n i ! m \<noteq> key ! m"
    using i m key F by (auto simp: agree_def take_Suc_eq)
  have r: "read_sep n i ! m = features n ! (m - plen n) ! i" using m F by (simp add: nth_read_sep)
  have "take m (sep_keys n ! i) = take m (schars key)" using agree_keys[OF sz key ik] i(1) by blast
  moreover have "sep_keys n ! i ! m \<noteq> schars key ! m" using ne m key F ik by (simp add: sint_inject)
  ultimately have "sep_keys n ! i < schars key \<longleftrightarrow> sep_keys n ! i ! m < schars key ! m"
    using m key F ik by (intro less_nth) auto
  then show "sep_keys n ! i < schars key \<longleftrightarrow> sint (features n ! (m - plen n) ! i) < sint (key ! m)"
    using m key F ik r by simp
  show "sep_keys n ! i \<noteq> schars key" using ne ik by auto
qed

lemma sep_keys_mono:
  assumes "inner_inv F n" "i \<le> j" "j < knum n"
  shows "sep_keys n ! i \<le> sep_keys n ! j"
  using sorted_wrt_nth_less[of "(<)" "sep_keys n" i j] assms by (cases "i = j") (auto simp: inner_inv_def)

text \<open>The rank from the greatest candidate below the key, or the least candidate if there is none.\<close>

lemma rank_above:
  assumes inv: "inner_inv F n" and key: "length key = F" and j: "agree n key m j" "sep_keys n ! j < schars key"
    and above: "\<And>i. j < i \<Longrightarrow> agree n key m i \<Longrightarrow> \<not> sep_keys n ! i < schars key"
  shows "rank (schars key) (sep_keys n) = Suc j"
proof (rule rank_unique)
  have jk: "j < knum n" using j by (simp add: agree_def)
  then show "Suc j \<le> length (sep_keys n)" by simp
  show "sep_keys n ! i < schars key" if "i < Suc j" for i
    using sep_keys_mono[OF inv, of i j] that jk j(2) by simp
  show "schars key \<le> sep_keys n ! i" if "Suc j \<le> i" "i < length (sep_keys n)" for i
  proof (cases "agree n key m i")
    case True
    then show ?thesis using above[of i] that by simp
  next
    case False
    then show ?thesis using candidate_side(1)[OF inv key j(1), of i] that by simp
  qed
qed

lemma rank_below:
  assumes inv: "inner_inv F n" and key: "length key = F" and j: "agree n key m j" "\<not> sep_keys n ! j < schars key"
    and below: "\<And>i. i < j \<Longrightarrow> \<not> agree n key m i"
  shows "rank (schars key) (sep_keys n) = j"
proof (rule rank_unique)
  have jk: "j < knum n" using j by (simp add: agree_def)
  then show "j \<le> length (sep_keys n)" by simp
  show "sep_keys n ! i < schars key" if "i < j" for i
    using candidate_side(2)[OF inv key j(1), of i] below[OF that] that jk by simp
  show "schars key \<le> sep_keys n ! i" if "j \<le> i" "i < length (sep_keys n)" for i
    using sep_keys_mono[OF inv, of j i] that j(2) by simp
qed

lemma search_index_rank:
  assumes inv: "inner_inv F n" and key: "length key = F"
    and pre: "\<And>i. i < knum n \<Longrightarrow> agree n key (plen n) i"
  shows "search_index n key = Some (int (rank (schars key) (sep_keys n)))"
proof -
  have sz: "inner_sized F n" and k: "knum n \<le> 64" "plen n \<le> F" "knum n = 0 \<longrightarrow> plen n = 0"
    using inv by (auto simp: inner_inv_def kInnerSize_def)
  note D = inner_sizedD[OF sz]
  obtain rid m where r: "row_loop n key 0 (inner_bitmap n) = (rid, m)" by (rule prod.exhaust)
  have b0: "bit (inner_bitmap n) i \<longleftrightarrow> agree n key (plen n + 0) i" for i
    using pre[of i] bit_inner_bitmap[OF k(1), of i] by (auto simp: agree_def)
  have spec: "rid + plen n \<le> F" "\<And>i. bit m i \<longleftrightarrow> agree n key (plen n + rid) i"
    "inner_bitmap n \<noteq> 0 \<Longrightarrow> m \<noteq> 0"
    "rid + plen n < F \<Longrightarrow> \<not> agree n key (Suc (plen n + rid)) i" for i
    using row_loop_spec[OF sz k(1,2) key b0 _ r] k(2) by auto
  have bz: "inner_bitmap n = 0 \<Longrightarrow> knum n = 0"
    using bit_inner_bitmap[OF k(1), of 0] by (cases "knum n") auto
  have least: "rank (schars key) (sep_keys n) = nat (index_least1 m)"
    if "m \<noteq> 0" "\<And>i. bit m i \<Longrightarrow> \<not> sep_keys n ! i < schars key"
    using index_least1_nat[OF that(1)] that(2) spec(2) by (intro rank_below[OF inv key]) auto
  show ?thesis
  proof (cases "rid + plen n < F")
    case True
    let ?mask = "inner_compare_less (features n ! rid) (key ! (rid + plen n)) AND m"
    have lm: "bit ?mask i \<longleftrightarrow> bit m i \<and> sep_keys n ! i < schars key" for i
    proof -
      have "bit m i \<Longrightarrow> sep_keys n ! i < schars key \<longleftrightarrow> sint (features n ! rid ! i) < sint (key ! (rid + plen n))"
        using candidate_byte(1)[OF inv key, of "plen n + rid" i] spec(2,4) True by (simp add: add.commute)
      moreover have "bit m i \<Longrightarrow> i < 64" using bit_imp_le_length[of m i] by simp
      ultimately show ?thesis
        using D(3)[of rid] True
        by (auto simp: bit_and_iff inner_compare_less_def compare_less_64_char bit_test_mask)
    qed
    show ?thesis
    proof (cases "?mask = 0")
      case mask0: True
      then have none: "\<not> sep_keys n ! i < schars key" if "bit m i" for i using lm[of i] that by simp
      have "knum n = 0 \<Longrightarrow> rank (schars key) (sep_keys n) = 0" by (simp add: sep_keys_def seps_def)
      moreover have "m = 0 \<Longrightarrow> knum n = 0" using spec(3) bz by blast
      ultimately have "rank (schars key) (sep_keys n) = (if m = 0 then 0 else nat (index_least1 m))"
        using least none by auto
      moreover have "m \<noteq> 0 \<Longrightarrow> index_least1 m = int (nat (index_least1 m))" by (rule index_least1_nat)
      ultimately show ?thesis using True mask0 r D by (auto simp: search_index_def)
    next
      case mask: False
      then obtain j where j: "bit ?mask j" "\<forall>i > j. \<not> bit ?mask i" "j < 64"
        by (rule top_bit_exists) auto
      have "rank (schars key) (sep_keys n) = Suc j"
        using j lm spec(2) by (intro rank_above[OF inv key, of "plen n + rid"]) auto
      moreover have "countl_zero ?mask = Some (64 - Suc j)" using countl_zero_iff[OF j(1,2)] by simp
      ultimately show ?thesis using True mask r D j(3) by (simp add: search_index_def kBitCnt_def)
    qed
  next
    case False
    then have F: "plen n + rid = F" using spec(1) by simp
    have "m \<noteq> 0"
    proof
      assume "m = 0"
      then have z: "inner_bitmap n = 0" using spec(3) by blast
      then have "plen n = 0" using bz k(3) by blast
      then have "rid = 0" using r z D(1,6) row_loop.simps[of n key 0 "inner_bitmap n"] by simp
      then show False using F \<open>plen n = 0\<close> D(6) by simp
    qed
    moreover have "\<not> sep_keys n ! i < schars key" if "bit m i" for i
      using that spec(2)[of i] F key D(1) by (auto simp: agree_def)
    ultimately have "rank (schars key) (sep_keys n) = nat (index_least1 m)" by (rule least)
    then show ?thesis
      using False r D index_least1_nat(3)[OF \<open>m \<noteq> 0\<close>] by (simp add: search_index_def)
  qed
qed

section \<open>The comparison with the prefix\<close>

lemma takeWhile_upt_stop:
  assumes "p = length (takeWhile P [0..<m])"
  shows "p \<le> m" "\<And>i. i < p \<Longrightarrow> P i" "p < m \<Longrightarrow> \<not> P p"
proof -
  show "p \<le> m" using assms length_takeWhile_le[of P "[0..<m]"] by simp
  show "P i" if "i < p" for i
  proof -
    have "[0..<m] ! i \<in> set (takeWhile P [0..<m])" using that assms by (metis nth_mem takeWhile_nth)
    moreover have "i < m" using that assms length_takeWhile_le[of P "[0..<m]"] by simp
    ultimately show ?thesis by (metis add_0 nth_upt set_takeWhileD)
  qed
  show "p < m \<Longrightarrow> \<not> P p" using assms nth_length_takeWhile[of P "[0..<m]"] by simp
qed

lemma prefix_pos_spec:
  "prefix_pos key n \<le> plen n" "i < prefix_pos key n \<Longrightarrow> key ! i = prefix n ! i"
  "prefix_pos key n < plen n \<Longrightarrow> key ! prefix_pos key n \<noteq> prefix n ! prefix_pos key n"
  using takeWhile_upt_stop[OF prefix_pos_def[of key n]] by auto

text \<open>
  A key that differs from the prefix lies on one side of all separators; one that has the
  prefix has all separators as candidates.
\<close>

lemma prefix_side:
  assumes inv: "inner_inv F n" and key: "length key = F" and p: "prefix_pos key n < plen n"
  shows "key ! prefix_pos key n <s prefix n ! prefix_pos key n \<Longrightarrow> rank (schars key) (sep_keys n) = 0"
    "\<not> key ! prefix_pos key n <s prefix n ! prefix_pos key n \<Longrightarrow> rank (schars key) (sep_keys n) = knum n"
proof -
  let ?p = "prefix_pos key n"
  have sz: "inner_sized F n" and pl: "plen n \<le> F" using inv by (simp_all add: inner_inv_def)
  note F = inner_sizedD(1)[OF sz]
  have less: "sep_keys n ! i < schars key \<longleftrightarrow> sint (prefix n ! ?p) < sint (key ! ?p)"
    "sep_keys n ! i \<noteq> schars key" if i: "i < knum n" for i
  proof -
    have "take ?p (read_sep n i) = take ?p key"
      using prefix_pos_spec(2)[of _ key n] p pl key F by (intro nth_equalityI) (auto simp: nth_read_sep)
    then have t: "take ?p (sep_keys n ! i) = take ?p (schars key)" using i by (simp add: take_schars)
    have r: "read_sep n i ! ?p = prefix n ! ?p" using p pl F by (simp add: nth_read_sep)
    then have ne: "sep_keys n ! i ! ?p \<noteq> schars key ! ?p"
      using prefix_pos_spec(3)[OF p] i p pl key F by (auto simp: sint_inject)
    then have "sep_keys n ! i < schars key \<longleftrightarrow> sep_keys n ! i ! ?p < schars key ! ?p"
      using p pl key F i t by (intro less_nth) auto
    then show "sep_keys n ! i < schars key \<longleftrightarrow> sint (prefix n ! ?p) < sint (key ! ?p)"
      using i r p pl key F by simp
    show "sep_keys n ! i \<noteq> schars key" using ne by auto
  qed
  have ne: "sint (prefix n ! ?p) \<noteq> sint (key ! ?p)" using prefix_pos_spec(3)[OF p] by (simp add: sint_inject)
  show "rank (schars key) (sep_keys n) = 0" if "key ! ?p <s prefix n ! ?p"
    using that less(1) by (intro rank_unique) (auto simp: word_sless_alt not_less[symmetric])
  show "rank (schars key) (sep_keys n) = knum n" if "\<not> key ! ?p <s prefix n ! ?p"
    using that less(1) ne by (intro rank_unique) (auto simp: word_sless_alt)
qed

lemma prefix_all:
  assumes inv: "inner_inv F n" and key: "length key = F" and p: "prefix_pos key n = plen n" and i: "i < knum n"
  shows "agree n key (plen n) i"
proof -
  have sz: "inner_sized F n" and pl: "plen n \<le> F" using inv by (simp_all add: inner_inv_def)
  have "take (plen n) (read_sep n i) = take (plen n) key"
    using prefix_pos_spec(2)[of _ key n] p pl key inner_sizedD(1)[OF sz]
    by (intro nth_equalityI) (auto simp: nth_read_sep)
  then show ?thesis using i by (simp add: agree_def)
qed

section \<open>Results\<close>

text \<open>
  Where a key goes from a node: the child at its rank, or \<open>next\<close> (the sibling, or the last child of
  the rightmost node) when all separators are below it.
\<close>

definition route :: "inode \<Rightarrow> byte list \<Rightarrow> bool \<times> ptr" where
  "route n key =
     (let p = rank (schars key) (sep_keys n)
      in if p = knum n then (has_sibling (icontrol n), inext n) else (False, ichildren n ! p))"

lemma to_next_route:
  assumes inv: "inner_inv F n" and key: "length key = F"
    and c: "\<not> deleted (icontrol n)" "\<not> locked (icontrol n)"
  shows "to_next key n = Some (route n key)"
proof -
  let ?p = "rank (schars key) (sep_keys n)"
  have br: "begin_read (icontrol n) = Some (load_version (icontrol n))"
    "end_read (icontrol n) (load_version (icontrol n)) = Some True"
    using c by (simp_all add: begin_read_iff end_read_iff)
  have kn: "?p \<le> knum n" using rank_le[of "schars key" "sep_keys n"] by simp
  have k64: "knum n \<le> 64" using inv by (simp add: inner_inv_def kInnerSize_def)
  show ?thesis
  proof (cases "prefix_pos key n = plen n")
    case True
    have "search_index n key = Some (int ?p)"
      using prefix_all[OF inv key True] by (rule search_index_rank[OF inv key])
    then show ?thesis
      using True br c kn k64 by (auto simp: to_next_def to_next_phase1_def route_def kInnerSize_def Let_def)
  next
    case False
    then have lt: "prefix_pos key n < plen n" using prefix_pos_spec(1)[of key n] by simp
    have "knum n \<noteq> 0" using inv lt by (auto simp: inner_inv_def)
    then show ?thesis
      using False br c prefix_side[OF inv key lt]
      by (auto simp: to_next_def to_next_phase1_def route_def Let_def)
  qed
qed

lemma index_or_sibling_rank:
  assumes inv: "inner_inv F n" and key: "length key = F" and c: "\<not> deleted (icontrol n)"
  shows "index_or_sibling key n =
    (let p = rank (schars key) (sep_keys n)
     in Some (if p = knum n \<and> has_sibling (icontrol n) \<and> 0 < knum n then Inl (inext n) else Inr (int p)))"
proof -
  let ?p = "rank (schars key) (sep_keys n)"
  have k: "knum n \<le> 64" using inv by (simp add: inner_inv_def kInnerSize_def)
  show ?thesis
  proof (cases "prefix_pos key n = plen n")
    case True
    have s: "search_index n key = Some (int ?p)"
      using prefix_all[OF inv key True] by (rule search_index_rank[OF inv key])
    obtain rid m where r: "row_loop n key 0 (inner_bitmap n) = (rid, m)" by (rule prod.exhaust)
    have sz: "inner_sized F n" and pl: "plen n \<le> F" using inv by (simp_all add: inner_inv_def)
    have "bit (inner_bitmap n) i \<longleftrightarrow> agree n key (plen n + 0) i" for i
      using prefix_all[OF inv key True, of i] bit_inner_bitmap[OF k, of i] by (auto simp: agree_def)
    then have spec: "\<And>i. bit m i \<Longrightarrow> i < knum n" "inner_bitmap n \<noteq> 0 \<Longrightarrow> m \<noteq> 0"
      using row_loop_spec[OF sz k pl key _ _ r] pl by (auto simp: agree_def)
    have "index_least1 m < int (knum n)" if "m \<noteq> 0"
      using index_least1_nat(1,3)[OF that] spec(1) by fastforce
    moreover have "0 < knum n" if "m \<noteq> 0"
      using index_least1_nat(1)[OF that] spec(1) by fastforce
    moreover have "knum n = 0" if "m = 0"
    proof -
      have "inner_bitmap n = 0" using spec(2) that by blast
      then show ?thesis using bit_inner_bitmap[OF k, of 0] by simp
    qed
    ultimately show ?thesis
      using True c s r
      by (auto simp: index_or_sibling_def index_phase1_def search_index_def Let_def split: if_splits option.splits)
  next
    case False
    then have lt: "prefix_pos key n < plen n" using prefix_pos_spec(1)[of key n] by simp
    have "knum n \<noteq> 0" using inv lt by (auto simp: inner_inv_def)
    then show ?thesis
      using False c prefix_side[OF inv key lt]
      by (auto simp: index_or_sibling_def index_phase1_def Let_def)
  qed
qed

end
