(* ===== verification/InnerInsert.thy ===== *)
theory InnerInsert
  imports InnerSearch
begin

text \<open>
  Insertion into an inner node. The byte matrix of the separators is moved, expanded and
  compressed by block copies; the lemmas here show that each of these steps is an operation on
  the list of separators: \<open>key_insert\<close> inserts at an index, expanding and shrinking the
  prefix change nothing, and a split cuts the list with the new separator in two halves.
\<close>

section \<open>Element-wise copies\<close>

lemma memmove64_forward:
  assumes "d \<le> s" "d + n \<le> length a" "s + n \<le> length a"
  shows "memmove64 s d n True a = memmove_in d s n a"
  using assms(2,3)
proof (induction n)
  case 0
  show ?case by (rule nth_equalityI) (auto simp: memmove64_def)
next
  case (Suc n)
  let ?b = "memmove_in d s n a"
  have "memmove64 s d (Suc n) True a = ?b[d + n := ?b ! (s + n)]"
    using Suc by (simp add: memmove64_def)
  also have "\<dots> = memmove_in d s (Suc n) a"
    using Suc.prems assms(1) by (intro nth_equalityI) (auto simp: nth_list_update)
  finally show ?case .
qed

lemma memmove64_backward:
  assumes "s \<le> d" "d + n \<le> length a" "s + n \<le> length a"
  shows "memmove64 s d n False a = memmove_in d s n a"
  using assms(2,3)
proof (induction n arbitrary: a)
  case 0
  show ?case by (rule nth_equalityI) (auto simp: memmove64_def)
next
  case (Suc n)
  let ?b = "a[d + n := a ! (s + n)]"
  have "memmove64 s d (Suc n) False a = memmove64 s d n False ?b" by (simp add: memmove64_def)
  also have "\<dots> = memmove_in d s n ?b" using Suc by simp
  also have "\<dots> = memmove_in d s (Suc n) a"
    using Suc.prems assms(1) by (intro nth_equalityI) (auto simp: nth_list_update)
  finally show ?case .
qed

lemma memmove64_to_memcpy:
  assumes "d + n \<le> length dst"
  shows "memmove64_to src s d n dst = memcpy_at d s n src dst"
  using assms
proof (induction n)
  case 0
  show ?case by (rule nth_equalityI) (auto simp: memmove64_to_def)
next
  case (Suc n)
  have "memmove64_to src s d (Suc n) dst = (memcpy_at d s n src dst)[d + n := src ! (s + n)]"
    using Suc by (simp add: memmove64_to_def)
  also have "\<dots> = memcpy_at d s (Suc n) src dst"
    using Suc.prems by (intro nth_equalityI) (auto simp: nth_list_update)
  finally show ?case .
qed

lemma length_memmove64 [simp]: "length (memmove64 s d n fw a) = length a"
proof -
  have "length (fold (\<lambda>idx a. a[d + idx := a ! (s + idx)]) is a) = length a" for "is"
    by (induction "is" arbitrary: a) auto
  then show ?thesis by (simp add: memmove64_def)
qed

lemma length_memmove64_to [simp]: "length (memmove64_to src s d n a) = length a"
proof -
  have "length (fold (\<lambda>idx a. a[d + idx := src ! (s + idx)]) is a) = length a" for "is"
    by (induction "is" arbitrary: a) auto
  then show ?thesis by (simp add: memmove64_to_def)
qed

section \<open>Rows\<close>

lemma length_on_rows [simp]: "length (on_rows m f rows) = length rows"
  by (simp add: on_rows_def)

lemma nth_on_rows [simp]:
  "rid < length rows \<Longrightarrow> on_rows m f rows ! rid = (if rid < m then f rid (rows ! rid) else rows ! rid)"
  by (simp add: on_rows_def)

lemma inner_sized_features:
  assumes "inner_sized F n" "length rows = F" "\<And>rid. rid < F \<Longrightarrow> length (rows ! rid) = 64"
  shows "inner_sized F (n\<lparr>features := rows\<rparr>)"
  using assms by (auto simp: inner_sized_def list_all_length kInnerSize_def)

lemma inner_sized_update [simp]:
  "inner_sized F (n\<lparr>knum := k\<rparr>) = inner_sized F n" "inner_sized F (n\<lparr>plen := k\<rparr>) = inner_sized F n"
  "inner_sized F (n\<lparr>icontrol := c\<rparr>) = inner_sized F n" "inner_sized F (n\<lparr>inext := p\<rparr>) = inner_sized F n"
  by (simp_all add: inner_sized_def)

lemma inner_sized_arrays:
  "inner_sized F n \<Longrightarrow> length q = 8 \<Longrightarrow> inner_sized F (n\<lparr>prefix := q\<rparr>)"
  "inner_sized F n \<Longrightarrow> length cs = 64 \<Longrightarrow> inner_sized F (n\<lparr>ichildren := cs\<rparr>)"
  by (simp_all add: inner_sized_def kInnerSize_def)

lemma read_sep_eqI:
  assumes "kFeatureSize n = length s"
    and "\<And>b. b < length s \<Longrightarrow> (if b < plen n then prefix n ! b else features n ! (b - plen n) ! i) = s ! b"
  shows "read_sep n i = s"
  using assms by (intro nth_equalityI) (auto simp: nth_read_sep)

lemma seps_eqI:
  assumes "knum n = length xs" "\<And>i. i < length xs \<Longrightarrow> read_sep n i = xs ! i"
  shows "seps n = xs"
  using assms by (intro nth_equalityI) auto

section \<open>Expanding and shrinking the prefix\<close>

text \<open>Separator \<open>i\<close> of an expanded node: its byte in every row.\<close>

definition row_sep :: "inode \<Rightarrow> nat \<Rightarrow> byte list" where
  "row_sep n i = map (\<lambda>rid. features n ! rid ! i) [0..<kFeatureSize n]"

lemma length_row_sep [simp]: "length (row_sep n i) = kFeatureSize n"
  by (simp add: row_sep_def)

lemma nth_row_sep [simp]: "b < kFeatureSize n \<Longrightarrow> row_sep n i ! b = features n ! b ! i"
  by (simp add: row_sep_def)

lemma memory_expand_fields [simp]:
  "knum (memory_expand n) = knum n" "plen (memory_expand n) = plen n" "prefix (memory_expand n) = prefix n"
  "inext (memory_expand n) = inext n" "icontrol (memory_expand n) = icontrol n"
  "ichildren (memory_expand n) = ichildren n" "kFeatureSize (memory_expand n) = kFeatureSize n"
  by (simp_all add: memory_expand_def kFeatureSize_def)

lemma memory_expand_spec:
  assumes sz: "inner_sized F n" and pl: "plen n \<le> F"
  shows "inner_sized F (memory_expand n)" "i < 64 \<Longrightarrow> row_sep (memory_expand n) i = read_sep n i"
proof -
  note D = inner_sizedD[OF sz]
  have cell: "features (memory_expand n) ! b = (if b < plen n
      then memset_n (prefix n ! b) 64 (memmove_in (plen n) 0 (F - plen n) (features n) ! b)
      else features n ! (b - plen n))" if "b < F" for b
    using that D by (simp add: memory_expand_def kInnerSize_def)
  have len: "length (memmove_in (plen n) 0 (F - plen n) (features n) ! b) = 64" if "b < F" for b
    using that D pl by (simp add: D(3))
  show "inner_sized F (memory_expand n)"
    unfolding memory_expand_def using D len pl
    by (intro inner_sized_features[OF sz]) (auto simp: D(3) kInnerSize_def)
  show "row_sep (memory_expand n) i = read_sep n i" if i: "i < 64"
  proof (rule nth_equalityI)
    fix b assume "b < length (row_sep (memory_expand n) i)"
    then have b: "b < F" using D by simp
    have "features (memory_expand n) ! b ! i = read_sep n i ! b"
      using cell[OF b] len[OF b] i b D pl by (simp add: nth_read_sep)
    then show "row_sep (memory_expand n) i ! b = read_sep n i ! b" using b D by simp
  qed simp
qed

text \<open>Between two strings with a common prefix all strings have that prefix.\<close>

lemma between_prefix:
  fixes a x c :: "'a::linorder list"
  assumes "length a = length x" "length c = length x" "a \<le> x" "x \<le> c" "take p a = take p c"
  shows "take p x = take p a"
proof (rule ccontr)
  assume ne: "take p x \<noteq> take p a"
  have l: "length c = length a" "length x = length a" using assms(1,2) by simp_all
  have "c < x \<longleftrightarrow> a < x" by (rule less_same_side(1)[OF l assms(5)[symmetric] ne])
  moreover have "a \<noteq> x" using ne by auto
  ultimately show False using assms(3,4) by (simp add: not_less[symmetric])
qed

lemma equal_rows_spec:
  "equal_rows m l rows \<le> m" "i < equal_rows m l rows \<Longrightarrow> rows ! i ! 0 = rows ! i ! l"
  using takeWhile_upt_stop[OF equal_rows_def[of m l rows]] by auto

lemma memory_shrink_spec:
  assumes sz: "inner_sized F n" and k: "0 < knum n" "knum n \<le> 64"
    and sorted: "sorted_wrt (<) (map (schars \<circ> row_sep n) [0..<knum n])"
  shows "\<exists>n'. memory_shrink n = Some n' \<and> inner_sized F n' \<and> plen n' \<le> F \<and> knum n' = knum n \<and>
    inext n' = inext n \<and> icontrol n' = icontrol n \<and> ichildren n' = ichildren n \<and>
    seps n' = map (row_sep n) [0..<knum n]"
proof -
  note D = inner_sizedD[OF sz]
  define p where "p = equal_rows F (knum n - 1) (features n)"
  have p: "p \<le> F" "\<And>b. b < p \<Longrightarrow> features n ! b ! 0 = features n ! b ! (knum n - 1)"
    using equal_rows_spec[where m = F and l = "knum n - 1" and rows = "features n"] by (auto simp: p_def)
  define n' where "n' = n\<lparr>prefix := memcpy_at 0 0 (min (p + 1) F) (map (\<lambda>row. row ! 0) (features n)) (prefix n),
     plen := p, features := memmove_in 0 p (F - p) (features n)\<rparr>"
  have eq: "memory_shrink n = Some n'"
    using k D(1) by (simp add: memory_shrink_def n'_def p_def Let_def)
  have F': "kFeatureSize n' = F" using D by (simp add: n'_def kFeatureSize_def)
  have all: "features n ! b ! i = features n ! b ! 0" if b: "b < p" and i: "i < knum n" for b i
  proof -
    let ?s = "\<lambda>i. schars (row_sep n i)"
    have le: "?s i \<le> ?s j" if "i \<le> j" "j < knum n" for i j
      using sorted_wrt_nth_less[OF sorted, of i j] that by (cases "i = j") auto
    have "take p (row_sep n 0) = take p (row_sep n (knum n - 1))"
      using p D(1) by (intro nth_equalityI) auto
    then have t: "take p (?s 0) = take p (?s (knum n - 1))" by (simp add: take_schars)
    have "?s 0 \<le> ?s i" "?s i \<le> ?s (knum n - 1)" using le[of 0 i] le[of i "knum n - 1"] i by simp_all
    then have "take p (?s i) = take p (?s 0)" by (intro between_prefix[OF _ _ _ _ t]) simp_all
    then have "take p (row_sep n i) ! b = take p (row_sep n 0) ! b" by (simp add: take_schars)
    then show ?thesis using b p(1) D(1) by simp
  qed
  have "read_sep n' i = row_sep n i" if i: "i < knum n" for i
  proof (rule read_sep_eqI)
    fix b assume "b < length (row_sep n i)"
    then have b: "b < F" using D(1) by simp
    show "(if b < plen n' then prefix n' ! b else features n' ! (b - plen n') ! i) = row_sep n i ! b"
      using b i all[of b i] D p(1) by (auto simp: n'_def)
  qed (simp add: F' D(1))
  then have "seps n' = map (row_sep n) [0..<knum n]" by (intro seps_eqI) (auto simp: n'_def)
  moreover have "inner_sized F n'"
  proof -
    have "inner_sized F (n\<lparr>features := memmove_in 0 p (F - p) (features n)\<rparr>)"
      using D by (intro inner_sized_features[OF sz]) (auto simp: D(3))
    then have "inner_sized F (n\<lparr>features := memmove_in 0 p (F - p) (features n),
        prefix := memcpy_at 0 0 (min (p + 1) F) (map (\<lambda>row. row ! 0) (features n)) (prefix n)\<rparr>)"
      by (rule inner_sized_arrays) (simp add: D)
    then show ?thesis by (simp add: n'_def inner_sized_def)
  qed
  ultimately show ?thesis using eq p(1) by (intro exI[of _ n']) (simp add: n'_def)
qed

section \<open>Inserting a separator\<close>

definition insertable :: "nat \<Rightarrow> byte list \<Rightarrow> nat \<Rightarrow> inode \<Rightarrow> bool" where
  "insertable F mid index n \<longleftrightarrow> length mid = F \<and> index \<le> knum n \<and>
     sorted_wrt (<) (insert_at index (schars mid) (sep_keys n))"

lemma insertable_rank:
  assumes "inner_inv F n" "length mid = F" "schars mid \<notin> set (sep_keys n)"
  shows "insertable F mid (rank (schars mid) (sep_keys n)) n"
  using assms sorted_insert_at[of "sep_keys n" "schars mid"] rank_le[of "schars mid" "sep_keys n"]
  by (simp add: insertable_def inner_inv_def)

lemma read_sep_prefix:
  assumes "inner_sized F n" "plen n \<le> F"
  shows "take (plen n) (read_sep n i) = take (plen n) (prefix n)"
  using assms inner_sizedD[OF assms(1)] by (intro nth_equalityI) (auto simp: nth_read_sep)

text \<open>A separator that goes between two others has their common prefix.\<close>

lemma insertable_middle:
  assumes inv: "inner_inv F n" and ins: "insertable F mid index n" and i: "0 < index" "index < knum n"
  shows "take (plen n) mid = take (plen n) (prefix n)"
proof -
  have sz: "inner_sized F n" and pl: "plen n \<le> F" using inv by (simp_all add: inner_inv_def)
  have len: "length mid = F" "index \<le> knum n" and s: "sorted_wrt (<) (insert_at index (schars mid) (sep_keys n))"
    using ins by (simp_all add: insertable_def)
  note F = inner_sizedD(1)[OF sz]
  have "sep_keys n ! (index - 1) < schars mid" "schars mid < sep_keys n ! index"
    using sorted_wrt_nth_less[OF s, of "index - 1" index] sorted_wrt_nth_less[OF s, of index "Suc index"] i
    by (simp_all add: nth_insert_at del: nth_sep_keys)
  then have b: "schars (read_sep n (index - 1)) \<le> schars mid" "schars mid \<le> schars (read_sep n index)"
    using i by simp_all
  have t: "take (plen n) (schars (read_sep n (index - 1))) = take (plen n) (schars (read_sep n index))"
    using read_sep_prefix[OF sz pl] by (simp add: take_schars)
  have "take (plen n) (schars mid) = take (plen n) (schars (read_sep n (index - 1)))"
    using len(1) F by (intro between_prefix[OF _ _ b t]) simp_all
  then show ?thesis using read_sep_prefix[OF sz pl] by (simp add: take_schars)
qed

lemma prefix_pos_full: "prefix_pos mid n = plen n \<longleftrightarrow> (\<forall>b < plen n. mid ! b = prefix n ! b)"
  using prefix_pos_spec[where key = mid and n = n] by (metis le_neq_implies_less)

lemma key_insert_fields [simp]:
  "knum (key_insert mid i n) = knum n" "icontrol (key_insert mid i n) = icontrol n"
  "inext (key_insert mid i n) = inext n" "ichildren (key_insert mid i n) = ichildren n"
  by (simp_all add: key_insert_def Let_def)

text \<open>The node after the loop of \<open>key_insert\<close> that makes room in every row.\<close>

definition rows_inserted :: "byte list \<Rightarrow> nat \<Rightarrow> inode \<Rightarrow> inode" where
  "rows_inserted mid index n =
     n\<lparr>features := on_rows (kFeatureSize n - plen n)
        (\<lambda>rid row. (memmove_in (index + 1) index (knum n - index) row)[index := mid ! (rid + plen n)])
        (features n)\<rparr>"

lemma rows_inserted_fields [simp]:
  "knum (rows_inserted mid i n) = knum n" "plen (rows_inserted mid i n) = plen n"
  "prefix (rows_inserted mid i n) = prefix n" "kFeatureSize (rows_inserted mid i n) = kFeatureSize n"
  "prefix_pos key (rows_inserted mid i n) = prefix_pos key n"
  by (simp_all add: rows_inserted_def kFeatureSize_def prefix_pos_def)

lemma rows_inserted_sized: "inner_sized F n \<Longrightarrow> inner_sized F (rows_inserted mid i n)"
  unfolding rows_inserted_def
  by (rule inner_sized_features) (simp_all add: inner_sizedD(2,3))

lemma rows_inserted_cell:
  assumes sz: "inner_sized F n" and i: "index \<le> knum n" "knum n < 64" "i \<le> knum n" and r: "rid < F - plen n"
  shows "features (rows_inserted mid index n) ! rid ! i =
    (if i < index then features n ! rid ! i else if i = index then mid ! (rid + plen n)
     else features n ! rid ! (i - 1))"
  using inner_sizedD[OF sz] i r by (auto simp: rows_inserted_def nth_list_update)

text \<open>Without prefix reduction, the new separator has the prefix of the node.\<close>

lemma rows_inserted_seps:
  assumes sz: "inner_sized F n" and k: "knum n < 64" "plen n \<le> F" and len: "length mid = F" "index \<le> knum n"
    and pre: "\<And>b. b < plen n \<Longrightarrow> mid ! b = prefix n ! b"
  shows "seps ((rows_inserted mid index n)\<lparr>knum := Suc (knum n)\<rparr>) = insert_at index mid (seps n)"
proof (rule seps_eqI)
  let ?n = "(rows_inserted mid index n)\<lparr>knum := Suc (knum n)\<rparr>"
  note D = inner_sizedD[OF sz]
  have F: "kFeatureSize ?n = F" using D by (simp add: rows_inserted_def kFeatureSize_def)
  show "knum ?n = length (insert_at index mid (seps n))" using len by simp
  fix i assume "i < length (insert_at index mid (seps n))"
  then have i: "i \<le> knum n" using len by simp
  show "read_sep ?n i = insert_at index mid (seps n) ! i"
  proof (rule read_sep_eqI)
    show "kFeatureSize ?n = length (insert_at index mid (seps n) ! i)"
      using F D i len by (auto simp: nth_insert_at)
    fix b assume "b < length (insert_at index mid (seps n) ! i)"
    then have b: "b < F" using D i len by (auto simp: nth_insert_at split: if_splits)
    show "(if b < plen ?n then prefix ?n ! b else features ?n ! (b - plen ?n) ! i) =
        insert_at index mid (seps n) ! i ! b"
      using b i len pre[of b] D(1) rows_inserted_cell[OF sz len(2) k(1) i, of "b - plen n" mid]
      by (auto simp: nth_insert_at nth_read_sep)
  qed
qed

text \<open>The node after a prefix reduction to \<open>pid\<close> bytes.\<close>

definition prefix_reduced :: "byte list \<Rightarrow> nat \<Rightarrow> nat \<Rightarrow> inode \<Rightarrow> inode" where
  "prefix_reduced mid index pid n =
     n\<lparr>features := on_rows (plen n - pid)
        (\<lambda>rid row. (memset_n (prefix n ! (pid + rid)) (knum n + 1) row)[index := mid ! (rid + pid)])
        (memmove_in (plen n - pid) 0 (kFeatureSize n - plen n) (features n)), plen := pid\<rparr>"

lemma prefix_reduced_sized:
  assumes "inner_sized F n" "plen n \<le> F" "pid < plen n"
  shows "inner_sized F (prefix_reduced mid index pid n)"
proof -
  note D = inner_sizedD[OF assms(1)]
  have "inner_sized F (n\<lparr>features := on_rows (plen n - pid)
        (\<lambda>rid row. (memset_n (prefix n ! (pid + rid)) (knum n + 1) row)[index := mid ! (rid + pid)])
        (memmove_in (plen n - pid) 0 (kFeatureSize n - plen n) (features n))\<rparr>)"
    using assms D by (intro inner_sized_features[OF assms(1)]) (auto simp: D(3))
  then show ?thesis by (simp add: prefix_reduced_def)
qed

lemma prefix_reduced_seps:
  assumes sz: "inner_sized F n" and k: "knum n < 64" "plen n \<le> F" and len: "length mid = F" "index \<le> knum n"
    and p: "pid < plen n" "\<And>b. b < pid \<Longrightarrow> mid ! b = prefix n ! b"
  shows "seps ((prefix_reduced mid index pid (rows_inserted mid index n))\<lparr>knum := Suc (knum n)\<rparr>) =
    insert_at index mid (seps n)"
proof (rule seps_eqI)
  let ?m = "rows_inserted mid index n"
  let ?n = "(prefix_reduced mid index pid ?m)\<lparr>knum := Suc (knum n)\<rparr>"
  note D = inner_sizedD[OF sz]
  note M = inner_sizedD[OF rows_inserted_sized[OF sz, of mid index]]
  have F: "kFeatureSize ?n = F" using M by (simp add: prefix_reduced_def kFeatureSize_def)
  show "knum ?n = length (insert_at index mid (seps n))" using len by simp
  fix i assume "i < length (insert_at index mid (seps n))"
  then have i: "i \<le> knum n" using len by simp
  show "read_sep ?n i = insert_at index mid (seps n) ! i"
  proof (rule read_sep_eqI)
    show "kFeatureSize ?n = length (insert_at index mid (seps n) ! i)"
      using F D i len by (auto simp: nth_insert_at)
    fix b assume "b < length (insert_at index mid (seps n) ! i)"
    then have b: "b < F" using D i len by (auto simp: nth_insert_at split: if_splits)
    have cell: "features ?n ! (b - pid) ! i = (if b < plen n then if i = index then mid ! b else prefix n ! b
        else features ?m ! (b - plen n) ! i)" if "pid \<le> b"
      using that b i len k p(1) M D by (auto simp: prefix_reduced_def nth_list_update)
    have pl: "plen ?n = pid" "prefix ?n = prefix n" by (simp_all add: prefix_reduced_def)
    show "(if b < plen ?n then prefix ?n ! b else features ?n ! (b - plen ?n) ! i) =
        insert_at index mid (seps n) ! i ! b"
      using b i len p cell D(1) rows_inserted_cell[OF sz len(2) k(1) i, of "b - plen n" mid]
      unfolding pl by (auto simp: nth_insert_at nth_read_sep)
  qed
qed

lemma key_insert_seps:
  assumes inv: "inner_inv F n" and ins: "insertable F mid index n" and k: "knum n < 64"
  defines "n' \<equiv> (key_insert mid index n)\<lparr>knum := Suc (knum n)\<rparr>"
  shows "inner_sized F n'" "plen n' \<le> F" "seps n' = insert_at index mid (seps n)"
proof -
  have sz: "inner_sized F n" and pl: "plen n \<le> F" and k0: "knum n = 0 \<longrightarrow> plen n = 0"
    using inv by (simp_all add: inner_inv_def)
  have len: "length mid = F" "index \<le> knum n" using ins by (simp_all add: insertable_def)
  note D = inner_sizedD[OF sz]
  let ?m = "rows_inserted mid index n"
  have old: "insert_at index mid (seps n) ! i =
      (if i < index then read_sep n i else if i = index then mid else read_sep n (i - 1))" if "i \<le> knum n" for i
    using that len by (simp add: nth_insert_at)
  have "inner_sized F n' \<and> plen n' \<le> F \<and> seps n' = insert_at index mid (seps n)"
  proof (cases "knum n = 0")
    case True
    then have n': "n' = n\<lparr>prefix := memcpy_at 0 0 F mid (prefix n), plen := F, knum := 1\<rparr>"
      using D by (simp add: n'_def key_insert_def)
    have "read_sep n' 0 = mid"
      using D len by (intro read_sep_eqI) (auto simp: n' kFeatureSize_def)
    moreover have "seps n = []" "index = 0" using True len by (simp_all add: seps_def)
    ultimately have "seps n' = insert_at index mid (seps n)"
      by (intro seps_eqI) (auto simp: n' insert_at_def)
    moreover have "inner_sized F n'"
      using inner_sized_arrays(1)[OF sz, of "memcpy_at 0 0 F mid (prefix n)"] D by (simp add: n' inner_sized_def)
    ultimately show ?thesis by (simp add: n')
  next
    case False
    have key_insert: "key_insert mid index n =
        (if (index = 0 \<or> index = knum n) \<and> prefix_pos mid n < plen n
         then prefix_reduced mid index (prefix_pos mid n) ?m else ?m)"
      using False by (auto simp: key_insert_def rows_inserted_def prefix_reduced_def kFeatureSize_def
          prefix_pos_def Let_def)
    show ?thesis
    proof (cases "(index = 0 \<or> index = knum n) \<and> prefix_pos mid n < plen n")
      case True
      then have n': "n' = (prefix_reduced mid index (prefix_pos mid n) ?m)\<lparr>knum := Suc (knum n)\<rparr>"
        using key_insert by (simp add: n'_def)
      have "inner_sized F (prefix_reduced mid index (prefix_pos mid n) ?m)"
        using True pl by (intro prefix_reduced_sized rows_inserted_sized sz) auto
      then show ?thesis
        using True prefix_reduced_seps[OF sz k pl len, of "prefix_pos mid n"] prefix_pos_spec(2)[of _ mid n] pl
        unfolding n' by (simp add: prefix_reduced_def)
    next
      case False
      then have n': "n' = ?m\<lparr>knum := Suc (knum n)\<rparr>" using key_insert by (simp only: n'_def if_False)
      have "mid ! b = prefix n ! b" if b: "b < plen n" for b
      proof (cases "0 < index \<and> index < knum n")
        case True
        then have "take (plen n) mid ! b = take (plen n) (prefix n) ! b" using insertable_middle[OF inv ins] by simp
        then show ?thesis using b by simp
      next
        case middle: False
        then have "prefix_pos mid n = plen n"
          using False prefix_pos_spec(1)[of mid n] len(2) by auto
        then show ?thesis using prefix_pos_full b by blast
      qed
      then show ?thesis
        using rows_inserted_seps[OF sz k pl len] rows_inserted_sized[OF sz, of mid index] pl
        unfolding n' by simp
    qed
  qed
  then show "inner_sized F n'" "plen n' \<le> F" "seps n' = insert_at index mid (seps n)" by simp_all
qed

end
