(* ===== verification/InnerSplit.thy ===== *)
theory InnerSplit
  imports InnerInsert
begin

text \<open>
  The whole insertion into an inner node, with its children: the list of children is the array
  of children, and in the rightmost node of a level \<open>next\<close> is one more. Without a split, the
  separator and the right child are inserted into the lists; a split cuts both lists, and the
  separator that goes to the parent is the last one of the left node.
\<close>

definition kids :: "inode \<Rightarrow> ptr list" where
  "kids n = take (knum n) (ichildren n) @ (if has_sibling (icontrol n) then [] else [inext n])"

text \<open>The children after a new right child was inserted behind child number \<open>index\<close>.\<close>

definition kids_with :: "ptr \<Rightarrow> ptr \<Rightarrow> nat \<Rightarrow> inode \<Rightarrow> ptr list" where
  "kids_with lc rc index n =
     (if index = knum n then take (knum n) (ichildren n) @ [lc, rc] else insert_at (Suc index) rc (kids n))"

lemma length_kids:
  "inner_inv F n \<Longrightarrow> length (kids n) = knum n + (if has_sibling (icontrol n) then 0 else 1)"
  by (auto simp: kids_def inner_inv_def inner_sized_def kInnerSize_def)

lemma take_insert_at: "m \<le> i \<Longrightarrow> i \<le> length xs \<Longrightarrow> take m (insert_at i x xs) = take m xs"
  by (simp add: insert_at_def)

lemma route_kids:
  assumes "inner_inv F n"
  shows "route n key =
    (let p = rank (schars key) (sep_keys n)
     in if p < length (kids n) then (False, kids n ! p) else (True, inext n))"
proof -
  let ?p = "rank (schars key) (sep_keys n)"
  have p: "?p \<le> knum n" using rank_le[of "schars key" "sep_keys n"] by simp
  have l: "length (ichildren n) = 64" "knum n \<le> 64"
    using assms by (auto simp: inner_inv_def inner_sized_def kInnerSize_def)
  show ?thesis using p l by (auto simp: route_def kids_def Let_def nth_append)
qed

lemma inner_invI:
  assumes "inner_sized F n" "plen n \<le> F" "knum n \<le> 64" "0 < knum n" "\<not> bit (icontrol n) 3"
    and "seps n = xs" "sorted_wrt (<) (map schars xs)"
  shows "inner_inv F n"
  using assms by (auto simp: inner_inv_def kInnerSize_def sep_keys_def flag_bits)

section \<open>Insertion with room\<close>

lemma kids_insert_middle:
  assumes "index < k" "k < 64" "length cs = 64"
  shows "take (Suc k) ((memmove64 (index + 1) (index + 2) (k - index - 1) False cs)[index + 1 := rc]) =
    insert_at (Suc index) rc (take k cs)"
proof -
  have "memmove64 (index + 1) (index + 2) (k - index - 1) False cs = memmove_in (index + 2) (index + 1) (k - index - 1) cs"
    using assms by (intro memmove64_backward) auto
  then show ?thesis
    using assms
    by (intro nth_equalityI)
       (auto simp: nth_insert_at nth_list_update intro!: arg_cong[where f = "\<lambda>i. cs ! i"])
qed

lemma inner_insert_room:
  assumes inv: "inner_inv F n" and ins: "insertable F mid index n" and k: "knum n < 64"
    and edge: "index = knum n \<Longrightarrow> \<not> has_sibling (icontrol n)"
  shows "\<exists>n'. inner_insert rp raw lc rc mid index n = Some (None, n') \<and> inner_inv F n' \<and>
    seps n' = insert_at index mid (seps n) \<and>
    kids n' = kids_with lc rc index n \<and>
    icontrol n' = update_version (icontrol n) \<and> (has_sibling (icontrol n) \<longrightarrow> inext n' = inext n)"
proof -
  let ?c = "update_version (icontrol n)"
  let ?n = "n\<lparr>icontrol := ?c\<rparr>"
  have same: "seps ?n = seps n" "sep_keys ?n = sep_keys n"
    by (simp_all add: seps_def sep_keys_def read_sep_def kFeatureSize_def)
  have lf: "\<not> bit ?c 3" "has_sibling ?c = has_sibling (icontrol n)"
    using inv by (simp_all add: inner_inv_def flag_bits bit_update_version)
  have inv': "inner_inv F ?n" using inv lf same by (simp add: inner_inv_def flag_bits)
  have ins': "insertable F mid index ?n" using ins same by (simp add: insertable_def)
  define m where "m = (key_insert mid index ?n)\<lparr>knum := Suc (knum n)\<rparr>"
  have m: "inner_sized F m" "plen m \<le> F" "seps m = insert_at index mid (seps n)"
    using key_insert_seps[OF inv' ins'] k by (simp_all add: m_def same)
  have mf: "icontrol m = ?c" "inext m = inext n" "ichildren m = ichildren n" "knum m = Suc (knum n)"
    by (simp_all add: m_def)
  have lc64: "length (ichildren n) = 64" using inv by (simp add: inner_inv_def inner_sized_def kInnerSize_def)
  have idx: "index \<le> knum n" using ins by (simp add: insertable_def)
  define n' where "n' = (if index \<noteq> knum n
      then m\<lparr>ichildren := (memmove64 (index + 1) (index + 2) (knum n - index - 1) False (ichildren n))[index + 1 := rc]\<rparr>
      else m\<lparr>ichildren := (ichildren n)[index := lc], inext := rc\<rparr>)"
  have eq: "inner_insert rp raw lc rc mid index n = Some (None, n')"
    using k by (simp add: inner_insert_def Let_def n'_def m_def kInnerSize_def)
  have "inner_sized F n'"
    using m(1) lc64 by (auto simp: n'_def inner_sized_def kInnerSize_def)
  moreover have seps': "seps n' = insert_at index mid (seps n)"
    unfolding m(3)[symmetric] by (simp add: n'_def seps_def read_sep_def kFeatureSize_def)
  moreover have f: "plen n' = plen m" "knum n' = Suc (knum n)" "icontrol n' = ?c"
    using mf by (simp_all add: n'_def)
  moreover have "sorted_wrt (<) (map schars (insert_at index mid (seps n)))"
    using ins by (simp add: insertable_def map_insert_at sep_keys_def)
  ultimately have "inner_inv F n'" using m(2) k lf by (intro inner_invI) auto
  moreover have "kids n' = (if index = knum n then take (knum n) (ichildren n) @ [lc, rc]
      else insert_at (Suc index) rc (kids n))"
  proof (cases "index = knum n")
    case True
    then show ?thesis
      using edge f lf k lc64 by (simp add: kids_def n'_def take_Suc_conv_app_nth mf)
  next
    case False
    then have "take (knum n') (ichildren n') = insert_at (Suc index) rc (take (knum n) (ichildren n))"
      using kids_insert_middle[of index "knum n" "ichildren n" rc] idx k lc64 f by (simp add: n'_def)
    then show ?thesis
      using False f lf idx k lc64 mf by (auto simp: kids_def insert_at_def n'_def)
  qed
  ultimately show ?thesis
    using eq seps' f lf mf by (intro exI[of _ n']) (auto simp: n'_def edge kids_with_def)
qed

section \<open>Split\<close>

text \<open>
  The list of separators and of children with the new entries, and where it is cut: the left
  node keeps the first \<open>cut\<close> of both.
\<close>

definition cut :: "nat \<Rightarrow> nat" where
  "cut index = (if index = 64 then 64 else if index < 32 then 33 else 32)"

lemma inner_new_fields [simp]:
  "icontrol (inner_new raw) = control_new False" "knum (inner_new raw) = 0" "inext (inner_new raw) = None"
  "features (inner_new raw) = features raw" "ichildren (inner_new raw) = ichildren raw"
  "prefix (inner_new raw) = prefix raw"
  by (simp_all add: inner_new_def)

lemma inner_new_control: "(inner_new raw)\<lparr>inext := p, icontrol := control_new False\<rparr> = (inner_new raw)\<lparr>inext := p\<rparr>"
  by (cases raw) (simp add: inner_new_def)

lemma inner_sized_new: "inner_sized F raw \<Longrightarrow> inner_sized F (inner_new raw)"
  by (simp add: inner_sized_def inner_new_def)

lemma shrink_half:
  assumes sz: "inner_sized F n" and k: "knum n = length xs" "xs \<noteq> []" "length xs \<le> 64"
    and rows: "\<And>i. i < length xs \<Longrightarrow> row_sep n i = xs ! i" and s: "sorted_wrt (<) (map schars xs)"
    and lf: "\<not> bit (icontrol n) 3"
  shows "\<exists>n'. memory_shrink n = Some n' \<and> inner_inv F n' \<and> seps n' = xs \<and> knum n' = length xs \<and>
    inext n' = inext n \<and> icontrol n' = icontrol n \<and> ichildren n' = ichildren n"
proof -
  have r: "map (row_sep n) [0..<knum n] = xs" using k rows by (intro nth_equalityI) auto
  then have "map (schars \<circ> row_sep n) [0..<knum n] = map schars xs" by (metis map_map)
  then have "sorted_wrt (<) (map (schars \<circ> row_sep n) [0..<knum n])" using s by simp
  then obtain n' where n': "memory_shrink n = Some n'" "inner_sized F n'" "plen n' \<le> F" "knum n' = knum n"
    "inext n' = inext n" "icontrol n' = icontrol n" "ichildren n' = ichildren n" "seps n' = xs"
    using memory_shrink_spec[OF sz] k r by auto
  moreover from this have "inner_inv F n'" using k s lf by (intro inner_invI) auto
  ultimately show ?thesis using k by auto
qed

lemma split_left_spec:
  assumes sz: "inner_sized F n" "inner_sized F r" and pl: "plen n \<le> F" and k: "knum n = 64" and i: "index < 32"
    and len: "length mid = F" and s: "sorted_wrt (<) (map schars (insert_at index mid (seps n)))"
    and lf: "\<not> bit (icontrol n) 3" "\<not> bit (icontrol r) 3"
  shows "\<exists>n' r'. split_left rc mid index n r = Some (n', r', 32) \<and> inner_inv F n' \<and> inner_inv F r' \<and>
    seps n' = take 33 (insert_at index mid (seps n)) \<and> seps r' = drop 33 (insert_at index mid (seps n)) \<and>
    inext n' = inext n \<and> icontrol n' = icontrol n \<and> inext r' = inext r \<and> icontrol r' = icontrol r \<and>
    take 33 (ichildren n') = insert_at (Suc index) rc (take 32 (ichildren n)) \<and>
    take 32 (ichildren r') = drop 32 (ichildren n)"
proof -
  let ?S = "insert_at index mid (seps n)"
  let ?e = "memory_expand n"
  note D = inner_sizedD[OF sz(1)] and R = inner_sizedD[OF sz(2)]
  note e = memory_expand_spec[OF sz(1) pl] and E = inner_sizedD[OF memory_expand_spec(1)[OF sz(1) pl]]
  have S: "?S ! j = (if j < index then read_sep n j else if j = index then mid else read_sep n (j - 1))"
    if "j \<le> 64" for j using that i k by (simp add: nth_insert_at)
  have lS: "length ?S = 65" using i k by simp
  then have ne: "?S \<noteq> []" by auto
  let ?rf = "on_rows F (\<lambda>rid row. memcpy_at 0 32 32 (features ?e ! rid) row) (features r)"
  let ?nf = "on_rows F (\<lambda>rid row. (memmove_in (index + 1) index (32 - index) row)[index := mid ! rid]) (features ?e)"
  let ?rc = "memmove64_to (ichildren n) 32 0 32 (ichildren r)"
  let ?nc = "(memmove64 index (index + 1) (32 - index) False (ichildren n))[index + 1 := rc]"
  let ?n = "?e\<lparr>features := ?nf, ichildren := ?nc, knum := 33\<rparr>" and ?r = "r\<lparr>features := ?rf, ichildren := ?rc, knum := 32\<rparr>"
  have fe: "kFeatureSize ?n = F" "kFeatureSize ?r = F" using E R by (simp_all add: kFeatureSize_def)
  have cell: "features ?e ! b ! j = read_sep n j ! b" if "b < F" "j < 64" for b j
    using e(2)[OF that(2)] that D(1) by (metis nth_row_sep memory_expand_fields(7))
  have "inner_sized F (?e\<lparr>features := ?nf\<rparr>)"
    by (rule inner_sized_features[OF e(1)]) (use E in auto)
  then have szn: "inner_sized F ?n" using D(4) by (simp add: inner_sized_def kInnerSize_def)
  have "inner_sized F (r\<lparr>features := ?rf\<rparr>)"
    by (rule inner_sized_features[OF sz(2)]) (use R in auto)
  then have szr: "inner_sized F ?r" using R(4) by (simp add: inner_sized_def kInnerSize_def)
  have rn: "row_sep ?n j = take 33 ?S ! j" if "j < length (take 33 ?S)" for j
  proof (rule nth_equalityI)
    have j: "j \<le> 32" using that lS by simp
    show "length (row_sep ?n j) = length (take 33 ?S ! j)" using fe D(1) S[of j] j len by auto
    fix b assume "b < length (row_sep ?n j)"
    then have b: "b < F" using fe by simp
    then show "row_sep ?n j ! b = take 33 ?S ! j ! b"
      using fe E j i S[of j] cell[of b j] cell[of b "j - 1"] by (auto simp: nth_list_update)
  qed
  have rr: "row_sep ?r j = drop 33 ?S ! j" if "j < length (drop 33 ?S)" for j
  proof (rule nth_equalityI)
    have j: "j < 32" using that lS by simp
    show "length (row_sep ?r j) = length (drop 33 ?S ! j)" using fe D(1) S[of "33 + j"] j i lS by auto
    fix b assume "b < length (row_sep ?r j)"
    then have b: "b < F" using fe by simp
    then show "row_sep ?r j ! b = drop 33 ?S ! j ! b"
      using fe R j i S[of "33 + j"] cell[of b "32 + j"] lS by auto
  qed
  have ss: "sorted_wrt (<) (map schars (take 33 ?S))" "sorted_wrt (<) (map schars (drop 33 ?S))"
    using s sorted_wrt_take[of "(<)" "map schars ?S" 33] sorted_wrt_drop[of "(<)" "map schars ?S" 33]
    by (simp_all add: take_map drop_map)
  obtain n' where n': "memory_shrink ?n = Some n'" "inner_inv F n'" "seps n' = take 33 ?S"
    "inext n' = inext n" "icontrol n' = icontrol n" "ichildren n' = ?nc"
    using shrink_half[OF szn _ _ _ rn ss(1)] lS ne lf by auto
  obtain r' where r': "memory_shrink ?r = Some r'" "inner_inv F r'" "seps r' = drop 33 ?S"
    "inext r' = inext r" "icontrol r' = icontrol r" "ichildren r' = ?rc"
    using shrink_half[OF szr _ _ _ rr ss(2)] lS ne lf by auto
  have "split_left rc mid index n r = Some (n', r', 32)"
    using n'(1) r'(1) D(1) by (simp add: split_left_def Let_def kInnerSize_def kFeatureSize_def E)
  moreover have "take 33 ?nc = insert_at (Suc index) rc (take 32 (ichildren n))"
  proof -
    have "memmove64 index (index + 1) (32 - index) False (ichildren n) = memmove_in (index + 1) index (32 - index) (ichildren n)"
      using i D(4) by (intro memmove64_backward) auto
    then show ?thesis
      using i D(4) by (intro nth_equalityI) (auto simp: nth_insert_at nth_list_update)
  qed
  moreover have "take 32 ?rc = drop 32 (ichildren n)"
    using R(4) D(4) by (subst memmove64_to_memcpy) (auto intro!: nth_equalityI)
  ultimately show ?thesis using n' r' by auto
qed

lemma split_right_children:
  assumes "32 \<le> index" "index < 64" "length cs = 64" "length ds = 64"
  shows "take 33 (memmove64_to cs (index + 1) (index - 32 + 2) (64 - index - 1)
      ((memmove64_to cs 32 0 (index - 32 + 1) ds)[index - 32 + 1 := rc])) = insert_at (index - 31) rc (drop 32 cs)"
  (is "take 33 ?c = _")
proof -
  have c: "?c = memcpy_at (index - 32 + 2) (index + 1) (64 - index - 1) cs
      ((memcpy_at 0 32 (index - 32 + 1) cs ds)[index - 32 + 1 := rc])"
    using assms by (simp add: memmove64_to_memcpy)
  show ?thesis
    unfolding c using assms
    by (intro nth_equalityI) (auto simp: nth_insert_at nth_list_update intro!: arg_cong[where f = "\<lambda>i. cs ! i"])
qed

lemma split_right_spec:
  assumes sz: "inner_sized F n" "inner_sized F r" and pl: "plen n \<le> F" and k: "knum n = 64" and i: "32 \<le> index" "index < 64"
    and len: "length mid = F" and s: "sorted_wrt (<) (map schars (insert_at index mid (seps n)))"
    and lf: "\<not> bit (icontrol n) 3" "\<not> bit (icontrol r) 3"
  shows "\<exists>n' r'. split_right rc mid index n r = Some (n', r', 31) \<and> inner_inv F n' \<and> inner_inv F r' \<and>
    seps n' = take 32 (insert_at index mid (seps n)) \<and> seps r' = drop 32 (insert_at index mid (seps n)) \<and>
    inext n' = inext n \<and> icontrol n' = icontrol n \<and> inext r' = inext r \<and> icontrol r' = icontrol r \<and>
    ichildren n' = ichildren n \<and>
    take 33 (ichildren r') = insert_at (index - 31) rc (drop 32 (ichildren n))"
proof -
  let ?S = "insert_at index mid (seps n)"
  let ?e = "memory_expand n"
  note D = inner_sizedD[OF sz(1)] and R = inner_sizedD[OF sz(2)]
  note e = memory_expand_spec[OF sz(1) pl] and E = inner_sizedD[OF memory_expand_spec(1)[OF sz(1) pl]]
  have S: "?S ! j = (if j < index then read_sep n j else if j = index then mid else read_sep n (j - 1))"
    if "j \<le> 64" for j using that i k by (simp add: nth_insert_at)
  have lS: "length ?S = 65" using i k by simp
  then have ne: "?S \<noteq> []" by auto
  let ?rf = "on_rows F (\<lambda>rid row. memcpy_at (index - 32 + 1) index (64 - index) (features ?e ! rid)
      ((memcpy_at 0 32 (index - 32) (features ?e ! rid) row)[index - 32 := mid ! rid])) (features r)"
  let ?rc = "memmove64_to (ichildren n) (index + 1) (index - 32 + 2) (64 - index - 1)
      ((memmove64_to (ichildren n) 32 0 (index - 32 + 1) (ichildren r))[index - 32 + 1 := rc])"
  let ?n = "?e\<lparr>knum := 32\<rparr>" and ?r = "r\<lparr>features := ?rf, ichildren := ?rc, knum := 33\<rparr>"
  have fe: "kFeatureSize ?n = F" "kFeatureSize ?r = F" using E R by (simp_all add: kFeatureSize_def)
  have cell: "features ?e ! b ! j = read_sep n j ! b" if "b < F" "j < 64" for b j
    using e(2)[OF that(2)] that D(1) by (metis nth_row_sep memory_expand_fields(7))
  have szn: "inner_sized F ?n" using e(1) by (simp add: inner_sized_def)
  have "inner_sized F (r\<lparr>features := ?rf\<rparr>)"
    by (rule inner_sized_features[OF sz(2)]) (use R in auto)
  then have szr: "inner_sized F ?r" using R(4) by (simp add: inner_sized_def kInnerSize_def)
  have rn: "row_sep ?n j = take 32 ?S ! j" if "j < length (take 32 ?S)" for j
  proof -
    have "j < 32" using that lS by simp
    moreover have "row_sep ?n j = row_sep ?e j" by (simp add: row_sep_def kFeatureSize_def)
    ultimately show ?thesis using e(2)[of j] S[of j] i by simp
  qed
  have rr: "row_sep ?r j = drop 32 ?S ! j" if "j < length (drop 32 ?S)" for j
  proof (rule nth_equalityI)
    have j: "j < 33" using that lS by simp
    show "length (row_sep ?r j) = length (drop 32 ?S ! j)" using fe D(1) S[of "32 + j"] j i lS len by auto
    fix b assume "b < length (row_sep ?r j)"
    then have b: "b < F" using fe by simp
    note facts = fe R j i S[of "32 + j"] cell[of b "32 + j"] cell[of b "31 + j"] lS b
    consider "32 + j < index" "index - 32 \<noteq> j" | "index = 32 + j" | "index < 32 + j" by linarith
    then show "row_sep ?r j ! b = drop 32 ?S ! j ! b"
      by cases (use facts in \<open>auto simp: add.commute\<close>)
  qed
  have ss: "sorted_wrt (<) (map schars (take 32 ?S))" "sorted_wrt (<) (map schars (drop 32 ?S))"
    using s sorted_wrt_take[of "(<)" "map schars ?S" 32] sorted_wrt_drop[of "(<)" "map schars ?S" 32]
    by (simp_all add: take_map drop_map)
  obtain n' where n': "memory_shrink ?n = Some n'" "inner_inv F n'" "seps n' = take 32 ?S"
    "inext n' = inext n" "icontrol n' = icontrol n" "ichildren n' = ichildren n"
    using shrink_half[OF szn _ _ _ rn ss(1)] lS ne lf by auto
  obtain r' where r': "memory_shrink ?r = Some r'" "inner_inv F r'" "seps r' = drop 32 ?S"
    "inext r' = inext r" "icontrol r' = icontrol r" "ichildren r' = ?rc"
    using shrink_half[OF szr _ _ _ rr ss(2)] lS ne lf by auto
  have "split_right rc mid index n r = Some (n', r', 31)"
    using n'(1) r'(1) D(1) by (simp add: split_right_def Let_def kInnerSize_def kFeatureSize_def E)
  then show ?thesis
    using n' r' split_right_children[of index "ichildren n" "ichildren r" rc] i D(4) R(4) by auto
qed

lemma split_last_spec:
  assumes sz: "inner_sized F r" and inv: "inner_inv F n" and k: "knum n = 64" and len: "length mid = F"
    and lf: "\<not> bit (icontrol r) 3"
  shows "\<exists>r'. split_last lc rc mid n r = Some (n, r', 63) \<and> inner_inv F r' \<and> seps r' = [mid] \<and>
    knum r' = 1 \<and> take 1 (ichildren r') = [lc] \<and> inext r' = rc \<and> icontrol r' = icontrol r"
proof -
  note R = inner_sizedD[OF sz]
  define r' where "r' = r\<lparr>prefix := memcpy_at 0 0 F mid (prefix r), plen := F, ichildren := (ichildren r)[0 := lc],
    inext := rc, knum := 1\<rparr>"
  have sz': "inner_sized F r'" using sz by (auto simp: r'_def inner_sized_def)
  have f: "knum r' = 1" "inext r' = rc" "icontrol r' = icontrol r" "ichildren r' = (ichildren r)[0 := lc]" "plen r' = F"
    by (simp_all add: r'_def)
  have "read_sep r' 0 = mid"
    using R len inner_sizedD(1)[OF sz'] by (intro nth_equalityI) (auto simp: read_sep_def r'_def)
  then have ss: "seps r' = [mid]" by (simp add: seps_def f)
  have "inner_inv F r'" using sz' f ss lf by (intro inner_invI) auto
  moreover have "split_last lc rc mid n r = Some (n, r', 63)"
    using R(1) by (simp add: split_last_def r'_def kInnerSize_def)
  moreover have "take 1 ((ichildren r)[0 := lc]) = [lc]" using R(4) by (cases "ichildren r") auto
  ultimately show ?thesis using ss f by auto
qed

lemma seps_fields [simp]:
  "seps (n\<lparr>icontrol := c\<rparr>) = seps n" "seps (n\<lparr>inext := p\<rparr>) = seps n"
  by (simp_all add: seps_def read_sep_def kFeatureSize_def)

lemma inner_sized_fields [simp]:
  "inner_sized F (n\<lparr>icontrol := c\<rparr>) = inner_sized F n" "inner_sized F (n\<lparr>inext := p\<rparr>) = inner_sized F n"
  by (simp_all add: inner_sized_def)

definition with_sibling :: "u64 \<Rightarrow> u64" where
  "with_sibling c = (if has_sibling c then c else set_sibling c)"

lemma inner_control_bits:
  "\<not> bit (control_new False) i" "bit (set_sibling (control_new False)) i \<longleftrightarrow> i = 2"
  using set_flag_bits(3)[of "control_new False" i] by (simp_all add: control_new_def)

lemma with_sibling_bits: "bit (with_sibling c) i \<longleftrightarrow> bit c i \<or> i = 2"
  using set_flag_bits(3)[of c i] by (auto simp: with_sibling_def flag_bits)

lemma inner_split_shape:
  assumes inv: "inner_inv F n" and ins: "insertable F mid index n" and k: "knum n = 64"
    and sz: "inner_sized F raw" and edge: "index = 64 \<Longrightarrow> \<not> has_sibling (icontrol n)"
  shows "\<exists>r n'. inner_split rp raw lc rc mid index n = Some (r, read_sep n' (cut index - 1), n') \<and>
    inner_inv F n' \<and> inner_inv F r \<and>
    seps n' = take (cut index) (insert_at index mid (seps n)) \<and>
    seps r = drop (cut index) (insert_at index mid (seps n)) \<and>
    kids n' = take (cut index) (kids_with lc rc index n) \<and>
    kids r = drop (cut index) (kids_with lc rc index n) \<and>
    inext n' = Some rp \<and> icontrol n' = with_sibling (icontrol n) \<and>
    icontrol r = (if has_sibling (icontrol n) then set_sibling (control_new False) else control_new False) \<and>
    (has_sibling (icontrol n) \<longrightarrow> inext r = inext n)"
proof -
  let ?hs = "has_sibling (icontrol n)" and ?S = "insert_at index mid (seps n)"
  let ?n = "n\<lparr>inext := Some rp, icontrol := with_sibling (icontrol n)\<rparr>"
  let ?r = "(inner_new raw)\<lparr>inext := inext n,
    icontrol := (if ?hs then set_sibling (control_new False) else control_new False)\<rparr>"
  have D: "length (ichildren n) = 64" using inv by (simp add: inner_inv_def inner_sized_def kInnerSize_def)
  have szn: "inner_sized F ?n" "inner_sized F ?r" using inv sz by (simp_all add: inner_inv_def inner_sized_new)
  have plk: "plen ?n \<le> F" "knum ?n = 64" "length mid = F" using inv k ins by (simp_all add: inner_inv_def insertable_def)
  have s: "sorted_wrt (<) (map schars ?S)" using ins by (simp add: insertable_def map_insert_at sep_keys_def)
  then have s': "sorted_wrt (<) (map schars (insert_at index mid (seps ?n)))" by simp
  have lf: "\<not> bit (icontrol ?n) 3" "\<not> bit (icontrol ?r) 3"
    using inv by (auto simp: inner_inv_def flag_bits with_sibling_bits inner_control_bits)
  have hs: "has_sibling (icontrol ?n)" "has_sibling (icontrol ?r) = ?hs"
    by (auto simp: flag_bits with_sibling_bits inner_control_bits)
  have unf: "inner_split rp raw lc rc mid index n =
      (case (if index = 64 then split_last lc rc mid ?n ?r else if index < 32 then split_left rc mid index ?n ?r
             else split_right rc mid index ?n ?r)
       of None \<Rightarrow> None | Some (n, r, midx) \<Rightarrow> Some (r, read_sep n midx, n))"
    by (simp add: inner_split_def Let_def kInnerSize_def with_sibling_def inner_new_control)
  have idx: "index \<le> 64" using ins k by (simp add: insertable_def)
  then consider (l) "index < 32" | (m) "32 \<le> index" "index < 64" | (e) "index = 64" by linarith
  then show ?thesis
  proof cases
    case l
    obtain n' r' where o: "split_left rc mid index ?n ?r = Some (n', r', 32)" "inner_inv F n'" "inner_inv F r'"
      "seps n' = take 33 ?S" "seps r' = drop 33 ?S" "inext n' = Some rp" "icontrol n' = icontrol ?n"
      "inext r' = inext n" "icontrol r' = icontrol ?r"
      "take 33 (ichildren n') = insert_at (Suc index) rc (take 32 (ichildren n))"
      "take 32 (ichildren r') = drop 32 (ichildren n)"
      using split_left_spec[OF szn plk(1,2) l plk(3) s' lf, of rc] by auto
    have kn: "knum n' = 33" "knum r' = 32"
      using arg_cong[OF o(4), of length] arg_cong[OF o(5), of length] l k by simp_all
    have "kids n' = take 33 (kids_with lc rc index n)" "kids r' = drop 33 (kids_with lc rc index n)"
      using o(6-11) kn hs l D k by (simp_all add: kids_def kids_with_def insert_at_def take_Cons' drop_Cons' drop_take)
    with o l show ?thesis unfolding unf by (simp add: cut_def)
  next
    case m
    obtain n' r' where o: "split_right rc mid index ?n ?r = Some (n', r', 31)" "inner_inv F n'" "inner_inv F r'"
      "seps n' = take 32 ?S" "seps r' = drop 32 ?S" "inext n' = Some rp" "icontrol n' = icontrol ?n"
      "inext r' = inext n" "icontrol r' = icontrol ?r"
      "ichildren n' = ichildren n" "take 33 (ichildren r') = insert_at (index - 31) rc (drop 32 (ichildren n))"
      using split_right_spec[OF szn plk(1,2) m plk(3) s' lf, of rc] by auto
    have kn: "knum n' = 32" "knum r' = 33"
      using arg_cong[OF o(4), of length] arg_cong[OF o(5), of length] m k by simp_all
    have "Suc index - 32 = index - 31" using m by simp
    then have "kids n' = take 32 (kids_with lc rc index n)" "kids r' = drop 32 (kids_with lc rc index n)"
      using o(6-11) kn hs m D k by (simp_all add: kids_def kids_with_def insert_at_def drop_take)
    with o m show ?thesis unfolding unf by (simp add: cut_def)
  next
    case e
    have inv': "inner_inv F ?n" using inv szn lf k s by (auto simp: inner_inv_def sep_keys_def flag_bits)
    obtain r' where o: "split_last lc rc mid ?n ?r = Some (?n, r', 63)" "inner_inv F r'" "seps r' = [mid]"
      "knum r' = 1" "take 1 (ichildren r') = [lc]" "inext r' = rc" "icontrol r' = icontrol ?r"
      using split_last_spec[OF szn(2) inv' plk(2,3) lf(2), of lc rc] by auto
    have "kids ?n = take 64 (kids_with lc rc index n)" "kids r' = drop 64 (kids_with lc rc index n)"
      using o(4-7) hs e edge D k by (simp_all add: kids_def kids_with_def)
    with o e edge k inv' show ?thesis unfolding unf by (simp add: cut_def insert_at_def)
  qed
qed

lemma inner_inv_version: "inner_inv F n \<Longrightarrow> inner_inv F (n\<lparr>icontrol := update_version (icontrol n)\<rparr>)"
  by (simp add: inner_inv_def flag_bits bit_update_version sep_keys_def)

lemma insertable_control: "insertable F mid index (n\<lparr>icontrol := c\<rparr>) = insertable F mid index n"
  by (simp add: insertable_def sep_keys_def)

lemma inner_insert_split:
  assumes inv: "inner_inv F n" and ins: "insertable F mid index n" and k: "knum n = 64"
    and sz: "inner_sized F raw" and edge: "index = 64 \<Longrightarrow> \<not> has_sibling (icontrol n)"
  shows "\<exists>r n' mid'. inner_insert rp raw lc rc mid index n = Some (Some (r, mid'), n') \<and>
    inner_inv F n' \<and> inner_inv F r \<and>
    seps n' = take (cut index) (insert_at index mid (seps n)) \<and>
    seps r = drop (cut index) (insert_at index mid (seps n)) \<and>
    mid' = last (seps n') \<and> length mid' = F \<and>
    kids n' = take (cut index) (kids_with lc rc index n) \<and>
    kids r = drop (cut index) (kids_with lc rc index n) \<and>
    inext n' = Some rp \<and> icontrol n' = with_sibling (update_version (icontrol n)) \<and>
    icontrol r = (if has_sibling (icontrol n) then set_sibling (control_new False) else control_new False) \<and>
    (has_sibling (icontrol n) \<longrightarrow> inext r = inext n)"
proof -
  let ?n = "n\<lparr>icontrol := update_version (icontrol n)\<rparr>"
  have c: "has_sibling (update_version (icontrol n)) = has_sibling (icontrol n)"
    by (simp add: flag_bits bit_update_version)
  have kw: "kids_with lc rc index ?n = kids_with lc rc index n" by (simp add: kids_with_def kids_def c)
  obtain r n' where o: "inner_split rp raw lc rc mid index ?n = Some (r, read_sep n' (cut index - 1), n')"
    "inner_inv F n'" "inner_inv F r" "seps n' = take (cut index) (insert_at index mid (seps n))"
    "seps r = drop (cut index) (insert_at index mid (seps n))"
    "kids n' = take (cut index) (kids_with lc rc index n)" "kids r = drop (cut index) (kids_with lc rc index n)"
    "inext n' = Some rp" "icontrol n' = with_sibling (update_version (icontrol n))"
    "icontrol r = (if has_sibling (icontrol n) then set_sibling (control_new False) else control_new False)"
    "has_sibling (icontrol n) \<longrightarrow> inext r = inext n"
    using inner_split_shape[of F ?n mid index raw rp lc rc] inner_inv_version[OF inv] ins k sz edge
    by (auto simp: insertable_control c kw)
  have i: "index \<le> 64" using ins k by (simp add: insertable_def)
  have kn: "knum n' = cut index" using arg_cong[OF o(4), of length] i k by (auto simp: cut_def split: if_splits)
  have cp: "0 < cut index" by (simp add: cut_def)
  have m: "read_sep n' (cut index - 1) = last (seps n')"
    using kn cp by (subst last_conv_nth) (auto simp: seps_def)
  moreover have "length (read_sep n' (cut index - 1)) = F"
    using o(2) by (simp add: inner_inv_def read_sep_def inner_sizedD(1))
  ultimately show ?thesis
    using o k by (simp add: inner_insert_def Let_def kInnerSize_def)
qed

section \<open>Both cases of an insertion\<close>

definition inner_insert_post ::
  "nat \<Rightarrow> addr \<Rightarrow> ptr \<Rightarrow> ptr \<Rightarrow> byte list \<Rightarrow> nat \<Rightarrow> inode \<Rightarrow> (inode \<times> byte list) option \<Rightarrow> inode \<Rightarrow> bool"
where
  "inner_insert_post F rp lc rc mid index n split n' \<longleftrightarrow>
     (case split of
        None \<Rightarrow> seps n' = insert_at index mid (seps n) \<and> kids n' = kids_with lc rc index n
      | Some (r, mid') \<Rightarrow> inner_inv F r \<and> seps n' @ seps r = insert_at index mid (seps n) \<and>
          kids n' @ kids r = kids_with lc rc index n \<and> mid' = last (seps n') \<and> inext n' = Some rp)"

lemma inner_insert_all:
  assumes inv: "inner_inv F n" and ins: "insertable F mid index n" and sz: "inner_sized F raw"
    and edge: "index = knum n \<Longrightarrow> \<not> has_sibling (icontrol n)"
  shows "\<exists>split n'. inner_insert rp raw lc rc mid index n = Some (split, n') \<and> inner_inv F n' \<and>
    inner_insert_post F rp lc rc mid index n split n'"
proof (cases "knum n < 64")
  case True
  then show ?thesis using inner_insert_room[OF inv ins True edge, of rp raw lc rc] by (fastforce simp: inner_insert_post_def)
next
  case False
  then have k: "knum n = 64" using inv by (simp add: inner_inv_def kInnerSize_def)
  then have "index = 64 \<Longrightarrow> \<not> has_sibling (icontrol n)" using edge by simp
  then obtain r n' where sp: "inner_insert rp raw lc rc mid index n = Some (Some (r, last (seps n')), n')"
    "inner_inv F n'" "inner_inv F r" "seps n' = take (cut index) (insert_at index mid (seps n))"
    "seps r = drop (cut index) (insert_at index mid (seps n))" "kids n' = take (cut index) (kids_with lc rc index n)"
    "kids r = drop (cut index) (kids_with lc rc index n)" "inext n' = Some rp"
    using inner_insert_split[OF inv ins k sz, of rp lc rc] by blast
  have "inner_insert_post F rp lc rc mid index n (Some (r, last (seps n'))) n'"
    unfolding inner_insert_post_def using sp(3,8) by (simp add: sp(4-7))
  then show ?thesis using sp(1,2) by blast
qed

end
