(* ===== verification/Tree.thy ===== *)
theory Tree
  imports LeafSort InnerSplit "HOL-Library.Monad_Syntax"
begin

text \<open>
  The tree for integer keys (\<open>FBTree<K, V>\<close> of \<open>src/FBTree/fbtree.h\<close>). The nodes live in a heap
  from addresses to nodes; \<open>malloc\<close> returns the next unused address. The operations are run to
  their end one after the other: a latch that is held, a null pointer that is followed and a
  node that is taken for a node of the other kind give \<open>None\<close>, and the loops of the code are
  recursive partial functions, so that a loop without end is \<open>None\<close> too.
\<close>

section \<open>State\<close>

datatype ('k, 'v) node = LeafN (leaf_of: "('k, 'v) leaf") | InnerN (inner_of: inode)

primrec ncontrol :: "('k, 'v) node \<Rightarrow> u64" where
  "ncontrol (LeafN l) = lcontrol l"
| "ncontrol (InnerN n) = icontrol n"

primrec set_ncontrol :: "u64 \<Rightarrow> ('k, 'v) node \<Rightarrow> ('k, 'v) node" where
  "set_ncontrol c (LeafN l) = LeafN (l\<lparr>lcontrol := c\<rparr>)"
| "set_ncontrol c (InnerN n) = InnerN (n\<lparr>icontrol := c\<rparr>)"

text \<open>
  What the tree is instantiated with: the tag and the encoding of a key, the content of
  memory that \<open>malloc\<close> returns, and of a local array before it is written.
\<close>

record ('k, 'v) tenv =
  etag :: "'k \<Rightarrow> byte"
  eenc :: "'k \<Rightarrow> byte list"
  eraw_leaf :: "addr \<Rightarrow> ('k, 'v) leaf"
  eraw_inner :: "addr \<Rightarrow> inode"
  ejunk :: "byte list"

definition kMaxHeight :: nat where "kMaxHeight = 13"

record ('k, 'v) fbtree =
  heap :: "addr \<Rightarrow> ('k, 'v) node option"
  hnext :: addr
  root :: addr
  tree_depth :: nat
  root_track :: "ptr list"
  retired :: "ptr list"

section \<open>Access to nodes\<close>

definition leaf_at :: "addr \<Rightarrow> ('k, 'v) fbtree \<Rightarrow> ('k, 'v) leaf option" where
  "leaf_at a t = (case heap t a of Some (LeafN l) \<Rightarrow> Some l | _ \<Rightarrow> None)"

definition inner_at :: "addr \<Rightarrow> ('k, 'v) fbtree \<Rightarrow> inode option" where
  "inner_at a t = (case heap t a of Some (InnerN n) \<Rightarrow> Some n | _ \<Rightarrow> None)"

definition put :: "addr \<Rightarrow> ('k, 'v) node \<Rightarrow> ('k, 'v) fbtree \<Rightarrow> ('k, 'v) fbtree" where
  "put a nd t = t\<lparr>heap := (heap t)(a \<mapsto> nd)\<rparr>"

text \<open>The write through a pointer that may be null; the content is what it was read as.\<close>

definition put_opt :: "ptr \<Rightarrow> ('k, 'v) node option \<Rightarrow> ('k, 'v) fbtree \<Rightarrow> ('k, 'v) fbtree" where
  "put_opt p nd t = (case (p, nd) of (Some a, Some nd) \<Rightarrow> put a nd t | _ \<Rightarrow> t)"

definition is_leaf :: "addr \<Rightarrow> ('k, 'v) fbtree \<Rightarrow> bool option" where
  "is_leaf a t = map_option (\<lambda>nd. ctl_is_leaf (ncontrol nd)) (heap t a)"

definition tlatch :: "addr \<Rightarrow> ('k, 'v) fbtree \<Rightarrow> ('k, 'v) fbtree option" where
  "tlatch a t =
     do { nd \<leftarrow> heap t a; c \<leftarrow> latch_exclusive (ncontrol nd); Some (put a (set_ncontrol c nd) t) }"

definition tunlatch :: "addr \<Rightarrow> ('k, 'v) fbtree \<Rightarrow> ('k, 'v) fbtree option" where
  "tunlatch a t =
     do { nd \<leftarrow> heap t a; Some (put a (set_ncontrol (unlatch_exclusive (ncontrol nd)) nd) t) }"

definition malloc_node :: "('k, 'v) node \<Rightarrow> ('k, 'v) fbtree \<Rightarrow> addr \<times> ('k, 'v) fbtree" where
  "malloc_node nd t = (hnext t, (put (hnext t) nd t)\<lparr>hnext := Suc (hnext t)\<rparr>)"

definition retire :: "ptr \<Rightarrow> ('k, 'v) fbtree \<Rightarrow> ('k, 'v) fbtree" where
  "retire p t = t\<lparr>retired := retired t @ [p]\<rparr>"

section \<open>Construction\<close>

definition tree_new :: "('k::zero, 'v) tenv \<Rightarrow> ptr list \<Rightarrow> ('k, 'v) fbtree" where
  "tree_new E junk =
     \<lparr>heap = (\<lambda>_. None)(0 \<mapsto> LeafN (leaf_new (eraw_leaf E 0))), hnext = 1, root = 0, tree_depth = 1,
      root_track = junk[0 := Some 0], retired = []\<rparr>"

text \<open>
  \<open>~FBTree()\<close>: the nodes of every level from left to right, with the pairs that the leaves
  free. The loop follows the siblings of one level.
\<close>

partial_function (option) destroy_level ::
  "ptr \<Rightarrow> addr list \<Rightarrow> ('k, 'v) kv list \<Rightarrow> ('k, 'v) fbtree \<Rightarrow>
   (addr list \<times> ('k, 'v) kv list \<times> ('k, 'v) fbtree) option" where
  "destroy_level p nodes kvs t =
     (case p of
        None \<Rightarrow> Some (nodes, kvs, t)
      | Some a \<Rightarrow>
          (case heap t a of
             None \<Rightarrow> None
           | Some (LeafN l) \<Rightarrow>
               do { freed \<leftarrow> leaf_destroy l;
                    destroy_level (leaf_sibling l) (nodes @ [a]) (kvs @ freed) (t\<lparr>heap := (heap t)(a := None)\<rparr>) }
           | Some (InnerN n) \<Rightarrow>
               destroy_level (inner_sibling n) (nodes @ [a]) kvs (t\<lparr>heap := (heap t)(a := None)\<rparr>)))"

definition tree_destroy :: "('k, 'v) fbtree \<Rightarrow> (addr list \<times> ('k, 'v) kv list \<times> ('k, 'v) fbtree) option" where
  "tree_destroy t =
     fold (\<lambda>rid s. do { (nodes, kvs, t) \<leftarrow> s; destroy_level (root_track t ! rid) nodes kvs t })
       [0..<tree_depth t] (Some ([], [], t))"

section \<open>Descent\<close>

text \<open>
  The loop from the root to a leaf; \<open>path\<close> is the stack of the nodes that were left for a
  child, the last one first.
\<close>

partial_function (option) descend ::
  "byte list \<Rightarrow> ('k, 'v) fbtree \<Rightarrow> addr \<Rightarrow> addr list \<Rightarrow> (addr \<times> addr list) option" where
  "descend key t current path =
     do { lf \<leftarrow> is_leaf current t;
          if lf then Some (current, path)
          else do { n \<leftarrow> inner_at current t;
                    (to_sibling, next) \<leftarrow> to_next key n;
                    next \<leftarrow> next;
                    descend key t next (if to_sibling then path else current # path) } }"

text \<open>
  The optimistic walk to the right at the leaf level: the version read at the leaf where it
  ends.
\<close>

partial_function (option) leaf_walk ::
  "'k::linorder \<Rightarrow> ('k, 'v) fbtree \<Rightarrow> addr \<Rightarrow> u64 \<Rightarrow> (addr \<times> u64) option" where
  "leaf_walk key t node version =
     do { l \<leftarrow> leaf_at node t;
          case leaf_to_sibling key l of
            None \<Rightarrow> Some (node, version)
          | Some next \<Rightarrow>
              do { next \<leftarrow> next;
                   r \<leftarrow> heap t next;
                   version \<leftarrow> begin_read (ncontrol r);
                   leaf_walk key t next version } }"

text \<open>The same walk with latches: the next leaf is latched before the current one is released.\<close>

partial_function (option) latch_walk ::
  "'k::linorder \<Rightarrow> addr \<Rightarrow> ('k, 'v) fbtree \<Rightarrow> (addr \<times> ('k, 'v) fbtree) option" where
  "latch_walk key current t =
     do { l \<leftarrow> leaf_at current t;
          case leaf_to_sibling key l of
            None \<Rightarrow> Some (current, t)
          | Some work \<Rightarrow>
              do { work \<leftarrow> work; t \<leftarrow> tlatch work t; t \<leftarrow> tunlatch current t; latch_walk key work t } }"

text \<open>The walk at an inner level, which ends with the index of the separator.\<close>

partial_function (option) index_walk ::
  "byte list \<Rightarrow> addr \<Rightarrow> ('k, 'v) fbtree \<Rightarrow> (addr \<times> int \<times> ('k, 'v) fbtree) option" where
  "index_walk mid work t =
     do { n \<leftarrow> inner_at work t;
          r \<leftarrow> index_or_sibling mid n;
          case r of
            Inr index \<Rightarrow> Some (work, index, t)
          | Inl next \<Rightarrow>
              do { next \<leftarrow> next; t \<leftarrow> tlatch next t; t \<leftarrow> tunlatch work t; index_walk mid next t } }"

section \<open>Insertion\<close>

text \<open>
  The loop of \<open>upsert\<close> after a split: \<open>rnode\<close> is the new node to the right of \<open>current\<close>, and
  \<open>mid\<close> the separator between the two. Where \<open>current\<close> is the root, a new root is made.
\<close>

definition upsert_work ::
  "('k, 'v) tenv \<Rightarrow> addr list \<Rightarrow> nat \<Rightarrow> addr \<Rightarrow> ('k, 'v) fbtree \<Rightarrow> (addr \<times> addr list \<times> ('k, 'v) fbtree) option" where
  "upsert_work E path rootid current t =
     (if current = root t
      then let (work, t) = malloc_node (InnerN (inner_new (eraw_inner E (hnext t)))) t
           in Some (work, path, t)
      else case path of
          work # path \<Rightarrow> Some (work, path, t)
        | [] \<Rightarrow> if rootid < kMaxHeight then do { work \<leftarrow> root_track t ! rootid; Some (work, [], t) } else None)"

definition set_root :: "nat \<Rightarrow> addr \<Rightarrow> ('k, 'v) fbtree \<Rightarrow> ('k, 'v) fbtree option" where
  "set_root rootid work t =
     (if rootid < kMaxHeight
      then Some (t\<lparr>root_track := (root_track t)[rootid := Some work], root := work, tree_depth := tree_depth t + 1\<rparr>)
      else None)"

text \<open>\<open>insert\<close> into the inner node at \<open>work\<close>, with the node it allocates for a split.\<close>

definition insert_at_node ::
  "('k, 'v) tenv \<Rightarrow> addr \<Rightarrow> ptr \<Rightarrow> ptr \<Rightarrow> byte list \<Rightarrow> int \<Rightarrow> ('k, 'v) fbtree \<Rightarrow>
   ((addr \<times> byte list) option \<times> ('k, 'v) fbtree) option" where
  "insert_at_node E work lchild rchild mid index t =
     (if index < 0 then None
      else do { n \<leftarrow> inner_at work t;
                (split, n) \<leftarrow> inner_insert (hnext t) (eraw_inner E (hnext t)) lchild rchild mid (nat index) n;
                let t = put work (InnerN n) t;
                case split of
                  None \<Rightarrow> Some (None, t)
                | Some (r, mid) \<Rightarrow> let (rnode, t) = malloc_node (InnerN r) t in Some (Some (rnode, mid), t) })"

partial_function (option) upsert_up ::
  "('k, 'v) tenv \<Rightarrow> addr list \<Rightarrow> nat \<Rightarrow> addr \<Rightarrow> (addr \<times> byte list) option \<Rightarrow> ('k, 'v) fbtree \<Rightarrow>
   ('k, 'v) fbtree option" where
  "upsert_up E path rootid current split t =
     (case split of
        None \<Rightarrow> tunlatch current t
      | Some (rnode, mid) \<Rightarrow>
          do { (work, path, t) \<leftarrow> upsert_work E path (rootid + 1) current t;
               t \<leftarrow> tlatch work t;
               t \<leftarrow> (if current = root t then set_root (rootid + 1) work t else Some t);
               (work, index, t) \<leftarrow> index_walk mid work t;
               t \<leftarrow> tunlatch current t;
               (split, t) \<leftarrow> insert_at_node E work (Some current) (Some rnode) mid index t;
               upsert_up E path (rootid + 1) work split t })"

definition upsert_at_leaf ::
  "('k::{linorder,zero}, 'v) tenv \<Rightarrow> ('k, 'v) kv \<Rightarrow> addr \<Rightarrow> ('k, 'v) fbtree \<Rightarrow>
   (('k, 'v) kv option \<times> (addr \<times> byte list) option \<times> ('k, 'v) fbtree) option" where
  "upsert_at_leaf E kv current t =
     do { l \<leftarrow> leaf_at current t;
          (old, split, l) \<leftarrow> leaf_upsert (etag E) (eenc E) (hnext t) (eraw_leaf E (hnext t)) kv l;
          let t = put current (LeafN l) t;
          case split of
            None \<Rightarrow> Some (old, None, t)
          | Some (r, mid) \<Rightarrow> let (rnode, t) = malloc_node (LeafN r) t in Some (old, Some (rnode, mid), t) }"

definition upsert ::
  "('k::{linorder,zero}, 'v) tenv \<Rightarrow> ('k, 'v) kv \<Rightarrow> ('k, 'v) fbtree \<Rightarrow>
   (('k, 'v) kv option \<times> ('k, 'v) fbtree) option" where
  "upsert E kv t =
     do { (current, path) \<leftarrow> descend (eenc E (fst kv)) t (root t) [];
          t \<leftarrow> tlatch current t;
          (current, t) \<leftarrow> latch_walk (fst kv) current t;
          (old, split, t) \<leftarrow> upsert_at_leaf E kv current t;
          t \<leftarrow> upsert_up E path 0 current split t;
          Some (old, t) }"

section \<open>Removal\<close>

definition remove_at_leaf ::
  "('k, 'v) tenv \<Rightarrow> 'k \<Rightarrow> addr \<Rightarrow> ('k, 'v) fbtree \<Rightarrow>
   (('k, 'v) kv option \<times> (ptr \<times> byte list) option \<times> ('k, 'v) fbtree) option" where
  "remove_at_leaf E key current t =
     do { l \<leftarrow> leaf_at current t;
          let sp = lsibling l;
          (kv, merged, l, sib) \<leftarrow> leaf_remove (etag E) (eenc E) current key l (Option.bind sp (\<lambda>a. leaf_at a t));
          let t = put_opt sp (map_option LeafN sib) (put current (LeafN l) t);
          Some (kv, map_option (Pair sp) merged, t) }"

text \<open>
  What the loop of \<open>remove\<close> has to do at the next level: remove the separator of a merged
  node, or replace the separator of a node whose range became smaller.
\<close>

datatype pending = PMerged ptr "byte list" | PUp "byte list"

definition remove_at_node ::
  "addr \<Rightarrow> byte list \<Rightarrow> int \<Rightarrow> ('k, 'v) fbtree \<Rightarrow> (pending option \<times> ('k, 'v) fbtree) option" where
  "remove_at_node work mid index t =
     (if index < 0 then None
      else do { n \<leftarrow> inner_at work t;
                let sp = inext n;
                (r, n, sib) \<leftarrow> inner_remove work mid (nat index) n (Option.bind sp (\<lambda>a. inner_at a t));
                let t = put_opt sp (map_option InnerN sib) (put work (InnerN n) t);
                Some (case r of Removed \<Rightarrow> None | Merged mid \<Rightarrow> Some (PMerged sp mid) | Up mid \<Rightarrow> Some (PUp mid), t) })"

definition anchor_at_node ::
  "addr \<Rightarrow> byte list \<Rightarrow> int \<Rightarrow> ('k, 'v) fbtree \<Rightarrow> (pending option \<times> ('k, 'v) fbtree) option" where
  "anchor_at_node work mid index t =
     (if index < 0 then None
      else do { n \<leftarrow> inner_at work t;
                (up, n) \<leftarrow> anchor_update mid (nat index) n;
                Some (if up then Some (PUp mid) else None, put work (InnerN n) t) })"

text \<open>The steps at the root: where it has no separator left, its only child is the new root.\<close>

definition remove_root :: "addr \<Rightarrow> addr \<Rightarrow> ('k, 'v) fbtree \<Rightarrow> ('k, 'v) fbtree option" where
  "remove_root work current t =
     do { n \<leftarrow> inner_at work t;
          let (next, n) = root_remove n;
          let t = put work (InnerN n) t;
          t \<leftarrow> (case next of
                 Some (Some r) \<Rightarrow> Some (retire (Some work) (t\<lparr>root := r, tree_depth := tree_depth t - 1\<rparr>))
               | _ \<Rightarrow> Some t);
          tunlatch current t }"

definition remove_work :: "addr list \<Rightarrow> nat \<Rightarrow> ('k, 'v) fbtree \<Rightarrow> (addr \<times> addr list) option" where
  "remove_work path rootid t =
     (case path of
        work # path \<Rightarrow> Some (work, path)
      | [] \<Rightarrow> if rootid < kMaxHeight then do { work \<leftarrow> root_track t ! rootid; Some (work, []) } else None)"

partial_function (option) remove_up ::
  "addr list \<Rightarrow> nat \<Rightarrow> addr \<Rightarrow> pending option \<Rightarrow> ('k, 'v) fbtree \<Rightarrow> ('k, 'v) fbtree option" where
  "remove_up path rootid current todo t =
     (case todo of
        None \<Rightarrow> tunlatch current t
      | Some todo \<Rightarrow>
          do { let t = retire (case todo of PMerged p _ \<Rightarrow> p | PUp _ \<Rightarrow> None) t;
               let mid = (case todo of PMerged _ mid \<Rightarrow> mid | PUp mid \<Rightarrow> mid);
               (work, path) \<leftarrow> remove_work path (rootid + 1) t;
               t \<leftarrow> tlatch work t;
               (work, index, t) \<leftarrow> index_walk mid work t;
               t \<leftarrow> (if work \<noteq> root t then tunlatch current t else Some t);
               (todo, t) \<leftarrow> (case todo of PMerged _ _ \<Rightarrow> remove_at_node work mid index t
                             | PUp _ \<Rightarrow> anchor_at_node work mid index t);
               if work = root t
               then do { t \<leftarrow> remove_root work current t; tunlatch work t }
               else remove_up path (rootid + 1) work todo t })"

definition remove :: "('k::linorder, 'v) tenv \<Rightarrow> 'k \<Rightarrow> ('k, 'v) fbtree \<Rightarrow> (('k, 'v) kv option \<times> ('k, 'v) fbtree) option" where
  "remove E key t =
     do { (current, path) \<leftarrow> descend (eenc E key) t (root t) [];
          t \<leftarrow> tlatch current t;
          (current, t) \<leftarrow> latch_walk key current t;
          (kv, todo, t) \<leftarrow> remove_at_leaf E key current t;
          t \<leftarrow> remove_up path 0 current (map_option (\<lambda>(p, mid). PMerged p mid) todo) t;
          Some (kv, t) }"

section \<open>Update and lookup\<close>

partial_function (option) update_loop ::
  "('k::linorder, 'v) tenv \<Rightarrow> ('k, 'v) kv \<Rightarrow> addr \<Rightarrow> ('k, 'v) fbtree \<Rightarrow> (('k, 'v) kv option \<times> ('k, 'v) fbtree) option" where
  "update_loop E kv node t =
     do { nd \<leftarrow> heap t node;
          version \<leftarrow> begin_read (ncontrol nd);
          (node, version) \<leftarrow> leaf_walk (fst kv) t node version;
          l \<leftarrow> leaf_at node t;
          let (old, l) = leaf_update (etag E) kv l;
          if old \<noteq> None then Some (old, put node (LeafN l) t)
          else do { ok \<leftarrow> end_read (lcontrol l) version;
                    if ok then Some (None, t) else update_loop E kv node t } }"

definition update :: "('k::linorder, 'v) tenv \<Rightarrow> ('k, 'v) kv \<Rightarrow> ('k, 'v) fbtree \<Rightarrow> (('k, 'v) kv option \<times> ('k, 'v) fbtree) option" where
  "update E kv t =
     do { (node, _) \<leftarrow> descend (eenc E (fst kv)) t (root t) []; update_loop E kv node t }"

partial_function (option) lookup_loop ::
  "('k::linorder, 'v) tenv \<Rightarrow> 'k \<Rightarrow> ('k, 'v) fbtree \<Rightarrow> addr \<Rightarrow> ('k, 'v) kv option option" where
  "lookup_loop E key t node =
     do { nd \<leftarrow> heap t node;
          version \<leftarrow> begin_read (ncontrol nd);
          (node, version) \<leftarrow> leaf_walk key t node version;
          l \<leftarrow> leaf_at node t;
          let kv = leaf_lookup (etag E) l key;
          if kv \<noteq> None then Some kv
          else do { ok \<leftarrow> end_read (lcontrol l) version;
                    if ok then Some None else lookup_loop E key t node } }"

definition lookup :: "('k::linorder, 'v) tenv \<Rightarrow> 'k \<Rightarrow> ('k, 'v) fbtree \<Rightarrow> ('k, 'v) kv option option" where
  "lookup E key t = do { (node, _) \<leftarrow> descend (eenc E key) t (root t) []; lookup_loop E key t node }"


section \<open>Iteration\<close>

record ('k, 'v) iterator =
  it_node :: ptr
  it_version :: u64
  it_kv :: "('k, 'v) kv option"
  it_pos :: int

definition iterator_end :: "('k, 'v) iterator \<Rightarrow> bool" where
  "iterator_end it \<longleftrightarrow> it_kv it = None"

text \<open>\<open>access\<close> at the leaf \<open>node\<close>, with the leaf it may sort written back.\<close>

definition access_at ::
  "('k::linorder, 'v) tenv \<Rightarrow> addr \<Rightarrow> ('k, 'v) kv option \<Rightarrow> int \<Rightarrow> u64 \<Rightarrow> ('k, 'v) fbtree \<Rightarrow>
   (('k, 'v) kv option \<times> int \<times> u64 \<times> ('k, 'v) fbtree) option" where
  "access_at E node kv pos version t =
     do { l \<leftarrow> leaf_at node t;
          ((next, pos, version), l) \<leftarrow> leaf_access (etag E) (ejunk E) kv pos version l;
          Some (next, pos, version, put node (LeafN l) t) }"

text \<open>
  The loop of \<open>advance\<close>: \<open>node\<close>, \<open>next\<close>, \<open>pos\<close> and \<open>version\<close> are its local variables, the iterator
  \<open>it\<close> keeps the members until the end.
\<close>

partial_function (option) advance_loop ::
  "('k::linorder, 'v) tenv \<Rightarrow> ('k, 'v) iterator \<Rightarrow> addr \<Rightarrow> ('k, 'v) kv option \<Rightarrow> int \<Rightarrow> u64 \<Rightarrow> ('k, 'v) fbtree \<Rightarrow>
   (('k, 'v) iterator \<times> ('k, 'v) fbtree) option" where
  "advance_loop E it node next pos version t =
     (if next \<noteq> None
      then Some (\<lparr>it_node = Some node, it_version = version, it_kv = next, it_pos = pos\<rparr>, t)
      else
        do { l \<leftarrow> leaf_at node t;
             case leaf_sibling l of
               None \<Rightarrow> Some (\<lparr>it_node = None, it_version = version, it_kv = None, it_pos = pos\<rparr>, t)
             | Some node \<Rightarrow>
                 do { nd \<leftarrow> heap t node;
                      version \<leftarrow> begin_read (ncontrol nd);
                      (next, pos, version, t) \<leftarrow> access_at E node None 0 version t;
                      old \<leftarrow> it_node it;
                      nd \<leftarrow> heap t old;
                      same \<leftarrow> end_read (ncontrol nd) (it_version it);
                      if same
                      then Some (\<lparr>it_node = Some node, it_version = version, it_kv = next, it_pos = pos\<rparr>, t)
                      else do { (next, pos, version, t) \<leftarrow> access_at E node (it_kv it) 0 0 t;
                                advance_loop E it node next pos version t } } })"

definition advance ::
  "('k::linorder, 'v) tenv \<Rightarrow> ('k, 'v) iterator \<Rightarrow> ('k, 'v) fbtree \<Rightarrow> (('k, 'v) iterator \<times> ('k, 'v) fbtree) option" where
  "advance E it t =
     do { node \<leftarrow> it_node it;
          (next, pos, version, t) \<leftarrow> access_at E node (it_kv it) (it_pos it + 1) (it_version it) t;
          advance_loop E it node next pos version t }"

definition tree_begin :: "('k::linorder, 'v) tenv \<Rightarrow> ('k, 'v) fbtree \<Rightarrow> (('k, 'v) iterator \<times> ('k, 'v) fbtree) option" where
  "tree_begin E t =
     do { node \<leftarrow> root_track t ! 0;
          nd \<leftarrow> heap t node;
          version \<leftarrow> begin_read (ncontrol nd);
          (kv, pos, version, t) \<leftarrow> access_at E node None 0 version t;
          Some (\<lparr>it_node = Some node, it_version = version, it_kv = kv, it_pos = pos\<rparr>, t) }"

text \<open>
  \<open>get_bound\<close>: the optimistic read of an ordered leaf, repeated until its version is
  unchanged; a leaf that is not ordered is latched and sorted.
\<close>

definition bound_latched ::
  "('k::linorder, 'v) tenv \<Rightarrow> 'k \<Rightarrow> bool \<Rightarrow> addr \<Rightarrow> ('k, 'v) fbtree \<Rightarrow>
   (addr \<times> u64 \<times> ('k, 'v) kv option \<times> nat \<times> ('k, 'v) fbtree) option" where
  "bound_latched E key upper node t =
     do { t \<leftarrow> tlatch node t;
          (node, t) \<leftarrow> latch_walk key node t;
          l \<leftarrow> leaf_at node t;
          l \<leftarrow> leaf_kv_sort (ejunk E) l;
          (kv, pos) \<leftarrow> leaf_bound (etag E) key upper l;
          let version = load_version (lcontrol l);
          t \<leftarrow> tunlatch node (put node (LeafN l) t);
          Some (node, version, kv, pos, t) }"

partial_function (option) get_bound ::
  "('k::linorder, 'v) tenv \<Rightarrow> 'k \<Rightarrow> bool \<Rightarrow> addr \<Rightarrow> ('k, 'v) fbtree \<Rightarrow>
   (addr \<times> u64 \<times> ('k, 'v) kv option \<times> nat \<times> ('k, 'v) fbtree) option" where
  "get_bound E key upper node t =
     do { nd \<leftarrow> heap t node;
          version \<leftarrow> begin_read (ncontrol nd);
          (node, version) \<leftarrow> leaf_walk key t node version;
          l \<leftarrow> leaf_at node t;
          if \<not> ordered (lcontrol l) then bound_latched E key upper node t
          else do { (kv, pos) \<leftarrow> leaf_bound (etag E) key upper l;
                    same \<leftarrow> end_read (lcontrol l) version;
                    if same then Some (node, version, kv, pos, t) else get_bound E key upper node t } }"

text \<open>While there is no bound in a leaf the next one is searched.\<close>

partial_function (option) bound_loop ::
  "('k::linorder, 'v) tenv \<Rightarrow> 'k \<Rightarrow> bool \<Rightarrow> addr \<Rightarrow> ('k, 'v) fbtree \<Rightarrow> (('k, 'v) iterator \<times> ('k, 'v) fbtree) option" where
  "bound_loop E key upper node t =
     do { (node, version, kv, pos, t) \<leftarrow> get_bound E key upper node t;
          if kv \<noteq> None
          then Some (\<lparr>it_node = Some node, it_version = version, it_kv = kv, it_pos = int pos\<rparr>, t)
          else do { l \<leftarrow> leaf_at node t;
                    case leaf_sibling l of
                      None \<Rightarrow> Some (\<lparr>it_node = None, it_version = version, it_kv = None, it_pos = int pos\<rparr>, t)
                    | Some node \<Rightarrow> bound_loop E key upper node t } }"

definition tree_bound ::
  "('k::linorder, 'v) tenv \<Rightarrow> 'k \<Rightarrow> bool \<Rightarrow> ('k, 'v) fbtree \<Rightarrow> (('k, 'v) iterator \<times> ('k, 'v) fbtree) option" where
  "tree_bound E key upper t =
     do { (node, _) \<leftarrow> descend (eenc E key) t (root t) []; bound_loop E key upper node t }"

definition lower_bound ::
  "('k::linorder, 'v) tenv \<Rightarrow> 'k \<Rightarrow> ('k, 'v) fbtree \<Rightarrow> (('k, 'v) iterator \<times> ('k, 'v) fbtree) option" where
  "lower_bound E key t = tree_bound E key False t"

definition upper_bound ::
  "('k::linorder, 'v) tenv \<Rightarrow> 'k \<Rightarrow> ('k, 'v) fbtree \<Rightarrow> (('k, 'v) iterator \<times> ('k, 'v) fbtree) option" where
  "upper_bound E key t = tree_bound E key True t"

end
