(* ===== verification/Blocks.thy ===== *)
theory Blocks
  imports Prelude "HOL-Library.Multiset"
begin

text \<open>
  A sorted list that is cut into blocks, as the keys of one level of a B-link tree are cut into
  nodes. The bound of a block is its last element; the rank of a key among the bounds is the
  block that the key belongs to.
\<close>

section \<open>Bounds of blocks\<close>

definition block_bounds :: "'a list list \<Rightarrow> 'a list" where
  "block_bounds xss = map last (butlast xss)"

lemma block_bounds_Cons: "ys \<noteq> [] \<Longrightarrow> block_bounds (xs # ys) = last xs # block_bounds ys"
  by (simp add: block_bounds_def)

lemma block_bounds_subset: "\<forall>xs \<in> set (butlast xss). xs \<noteq> [] \<Longrightarrow> set (block_bounds xss) \<subseteq> set (concat xss)"
proof (rule subsetI)
  fix y assume ne: "\<forall>xs \<in> set (butlast xss). xs \<noteq> []" and "y \<in> set (block_bounds xss)"
  then obtain xs where xs: "xs \<in> set (butlast xss)" "y = last xs" by (auto simp: block_bounds_def)
  then have "y \<in> set xs" using ne by simp
  moreover have "xs \<in> set xss" using xs(1) by (rule in_set_butlastD)
  ultimately show "y \<in> set (concat xss)" by auto
qed

lemma sorted_block_bounds:
  fixes xss :: "'a::linorder list list"
  assumes "sorted_wrt (<) (concat xss)" "\<forall>xs \<in> set (butlast xss). xs \<noteq> []"
  shows "sorted_wrt (<) (block_bounds xss)"
  using assms
proof (induction xss)
  case (Cons xs xss)
  show ?case
  proof (cases "xss = []")
    case False
    with Cons.prems have ne: "xs \<noteq> []" "\<forall>xs \<in> set (butlast xss). xs \<noteq> []" by auto
    have lt: "last xs < y" if "y \<in> set (concat xss)" for y
      using Cons.prems(1) ne(1) that by (auto simp: sorted_wrt_append)
    then have "last xs < y" if "y \<in> set (block_bounds xss)" for y
      using block_bounds_subset[OF ne(2)] that by blast
    with Cons ne False show ?thesis by (auto simp: block_bounds_Cons sorted_wrt_append)
  qed (simp add: block_bounds_def)
qed (simp add: block_bounds_def)

lemma block_rank:
  fixes xss :: "'a::linorder list list"
  assumes "xss \<noteq> []" "sorted_wrt (<) (concat xss)" "\<forall>xs \<in> set (butlast xss). xs \<noteq> []"
    and "p = rank k (block_bounds xss)"
  shows "p < length xss \<and> rank k (concat xss) = length (concat (take p xss)) + rank k (xss ! p) \<and>
    (Suc p < length xss \<longrightarrow> rank k (xss ! p) < length (xss ! p))"
  using assms
proof (induction xss arbitrary: p)
  case (Cons xs xss)
  show ?case
  proof (cases "xss = []")
    case True
    with Cons.prems show ?thesis by (simp add: block_bounds_def)
  next
    case False
    with Cons.prems have ne: "xs \<noteq> []" "\<forall>xs \<in> set (butlast xss). xs \<noteq> []" by auto
    have so: "sorted_wrt (<) xs" "sorted_wrt (<) (concat xss)"
      "\<And>x y. x \<in> set xs \<Longrightarrow> y \<in> set (concat xss) \<Longrightarrow> x < y"
      using Cons.prems(2) by (auto simp: sorted_wrt_append)
    show ?thesis
    proof (cases "last xs < k")
      case True
      have "x \<le> last xs" if "x \<in> set xs" for x
        using so(1) that ne(1) by (metis append_butlast_last_id sorted_wrt_append list.set_intros(1)
            Un_iff set_append empty_iff list.set(1) set_ConsD less_imp_le order_refl)
      then have "rank k xs = length xs" using True by (intro rank_eq_length) force
      with Cons.IH[OF False so(2) ne(2) refl, of] Cons.prems(4) False True show ?thesis
        by (auto simp: block_bounds_Cons)
    next
      case F: False
      have ge: "k \<le> y" if "y \<in> set (concat xss)" for y
        using F so(3)[of "last xs" y] ne(1) that by fastforce
      then have "rank k (concat xss) = 0" by (rule rank_eq_0)
      moreover have "rank k (block_bounds xss) = 0"
        by (rule rank_eq_0, rule ge, rule subsetD[OF block_bounds_subset[OF ne(2)]])
      moreover have "rank k xs < length xs"
        using F ne(1) unfolding rank_def by (intro length_filter_less[of "last xs"]) auto
      ultimately show ?thesis using Cons.prems(4) False F by (simp add: block_bounds_Cons)
    qed
  qed
qed simp

text \<open>Two keys with the same rank in a list have the same rank in every part of it.\<close>

lemma rank_same_side:
  fixes xs :: "'a::linorder list"
  assumes "sorted_wrt (<) xs" "rank a xs = rank b xs" "y \<in> set xs"
  shows "y < a \<longleftrightarrow> y < b"
proof -
  obtain i where i: "i < length xs" "y = xs ! i" using assms(3) by (auto simp: in_set_conv_nth)
  show ?thesis
    using rank_nth_less[OF assms(1), of i a] rank_nth_ge[OF assms(1), of a i]
      rank_nth_less[OF assms(1), of i b] rank_nth_ge[OF assms(1), of b i] i assms(2)
    by (cases "i < rank a xs") auto
qed

lemma rank_subset_cong:
  assumes "sorted_wrt (<) xs" "rank a xs = rank b xs" "set ys \<subseteq> set xs"
  shows "rank a ys = rank b ys"
  using rank_same_side[OF assms(1,2)] assms(3) unfolding rank_def
  by (intro arg_cong[where f = length] filter_cong) auto

text \<open>Updates inside one block.\<close>

lemma concat_split: "p < length xss \<Longrightarrow> concat xss = concat (take p xss) @ xss ! p @ concat (drop (Suc p) xss)"
  using arg_cong[OF id_take_nth_drop[of p xss], of concat] by simp

lemma concat_update: "p < length xss \<Longrightarrow> concat (xss[p := ys]) = concat (take p xss) @ ys @ concat (drop (Suc p) xss)"
  by (simp add: upd_conv_take_nth_drop)

lemma insert_at_append: "i \<le> length ys \<Longrightarrow> insert_at (length xs + i) x (xs @ ys @ zs) = xs @ insert_at i x ys @ zs"
  by (simp add: insert_at_def)

lemma concat_insert_block:
  assumes "p < length xss" "i \<le> length (xss ! p)"
  shows "concat (xss[p := insert_at i x (xss ! p)]) = insert_at (length (concat (take p xss)) + i) x (concat xss)"
  unfolding concat_split[OF assms(1)] concat_update[OF assms(1)] insert_at_append[OF assms(2)] ..

lemma concat_split_block:
  assumes "p < length xss" "i \<le> length (xss ! p)" "ys @ zs = insert_at i x (xss ! p)"
  shows "concat (insert_at (Suc p) zs (xss[p := ys])) = insert_at (length (concat (take p xss)) + i) x (concat xss)"
proof -
  have "concat (insert_at (Suc p) zs (xss[p := ys])) = concat (take p xss) @ (ys @ zs) @ concat (drop (Suc p) xss)"
    using assms(1) by (simp add: insert_at_def upd_conv_take_nth_drop min_def)
  also have "\<dots> = concat (xss[p := insert_at i x (xss ! p)])" using assms by (simp add: concat_update)
  finally show ?thesis using concat_insert_block[OF assms(1,2)] by simp
qed

section \<open>Insertions\<close>

lemma last_insert_at: "q < length xs \<Longrightarrow> last (insert_at q x xs) = last xs"
  by (simp add: insert_at_def last_append last_drop)

lemma list_all_update: "list_all P xs \<Longrightarrow> P y \<Longrightarrow> list_all P (xs[i := y])"
  by (cases "i < length xs") (auto simp: list_all_length nth_list_update)

lemma block_bounds_update:
  "(Suc p < length xss \<Longrightarrow> last ys = last (xss ! p)) \<Longrightarrow> block_bounds (xss[p := ys]) = block_bounds xss"
  unfolding block_bounds_def
  by (cases "p < length xss") (auto simp: nth_butlast nth_list_update intro!: nth_equalityI)

lemma block_bounds_insert:
  assumes "p < length xss" "Suc p < length xss \<Longrightarrow> last zs = last (xss ! p)"
  shows "block_bounds (insert_at (Suc p) zs (xss[p := ys])) = insert_at p (last ys) (block_bounds xss)"
proof (rule nth_equalityI)
  have l: "p \<le> length (block_bounds xss)" "length (block_bounds xss) = length xss - 1"
    using assms(1) by (auto simp: block_bounds_def)
  then show "length (block_bounds (insert_at (Suc p) zs (xss[p := ys]))) = length (insert_at p (last ys) (block_bounds xss))"
    using assms(1) by (simp add: block_bounds_def)
  fix i assume "i < length (block_bounds (insert_at (Suc p) zs (xss[p := ys])))"
  then have "i < length xss" using assms(1) by (simp add: block_bounds_def)
  then show "block_bounds (insert_at (Suc p) zs (xss[p := ys])) ! i = insert_at p (last ys) (block_bounds xss) ! i"
    using assms l by (auto simp: block_bounds_def nth_butlast nth_insert_at nth_list_update)
qed

lemma sorted_insert_rank:
  fixes xs :: "'a::linorder list"
  assumes "sorted_wrt (<) (insert_at i x xs)" "i \<le> length xs"
  shows "rank x xs = i" "x \<notin> set xs"
proof -
  have a: "y < x" if "y \<in> set (take i xs)" for y using assms(1) that by (auto simp: insert_at_def sorted_wrt_append)
  have b: "x < y" if "y \<in> set (drop i xs)" for y using assms(1) that by (auto simp: insert_at_def sorted_wrt_append)
  have "rank x (take i xs @ drop i xs) = i"
    unfolding rank_append using a b assms(2) rank_eq_length[of "take i xs" x] rank_eq_0[of "drop i xs" x]
    by (auto simp: less_imp_le)
  then show "rank x xs = i" by simp
  have "x \<notin> set (take i xs)" "x \<notin> set (drop i xs)" using a b by blast+
  then show "x \<notin> set xs" using set_append[of "take i xs" "drop i xs"] by simp
qed

lemma hd_insert_Suc: "xs \<noteq> [] \<Longrightarrow> hd (insert_at (Suc p) x xs) = hd xs"
  by (cases xs) (simp_all add: insert_at_def)

lemma distinct_insert_at: "distinct (insert_at i x xs) \<longleftrightarrow> distinct xs \<and> x \<notin> set xs"
proof -
  have "mset (insert_at i x xs) = mset (x # take i xs @ drop i xs)"
    by (simp add: insert_at_def del: append_take_drop_id)
  then have "distinct (insert_at i x xs) \<longleftrightarrow> distinct (x # take i xs @ drop i xs)"
    by (rule mset_eq_imp_distinct_iff)
  then show ?thesis unfolding append_take_drop_id by auto
qed

end
