(* ===== verification/Levels.thy ===== *)
theory Levels
  imports Tree Blocks
begin

text \<open>
  The shape of the tree. A tree is a list of leaves and, above them, the levels of inner nodes,
  each a list from left to right. The children of the nodes of a level are, in order, the nodes
  of the level below; its separators are the upper bounds of all of these but the last one. The
  position of a key at a level is its rank in the bounds of that level, and the descent visits
  exactly these positions.
\<close>

section \<open>Levels of nodes\<close>

text \<open>
  The nodes of a level are linked from left to right by their siblings, and none of them is
  deleted or latched.
\<close>

definition linked :: "('n \<Rightarrow> u64) \<Rightarrow> ('n \<Rightarrow> ptr) \<Rightarrow> (addr \<times> 'n) list \<Rightarrow> bool" where
  "linked ctl nxt xs \<longleftrightarrow> xs \<noteq> [] \<and>
     (\<forall>j<length xs. \<not> deleted (ctl (snd (xs ! j))) \<and> \<not> locked (ctl (snd (xs ! j))) \<and>
        (if Suc j < length xs
         then has_sibling (ctl (snd (xs ! j))) \<and> nxt (snd (xs ! j)) = Some (fst (xs ! Suc j))
         else \<not> has_sibling (ctl (snd (xs ! j)))))"

definition level_bounds :: "(addr \<times> inode) list \<Rightarrow> int list list" where
  "level_bounds ns = block_bounds (map (sep_keys \<circ> snd) ns)"

definition level_ok :: "nat \<Rightarrow> (addr \<times> inode) list \<Rightarrow> addr list \<Rightarrow> int list list \<Rightarrow> bool" where
  "level_ok F ns addrs bnds \<longleftrightarrow>
     linked icontrol inext ns \<and> list_all (\<lambda>x. inner_inv F (snd x)) ns \<and>
     list_all (\<lambda>x. 0 < knum (snd x)) (butlast ns) \<and>
     concat (map (kids \<circ> snd) ns) = map Some addrs \<and> concat (map (sep_keys \<circ> snd) ns) = bnds"

text \<open>All levels of inner nodes, the lowest first, above nodes with these addresses and bounds.\<close>

fun inners_ok :: "nat \<Rightarrow> (addr \<times> inode) list list \<Rightarrow> addr list \<Rightarrow> int list list \<Rightarrow> bool" where
  "inners_ok F [] addrs bnds \<longleftrightarrow> length addrs = 1 \<and> bnds = []"
| "inners_ok F (ns # nss) addrs bnds \<longleftrightarrow>
     level_ok F ns addrs bnds \<and> inners_ok F nss (map fst ns) (level_bounds ns)"

text \<open>The nodes that a descent for the encoded key \<open>k\<close> visits, from below.\<close>

fun path_at :: "int list \<Rightarrow> (addr \<times> inode) list list \<Rightarrow> addr list" where
  "path_at k [] = []"
| "path_at k (ns # nss) = fst (ns ! rank k (level_bounds ns)) # path_at k nss"

lemma linkedD:
  assumes "linked ctl nxt xs" "j < length xs"
  shows "\<not> deleted (ctl (snd (xs ! j)))" "\<not> locked (ctl (snd (xs ! j)))"
    "has_sibling (ctl (snd (xs ! j))) \<longleftrightarrow> Suc j < length xs"
    "Suc j < length xs \<Longrightarrow> nxt (snd (xs ! j)) = Some (fst (xs ! Suc j))"
  using assms unfolding linked_def by (auto split: if_splits)

lemma level_okD:
  assumes "level_ok F ns addrs bnds"
  shows "ns \<noteq> []" "j < length ns \<Longrightarrow> inner_inv F (snd (ns ! j))"
    "Suc j < length ns \<Longrightarrow> 0 < knum (snd (ns ! j))"
    "concat (map (kids \<circ> snd) ns) = map Some addrs" "concat (map (sep_keys \<circ> snd) ns) = bnds"
    "\<forall>xs \<in> set (butlast (map (sep_keys \<circ> snd) ns)). xs \<noteq> []"
proof -
  note a = assms[unfolded level_ok_def]
  show "ns \<noteq> []" using a by (simp add: linked_def)
  show "j < length ns \<Longrightarrow> inner_inv F (snd (ns ! j))" using a by (simp add: list_all_length)
  show "Suc j < length ns \<Longrightarrow> 0 < knum (snd (ns ! j))"
    using a by (auto simp: list_all_length nth_butlast)
  show "concat (map (kids \<circ> snd) ns) = map Some addrs" "concat (map (sep_keys \<circ> snd) ns) = bnds"
    using a by simp_all
  have "0 < knum (snd x)" if "x \<in> set (butlast ns)" for x using a that by (simp add: list_all_iff)
  then show "\<forall>xs \<in> set (butlast (map (sep_keys \<circ> snd) ns)). xs \<noteq> []"
    by (auto simp: map_butlast[symmetric] sep_keys_def seps_def)
qed

lemma level_offsets:
  assumes "level_ok F ns addrs bnds" "p < length ns"
  shows "length (concat (take p (map (kids \<circ> snd) ns))) = length (concat (take p (map (sep_keys \<circ> snd) ns)))"
proof -
  have "length (kids (snd (ns ! j))) = length (sep_keys (snd (ns ! j)))" if "j < p" for j
    using length_kids[OF level_okD(2)[OF assms(1)], of j] linkedD(3)[of icontrol inext ns j] assms that
    by (simp add: level_ok_def)
  then have "map length (take p (map (kids \<circ> snd) ns)) = map length (take p (map (sep_keys \<circ> snd) ns))"
    using assms(2) by (intro nth_equalityI) auto
  then show ?thesis by (simp add: length_concat)
qed

text \<open>One step down: the node at the position of the key has the child at its position.\<close>

lemma level_step:
  assumes ok: "level_ok F ns addrs bnds" and s: "sorted_wrt (<) bnds"
    and p: "p = rank k (level_bounds ns)" and n: "n = snd (ns ! p)" and q: "q = rank k (sep_keys n)"
  shows "p < length ns" "rank k bnds = length (concat (take p (map (sep_keys \<circ> snd) ns))) + q"
    "q < length (kids n)" "kids n ! q = Some (addrs ! rank k bnds)" "rank k bnds < length addrs"
    "Suc p < length ns \<Longrightarrow> q < knum n"
proof -
  let ?xss = "map (sep_keys \<circ> snd) ns" and ?yss = "map (kids \<circ> snd) ns"
  note D = level_okD[OF ok]
  have b: "p < length ?xss \<and> rank k (concat ?xss) = length (concat (take p ?xss)) + rank k (?xss ! p) \<and>
      (Suc p < length ?xss \<longrightarrow> rank k (?xss ! p) < length (?xss ! p))"
    using D s p unfolding level_bounds_def by (intro block_rank) auto
  then show pl: "p < length ns" by simp
  show r: "rank k bnds = length (concat (take p ?xss)) + q"
    using b pl D(5) n q by simp
  show qk: "Suc p < length ns \<Longrightarrow> q < knum n" using b pl n q by simp
  show ql: "q < length (kids n)"
  proof (cases "Suc p < length ns")
    case True
    then show ?thesis using qk length_kids[OF D(2)[OF pl]] n by simp
  next
    case False
    then have "\<not> has_sibling (icontrol n)"
      using linkedD(3)[of icontrol inext ns p] ok pl n by (simp add: level_ok_def)
    then show ?thesis
      using length_kids[OF D(2)[OF pl]] n q rank_le[of k "sep_keys n"] by simp
  qed
  have "concat ?yss = concat (take p ?yss) @ kids n @ concat (drop (Suc p) ?yss)"
    using concat_split[of p ?yss] pl n by simp
  then have m: "map Some addrs = concat (take p ?yss) @ kids n @ concat (drop (Suc p) ?yss)" using D(4) by simp
  have l: "length (concat (take p ?yss)) + q = rank k bnds" using level_offsets[OF ok pl] r by simp
  show a: "rank k bnds < length addrs" using arg_cong[OF m, of length] l ql by simp
  have "map Some addrs ! rank k bnds = kids n ! q" unfolding m l[symmetric] using ql by (simp add: nth_append)
  then show "kids n ! q = Some (addrs ! rank k bnds)" using a by simp
qed

section \<open>Descent\<close>

fun top_addrs :: "addr list \<Rightarrow> (addr \<times> inode) list list \<Rightarrow> addr list" where
  "top_addrs addrs [] = addrs"
| "top_addrs addrs (ns # nss) = top_addrs (map fst ns) nss"

definition stores_inner :: "('k, 'v) fbtree \<Rightarrow> addr \<times> inode \<Rightarrow> bool" where
  "stores_inner t x \<longleftrightarrow> heap t (fst x) = Some (InnerN (snd x))"

definition stores_inners :: "('k, 'v) fbtree \<Rightarrow> (addr \<times> inode) list list \<Rightarrow> bool" where
  "stores_inners t nss \<longleftrightarrow> list_all (list_all (stores_inner t)) nss"

lemma sorted_level_bounds:
  "level_ok F ns addrs bnds \<Longrightarrow> sorted_wrt (<) bnds \<Longrightarrow> sorted_wrt (<) (level_bounds ns)"
  unfolding level_bounds_def using level_okD(5,6) by (intro sorted_block_bounds) auto

lemma set_level_bounds: "level_ok F ns addrs bnds \<Longrightarrow> set (level_bounds ns) \<subseteq> set bnds"
  unfolding level_bounds_def using level_okD(5,6) block_bounds_subset by metis

lemma descend_levels:
  assumes "inners_ok F nss addrs bnds" "sorted_wrt (<) bnds" "stores_inners t nss" "length key = F"
  shows "descend key t (hd (top_addrs addrs nss)) [] =
    descend key t (addrs ! rank (schars key) bnds) (path_at (schars key) nss)"
  using assms
proof (induction nss arbitrary: addrs bnds)
  case Nil
  then show ?case by (cases addrs) auto
next
  case (Cons ns nss)
  let ?p = "rank (schars key) (level_bounds ns)"
  let ?n = "snd (ns ! ?p)"
  let ?q = "rank (schars key) (sep_keys ?n)"
  have ok: "level_ok F ns addrs bnds" using Cons.prems by simp
  note st = level_step[OF ok Cons.prems(2) refl refl refl, of "schars key"]
  have inv: "inner_inv F ?n" using level_okD(2)[OF ok st(1)] .
  have l: "\<not> deleted (icontrol ?n)" "\<not> locked (icontrol ?n)"
    using linkedD(1,2)[of icontrol inext ns ?p] ok st(1) by (simp_all add: level_ok_def)
  have "list_all (stores_inner t) ns" using Cons.prems(3) by (simp add: stores_inners_def)
  then have "stores_inner t (ns ! ?p)" using st(1) by (simp add: list_all_length)
  then have h: "heap t (fst (ns ! ?p)) = Some (InnerN ?n)" by (simp add: stores_inner_def)
  have "route ?n key = (False, Some (addrs ! rank (schars key) bnds))"
    using route_kids[OF inv, of key] st(3,4) by (simp add: Let_def)
  then have tn: "to_next key ?n = Some (False, Some (addrs ! rank (schars key) bnds))"
    using to_next_route[OF inv Cons.prems(4) l] by simp
  have "descend key t (hd (top_addrs (map fst ns) nss)) [] =
      descend key t (map fst ns ! ?p) (path_at (schars key) nss)"
    using Cons sorted_level_bounds[OF ok] by (simp add: stores_inners_def)
  also have "\<dots> = descend key t (addrs ! rank (schars key) bnds) (path_at (schars key) (ns # nss))"
    using inv by (subst descend.simps) (simp add: st(1) h is_leaf_def inner_at_def tn inner_inv_def)
  finally show ?case by simp
qed

section \<open>The invariant of a tree\<close>

definition highs :: "(addr \<times> ('k, 'v) leaf) list \<Rightarrow> 'k list" where
  "highs ls = map (lhigh \<circ> snd) (butlast ls)"

definition leaves_ok :: "('k::linorder \<Rightarrow> byte) \<Rightarrow> (addr \<times> ('k, 'v) leaf) list \<Rightarrow> bool" where
  "leaves_ok h ls \<longleftrightarrow> linked lcontrol lsibling ls \<and> sorted_wrt (<) (highs ls) \<and>
     (\<forall>j<length ls. leaf_inv h (snd (ls ! j)) \<and>
        list_all (\<lambda>kv. rank (fst kv) (highs ls) = j) (leaf_kvs (snd (ls ! j))))"

definition enc_highs :: "('k \<Rightarrow> byte list) \<Rightarrow> (addr \<times> ('k, 'v) leaf) list \<Rightarrow> int list list" where
  "enc_highs enc ls = map (schars \<circ> enc) (highs ls)"

definition stores_leaf :: "('k, 'v) fbtree \<Rightarrow> addr \<times> ('k, 'v) leaf \<Rightarrow> bool" where
  "stores_leaf t x \<longleftrightarrow> heap t (fst x) = Some (LeafN (snd x))"

definition level_addrs :: "(addr \<times> ('k, 'v) leaf) list \<Rightarrow> (addr \<times> inode) list list \<Rightarrow> addr list list" where
  "level_addrs ls nss = map fst ls # map (map fst) nss"

text \<open>
  The whole invariant: the heap holds these leaves and inner nodes, at different addresses, and
  the root, the depth and the leftmost nodes of the levels are the recorded ones.
\<close>

definition tree_ok ::
  "('k::linorder, 'v) tenv \<Rightarrow> nat \<Rightarrow> ('k, 'v) fbtree \<Rightarrow> (addr \<times> ('k, 'v) leaf) list \<Rightarrow> (addr \<times> inode) list list \<Rightarrow> bool"
where
  "tree_ok E F t ls nss \<longleftrightarrow>
     leaves_ok (etag E) ls \<and> inners_ok F nss (map fst ls) (enc_highs (eenc E) ls) \<and>
     list_all (stores_leaf t) ls \<and> stores_inners t nss \<and>
     distinct (concat (level_addrs ls nss)) \<and> list_all (\<lambda>a. a < hnext t) (concat (level_addrs ls nss)) \<and>
     root t = hd (top_addrs (map fst ls) nss) \<and> tree_depth t = Suc (length nss) \<and>
     length (root_track t) = kMaxHeight \<and> tree_depth t \<le> kMaxHeight \<and>
     (\<forall>i<length (level_addrs ls nss). root_track t ! i = Some (hd (level_addrs ls nss ! i)))"

text \<open>The abstraction: the pairs of all leaves, from left to right.\<close>

definition tree_kvs :: "(addr \<times> ('k, 'v) leaf) list \<Rightarrow> ('k, 'v) kv list" where
  "tree_kvs ls = concat (map (leaf_kvs \<circ> snd) ls)"

definition tree_map :: "(addr \<times> ('k, 'v) leaf) list \<Rightarrow> 'k \<Rightarrow> 'v option" where
  "tree_map ls = map_of (tree_kvs ls)"

end
