(* ===== verification/TreeSearch.thy ===== *)
theory TreeSearch
  imports Levels
begin

text \<open>
  Lookup and update in a tree. The interface \<open>tree_codec\<close> collects what the tree needs of the
  key type and of memory; inside it, \<open>lookup\<close> reads the map that the leaves hold, and \<open>update\<close>
  changes it at a key that is there. Both always return.
\<close>

section \<open>The interface of a key type\<close>

locale tree_codec = key_codec "eenc E" F for E :: "('k::{linorder,zero}, 'v) tenv" and F +
  assumes raw_leaf: "leaf_sized (eraw_leaf E a)"
    and raw_inner: "inner_sized F (eraw_inner E a)"
    and junk: "length (ejunk E) = 64"
begin

lemma enc_rank: "rank (schars (eenc E k)) (map (schars \<circ> eenc E) ks) = rank k ks"
  by (induction ks) (simp_all add: enc_less)

lemma enc_highs_rank: "rank (schars (eenc E k)) (enc_highs (eenc E) ls) = rank k (highs ls)"
  unfolding enc_highs_def by (rule enc_rank)

lemma enc_sorted: "sorted_wrt (<) ks \<Longrightarrow> sorted_wrt (<) (map (schars \<circ> eenc E) ks)"
  by (simp add: sorted_wrt_map enc_less)

end

text \<open>Memory of the right size with any content.\<close>

record ('k, 'v) garbage =
  g_leaf :: "addr \<Rightarrow> u64 \<times> u64 \<times> 'k \<times> ptr"
  g_tags :: "addr \<Rightarrow> nat \<Rightarrow> byte"
  g_kvs :: "addr \<Rightarrow> nat \<Rightarrow> ('k, 'v) kv option"
  g_inner :: "addr \<Rightarrow> u64 \<times> nat \<times> nat \<times> ptr"
  g_prefix :: "addr \<Rightarrow> nat \<Rightarrow> byte"
  g_features :: "addr \<Rightarrow> nat \<Rightarrow> nat \<Rightarrow> byte"
  g_children :: "addr \<Rightarrow> nat \<Rightarrow> ptr"
  g_junk :: "nat \<Rightarrow> byte"

definition raw_leaf_of :: "('k, 'v) garbage \<Rightarrow> addr \<Rightarrow> ('k, 'v) leaf" where
  "raw_leaf_of G a = (case g_leaf G a of (c, b, k, s) \<Rightarrow>
     \<lparr>lcontrol = c, lbitmap = b, lhigh = k, lsibling = s,
      ltags = map (g_tags G a) [0..<64], lkvs = map (g_kvs G a) [0..<64]\<rparr>)"

definition raw_inner_of :: "nat \<Rightarrow> ('k, 'v) garbage \<Rightarrow> addr \<Rightarrow> inode" where
  "raw_inner_of F G a = (case g_inner G a of (c, k, p, s) \<Rightarrow>
     \<lparr>icontrol = c, knum = k, plen = p, prefix = map (g_prefix G a) [0..<8], inext = s,
      features = map (\<lambda>r. map (g_features G a r) [0..<64]) [0..<F], ichildren = map (g_children G a) [0..<64]\<rparr>)"

definition env_of :: "('k \<Rightarrow> byte) \<Rightarrow> ('k \<Rightarrow> byte list) \<Rightarrow> nat \<Rightarrow> ('k, 'v) garbage \<Rightarrow> ('k, 'v) tenv" where
  "env_of tag enc F G =
     \<lparr>etag = tag, eenc = enc, eraw_leaf = raw_leaf_of G, eraw_inner = raw_inner_of F G,
      ejunk = map (g_junk G) [0..<64]\<rparr>"

lemma env_of_enc [simp]: "eenc (env_of tag enc F G) = enc"
  by (simp add: env_of_def)

lemma env_of_sized:
  "leaf_sized (eraw_leaf (env_of tag enc F G) a)"
  "0 < F \<Longrightarrow> F \<le> 8 \<Longrightarrow> inner_sized F (eraw_inner (env_of tag enc F G) a)"
  "length (ejunk (env_of tag enc F G)) = 64"
  by (simp_all add: env_of_def leaf_sized_def raw_leaf_of_def raw_inner_of_def inner_sized_def
      kInnerSize_def kLeafSize_def list_all_length split: prod.splits)

interpretation u64t: tree_codec "env_of tag_u64 enc_u64 8 G" 8 for G
  by unfold_locales (simp_all add: env_of_sized u64c.enc_length u64c.enc_less)

interpretation u32t: tree_codec "env_of tag_u32 enc_u32 4 G" 4 for G
  by unfold_locales (simp_all add: env_of_sized u32c.enc_length u32c.enc_less)

interpretation i64t: tree_codec "env_of tag_i64 enc_i64 8 G" 8 for G
  by unfold_locales (simp_all add: env_of_sized i64c.enc_length i64c.enc_less)

interpretation i32t: tree_codec "env_of tag_i32 enc_i32 4 G" 4 for G
  by unfold_locales (simp_all add: env_of_sized i32c.enc_length i32c.enc_less)

section \<open>The leaf of a key\<close>

lemma map_of_concat_at:
  assumes "j < length xss" "\<And>i. i < length xss \<Longrightarrow> i \<noteq> j \<Longrightarrow> k \<notin> fst ` set (xss ! i)"
  shows "map_of (concat xss) k = map_of (xss ! j) k"
proof -
  have a: "map_of (concat yss) k = None" if "\<And>ys. ys \<in> set yss \<Longrightarrow> k \<notin> fst ` set ys" for yss :: "('a \<times> 'b) list list"
    using that by (force simp: map_of_eq_None_iff)
  have "map_of (concat (take j xss)) k = None"
  proof (rule a)
    fix ys assume "ys \<in> set (take j xss)"
    then obtain i where "i < j" "ys = xss ! i" using assms(1) by (auto simp: in_set_conv_nth)
    then show "k \<notin> fst ` set ys" using assms(2)[of i] assms(1) by simp
  qed
  moreover have "map_of (concat (drop (Suc j) xss)) k = None"
  proof (rule a)
    fix ys assume "ys \<in> set (drop (Suc j) xss)"
    then obtain i where "i < length xss - Suc j" "ys = xss ! (Suc j + i)" by (auto simp: in_set_conv_nth)
    then show "k \<notin> fst ` set ys" using assms(2)[of "Suc j + i"] by simp
  qed
  ultimately show ?thesis
    unfolding concat_split[OF assms(1)] by (auto simp: map_of_append map_add_def split: option.splits)
qed

lemma leaves_okD:
  assumes "leaves_ok h ls" "j < length ls"
  shows "leaf_inv h (snd (ls ! j))" "leaf_map (snd (ls ! j)) k = Some v \<Longrightarrow> rank k (highs ls) = j"
proof -
  show "leaf_inv h (snd (ls ! j))" using assms by (simp add: leaves_ok_def)
  assume "leaf_map (snd (ls ! j)) k = Some v"
  then have "(k, v) \<in> set (leaf_kvs (snd (ls ! j)))" unfolding leaf_map_def by (rule map_of_SomeD)
  then show "rank k (highs ls) = j" using assms by (force simp: leaves_ok_def list_all_iff)
qed

lemma leaf_position:
  assumes ok: "leaves_ok h ls" and j: "j = rank k (highs ls)"
  shows "j < length ls" "leaf_to_sibling k (snd (ls ! j)) = None"
    "tree_map ls k = leaf_map (snd (ls ! j)) k"
proof -
  have l: "linked lcontrol lsibling ls" and s: "sorted_wrt (<) (highs ls)" using ok by (simp_all add: leaves_ok_def)
  have ne: "ls \<noteq> []" using l by (simp add: linked_def)
  have len: "length (highs ls) = length ls - 1" by (simp add: highs_def)
  have "0 < length ls" using ne by simp
  then show jl: "j < length ls" using j rank_le[of k "highs ls"] len by linarith
  have "k \<le> lhigh (snd (ls ! j))" if "Suc j < length ls"
    using rank_nth_ge[OF s, of k j] j that len by (simp add: highs_def nth_butlast)
  then show "leaf_to_sibling k (snd (ls ! j)) = None"
    using linkedD(1,3)[OF l jl] by (auto simp: leaf_to_sibling_def)
  have out: "k \<notin> fst ` set (leaf_kvs (snd (ls ! i)))" if "i < length ls" "i \<noteq> j" for i
  proof
    assume "k \<in> fst ` set (leaf_kvs (snd (ls ! i)))"
    then have "rank k (highs ls) = i" using ok that(1) by (auto simp: leaves_ok_def list_all_iff)
    with j that(2) show False by simp
  qed
  show "tree_map ls k = leaf_map (snd (ls ! j)) k"
    using map_of_concat_at[of j "map (leaf_kvs \<circ> snd) ls" k] out jl
    by (simp add: tree_map_def tree_kvs_def leaf_map_def)
qed

lemma tree_okD:
  assumes "tree_ok E F t ls nss"
  shows "leaves_ok (etag E) ls" "inners_ok F nss (map fst ls) (enc_highs (eenc E) ls)"
    "stores_inners t nss" "root t = hd (top_addrs (map fst ls) nss)"
    "j < length ls \<Longrightarrow> heap t (fst (ls ! j)) = Some (LeafN (snd (ls ! j)))"
    "distinct (concat (level_addrs ls nss))" "a \<in> set (concat (level_addrs ls nss)) \<Longrightarrow> a < hnext t"
  using assms by (auto simp: tree_ok_def stores_leaf_def list_all_iff)

section \<open>Replacing a leaf\<close>

lemma highs_update: "lhigh l' = lhigh (snd (ls ! j)) \<Longrightarrow> highs (ls[j := (a, l')]) = highs ls"
  unfolding highs_def by (cases "j < length ls") (auto simp: nth_butlast nth_list_update intro!: nth_equalityI)

lemma map_fst_update: "j < length ls \<Longrightarrow> map fst (ls[j := (fst (ls ! j), x)]) = map fst ls"
  by (rule nth_equalityI) (auto simp: nth_list_update)

lemma linked_update:
  assumes "linked ctl nxt xs" "j < length xs" "nxt y = nxt (snd (xs ! j))"
    and "\<not> deleted (ctl y)" "\<not> locked (ctl y)" "has_sibling (ctl y) = has_sibling (ctl (snd (xs ! j)))"
  shows "linked ctl nxt (xs[j := (fst (xs ! j), y)])"
  using assms unfolding linked_def by (auto simp: nth_list_update split: if_splits)

lemma leaves_ok_update:
  assumes ok: "leaves_ok h ls" and j: "j < length ls" and l: "l = snd (ls ! j)"
    and inv: "leaf_inv h l'" and f: "lhigh l' = lhigh l" "lsibling l' = lsibling l"
    and c: "\<not> deleted (lcontrol l')" "\<not> locked (lcontrol l')" "has_sibling (lcontrol l') = has_sibling (lcontrol l)"
    and d: "\<And>k. k \<in> dom (leaf_map l') \<Longrightarrow> rank k (highs ls) = j"
  shows "leaves_ok h (ls[j := (fst (ls ! j), l')])" (is "leaves_ok h ?ls")
    "tree_map (ls[j := (fst (ls ! j), l')]) k = (if rank k (highs ls) = j then leaf_map l' k else tree_map ls k)"
proof -
  have h: "highs ?ls = highs ls" by (rule highs_update) (use f l in simp)
  have lk: "linked lcontrol lsibling ls" using ok by (simp add: leaves_ok_def)
  have "linked lcontrol lsibling ?ls" by (rule linked_update[OF lk j]) (use f c l in simp_all)
  moreover have "leaf_inv h (snd (?ls ! i)) \<and> list_all (\<lambda>kv. rank (fst kv) (highs ls) = i) (leaf_kvs (snd (?ls ! i)))"
    if i: "i < length ls" for i
  proof (cases "i = j")
    case True
    have "rank (fst kv) (highs ls) = j" if "kv \<in> set (leaf_kvs l')" for kv
      using d[of "fst kv"] that by (force simp: leaf_map_def dom_map_of_conv_image_fst)
    then show ?thesis using True j inv by (simp add: list_all_iff)
  next
    case False
    then show ?thesis using ok i by (simp add: leaves_ok_def)
  qed
  ultimately show ok': "leaves_ok h ?ls" using ok h by (simp add: leaves_ok_def)
  show "tree_map ?ls k = (if rank k (highs ls) = j then leaf_map l' k else tree_map ls k)"
    using leaf_position(3)[OF ok' refl, of k] leaf_position(3)[OF ok refl, of k] h j
    by (auto simp: nth_list_update)
qed

lemma put_fields [simp]:
  "heap (put a nd t) = (heap t)(a \<mapsto> nd)" "hnext (put a nd t) = hnext t" "root (put a nd t) = root t"
  "tree_depth (put a nd t) = tree_depth t" "root_track (put a nd t) = root_track t"
  by (simp_all add: put_def)

lemma leaf_notin_inners:
  assumes "distinct (concat (level_addrs ls nss))" "j < length ls" "x \<in> set (concat nss)"
  shows "fst x \<noteq> fst (ls ! j)"
proof -
  have "fst (ls ! j) \<in> set (map fst ls)" using assms(2) by auto
  moreover have "fst x \<in> set (concat (map (map fst) nss))" using assms(3) by auto
  moreover have "set (map fst ls) \<inter> set (concat (map (map fst) nss)) = {}"
    using assms(1) by (simp add: level_addrs_def)
  ultimately show ?thesis by (metis disjoint_iff)
qed

lemma stores_inners_iff: "stores_inners t nss \<longleftrightarrow> (\<forall>x \<in> set (concat nss). stores_inner t x)"
  by (auto simp: stores_inners_def list_all_iff)

lemma tree_ok_put_leaf:
  assumes ok: "tree_ok E F t ls nss" and j: "j < length ls" and hi: "lhigh l' = lhigh (snd (ls ! j))"
    and ls': "ls' = ls[j := (fst (ls ! j), l')]" and lv: "leaves_ok (etag E) ls'"
  shows "tree_ok E F (put (fst (ls ! j)) (LeafN l') t) ls' nss"
proof -
  have m: "map fst ls' = map fst ls" unfolding ls' by (rule map_fst_update[OF j])
  have b: "enc_highs (eenc E) ls' = enc_highs (eenc E) ls" unfolding ls' enc_highs_def using highs_update[of l'] hi by metis
  have la: "level_addrs ls' nss = level_addrs ls nss" by (simp add: level_addrs_def m)
  note D = tree_okD[OF ok]
  have ds: "distinct (map fst ls)" using D(6) by (simp add: level_addrs_def)
  have "stores_leaf (put (fst (ls ! j)) (LeafN l') t) (ls' ! i)" if "i < length ls" for i
    using that j D(5)[of i] nth_eq_iff_index_eq[OF ds, of i j]
    by (auto simp: stores_leaf_def ls' nth_list_update)
  then have "list_all (stores_leaf (put (fst (ls ! j)) (LeafN l') t)) ls'"
    by (simp add: list_all_length ls')
  moreover have "stores_inners (put (fst (ls ! j)) (LeafN l') t) nss"
    using D(3) leaf_notin_inners[OF D(6) j] by (auto simp: stores_inners_iff stores_inner_def)
  ultimately show ?thesis using ok lv unfolding tree_ok_def m b la by simp
qed

section \<open>Lookup and update\<close>

context tree_codec
begin

lemma descend_tree:
  assumes ok: "tree_ok E F t ls nss" and j: "j = rank k (highs ls)"
  shows "descend (eenc E k) t (root t) [] = Some (fst (ls ! j), path_at (schars (eenc E k)) nss)"
proof -
  note D = tree_okD[OF ok]
  have s: "sorted_wrt (<) (enc_highs (eenc E) ls)"
    using D(1) enc_sorted unfolding enc_highs_def leaves_ok_def by blast
  have jl: "j < length ls" by (rule leaf_position(1)[OF D(1) j])
  have lf: "ctl_is_leaf (lcontrol (snd (ls ! j)))" using leaves_okD(1)[OF D(1) jl] by (simp add: leaf_inv_def)
  have "descend (eenc E k) t (root t) [] = descend (eenc E k) t (fst (ls ! j)) (path_at (schars (eenc E k)) nss)"
    using descend_levels[OF D(2) s D(3) enc_length, of k] D(4) jl j by (simp add: enc_highs_rank)
  also have "\<dots> = Some (fst (ls ! j), path_at (schars (eenc E k)) nss)"
    by (subst descend.simps) (simp add: is_leaf_def D(5)[OF jl] lf)
  finally show ?thesis .
qed

lemma leaf_arrive:
  assumes ok: "tree_ok E F t ls nss" and j: "j = rank k (highs ls)"
  shows "leaf_at (fst (ls ! j)) t = Some (snd (ls ! j))" "heap t (fst (ls ! j)) = Some (LeafN (snd (ls ! j)))"
    "leaf_walk k t (fst (ls ! j)) v = Some (fst (ls ! j), v)"
    "begin_read (lcontrol (snd (ls ! j))) = Some (load_version (lcontrol (snd (ls ! j))))"
    "end_read (lcontrol (snd (ls ! j))) (load_version (lcontrol (snd (ls ! j)))) = Some True"
proof -
  note D = tree_okD[OF ok]
  note P = leaf_position[OF D(1) j]
  show h: "heap t (fst (ls ! j)) = Some (LeafN (snd (ls ! j)))" by (rule D(5)[OF P(1)])
  then show l: "leaf_at (fst (ls ! j)) t = Some (snd (ls ! j))" by (simp add: leaf_at_def)
  show "leaf_walk k t (fst (ls ! j)) v = Some (fst (ls ! j), v)"
    by (subst leaf_walk.simps) (simp add: l P(2))
  have "\<not> locked (lcontrol (snd (ls ! j)))"
    using D(1) linkedD(2)[of lcontrol lsibling ls j] P(1) by (simp add: leaves_ok_def)
  then show "begin_read (lcontrol (snd (ls ! j))) = Some (load_version (lcontrol (snd (ls ! j))))"
    "end_read (lcontrol (snd (ls ! j))) (load_version (lcontrol (snd (ls ! j)))) = Some True"
    by (simp_all add: begin_read_iff end_read_iff)
qed

lemma lookup_spec:
  assumes ok: "tree_ok E F t ls nss"
  shows "lookup E k t = Some (map_option (Pair k) (tree_map ls k))"
proof -
  define j where "j = rank k (highs ls)"
  note D = tree_okD[OF ok] and A = leaf_arrive[OF ok j_def] and P = leaf_position[OF tree_okD(1)[OF ok] j_def]
  have "slots_ok (etag E) (snd (ls ! j))" using leaves_okD(1)[OF D(1) P(1)] by (simp add: leaf_inv_iff)
  then have "leaf_lookup (etag E) (snd (ls ! j)) k = map_option (Pair k) (tree_map ls k)"
    by (simp add: leaf_lookup_spec P(3))
  then have "lookup_loop E k t (fst (ls ! j)) = Some (map_option (Pair k) (tree_map ls k))"
    by (subst lookup_loop.simps) (simp add: A Let_def)
  then show ?thesis by (simp add: lookup_def descend_tree[OF ok j_def])
qed

lemma update_spec:
  assumes ok: "tree_ok E F t ls nss"
  shows "\<exists>t' ls'. update E (k, v) t = Some (map_option (Pair k) (tree_map ls k), t') \<and> tree_ok E F t' ls' nss \<and>
    tree_map ls' = (if tree_map ls k = None then tree_map ls else (tree_map ls)(k \<mapsto> v))"
proof -
  define j where "j = rank k (highs ls)"
  let ?l = "snd (ls ! j)"
  note D = tree_okD[OF ok] and A = leaf_arrive[OF ok j_def] and P = leaf_position[OF tree_okD(1)[OF ok] j_def]
  note inv = leaves_okD(1)[OF D(1) P(1)]
  obtain old l' where u: "leaf_update (etag E) (k, v) ?l = (old, l')" by (rule prod.exhaust)
  note us = leaf_update_spec[OF inv u]
  have old: "old = map_option (Pair k) (tree_map ls k)" using us(2) P(3) by simp
  show ?thesis
  proof (cases "tree_map ls k")
    case None
    have "update_loop E (k, v) (fst (ls ! j)) t = Some (None, t)"
      by (subst update_loop.simps) (simp add: A u Let_def old None us(5))
    then show ?thesis using ok None by (auto simp: update_def descend_tree[OF ok j_def])
  next
    case (Some w)
    let ?ls = "ls[j := (fst (ls ! j), l')]"
    have lk: "linked lcontrol lsibling ls" using D(1) by (simp add: leaves_ok_def)
    have m: "leaf_map l' = (leaf_map ?l)(k \<mapsto> v)" using us(3) Some P(3) by auto
    have dm: "rank x (highs ls) = j" if "x \<in> dom (leaf_map l')" for x
      using that leaves_okD(2)[OF D(1) P(1), of x] m by (auto simp: j_def split: if_splits)
    note lu = leaves_ok_update[OF D(1) P(1) refl us(1,6,7) _ _ _ dm]
    have lu1: "leaves_ok (etag E) ?ls" and lu2: "\<And>x. tree_map ?ls x = (if rank x (highs ls) = j then leaf_map l' x else tree_map ls x)"
      using lu linkedD(1,2)[OF lk P(1)] us(5) by simp_all
    have "tree_map ?ls x = ((tree_map ls)(k \<mapsto> v)) x" for x
      using lu2[of x] leaf_position(3)[OF D(1) refl, of x] m by (auto simp: j_def)
    then have tm: "tree_map ?ls = (tree_map ls)(k \<mapsto> v)" by (rule ext)
    have "tree_ok E F (put (fst (ls ! j)) (LeafN l') t) ?ls nss"
      by (rule tree_ok_put_leaf[OF ok P(1) us(6) refl lu1])
    moreover have "update_loop E (k, v) (fst (ls ! j)) t = Some (old, put (fst (ls ! j)) (LeafN l') t)"
      by (subst update_loop.simps) (simp add: A u Let_def old Some)
    ultimately show ?thesis using Some old tm by (auto simp: update_def descend_tree[OF ok j_def])
  qed
qed

end

end
