(* ===== verification/TreeInsert.thy ===== *)
theory TreeInsert
  imports TreeSearch
begin

text \<open>
  Insertion into a tree: \<open>upsert\<close> returns, keeps the invariant of the tree and changes the map
  at the key. A split of a node inserts the new node behind it in its level and one bound
  into the level, and the loop of the code carries that to the level above.
\<close>

section \<open>Insertion into a level\<close>

lemma linked_insert:
  assumes l: "linked ctl nxt xs" and j: "j < length xs" and y: "nxt y = Some b" "has_sibling (ctl y)"
    and f: "\<not> deleted (ctl y)" "\<not> locked (ctl y)" "\<not> deleted (ctl z)" "\<not> locked (ctl z)"
    and z: "has_sibling (ctl z) = has_sibling (ctl (snd (xs ! j)))"
    "has_sibling (ctl z) \<Longrightarrow> nxt z = nxt (snd (xs ! j))"
  shows "linked ctl nxt (insert_at (Suc j) (b, z) (xs[j := (fst (xs ! j), y)]))"
    (is "linked ctl nxt ?ys")
proof -
  let ?zs = "xs[j := (fst (xs ! j), y)]"
  have len: "length ?ys = Suc (length xs)" using j by simp
  have nth: "?ys ! i = (if i < j then xs ! i else if i = j then (fst (xs ! j), y) else if i = Suc j then (b, z) else xs ! (i - 1))"
    if "i < Suc (length xs)" for i
    using that j by (simp add: nth_insert_at nth_list_update)
  have fst: "fst (?ys ! i) = fst (xs ! i)" if "i \<le> j" for i using nth[of i] that j by auto
  have "\<not> deleted (ctl (snd (?ys ! i))) \<and> \<not> locked (ctl (snd (?ys ! i))) \<and>
      (if Suc i < length ?ys
       then has_sibling (ctl (snd (?ys ! i))) \<and> nxt (snd (?ys ! i)) = Some (fst (?ys ! Suc i))
       else \<not> has_sibling (ctl (snd (?ys ! i))))" if i: "i < length ?ys" for i
  proof -
    have i': "i < Suc (length xs)" using i len by simp
    consider (a) "i < j" | (b) "i = j" | (c) "i = Suc j" | (d) "Suc j < i" by linarith
    then show ?thesis
    proof cases
      case a
      then show ?thesis using nth[OF i'] fst[of "Suc i"] j linkedD[OF l, of i] len by auto
    next
      case b
      then show ?thesis using nth[OF i'] nth[of "Suc j"] j y f len by auto
    next
      case c
      then show ?thesis using nth[OF i'] nth[of "Suc (Suc j)"] j z f linkedD(3,4)[OF l j] len by auto
    next
      case d
      then obtain m where "i = Suc m" "j < m" by (cases i) auto
      then show ?thesis using nth[OF i'] nth[of "Suc i"] i' linkedD[OF l, of m] len by auto
    qed
  qed
  moreover have "?ys \<noteq> []" using len by force
  ultimately show ?thesis unfolding linked_def by blast
qed

lemma kids_with_insert:
  assumes "inner_inv F n" "q \<le> knum n" "q < length (kids n)" "kids n ! q = lc"
  shows "kids_with lc rc q n = insert_at (Suc q) rc (kids n)"
proof (cases "q = knum n")
  case True
  have l: "length (ichildren n) = 64" "knum n \<le> 64"
    using assms(1) by (auto simp: inner_inv_def inner_sized_def kInnerSize_def)
  then have "\<not> has_sibling (icontrol n)" using True assms(3) by (auto simp: kids_def split: if_splits)
  then show ?thesis using True assms(4) l by (simp add: kids_with_def kids_def nth_append insert_at_def)
qed (simp add: kids_with_def)

lemma map_sep_keys_update: "map (sep_keys \<circ> snd) (ns[p := (a, n)]) = (map (sep_keys \<circ> snd) ns)[p := sep_keys n]"
  and map_kids_update: "map (kids \<circ> snd) (ns[p := (a, n)]) = (map (kids \<circ> snd) ns)[p := kids n]"
  by (simp_all add: map_update)

lemma sep_keys_insert: "seps n' = insert_at q mid (seps n) \<Longrightarrow> sep_keys n' = insert_at q (schars mid) (sep_keys n)"
  by (simp add: sep_keys_def map_insert_at)

lemma level_insert_room:
  assumes ok: "level_ok F ns addrs bnds" and s: "sorted_wrt (<) bnds"
    and p: "p = rank (schars mid) (level_bounds ns)" and n: "n = snd (ns ! p)" and q: "q = rank (schars mid) (sep_keys n)"
    and j: "j = rank (schars mid) bnds"
    and inv: "inner_inv F n'" and se: "seps n' = insert_at q mid (seps n)"
    and ki: "kids n' = kids_with (Some (addrs ! j)) (Some r) q n"
    and c: "\<not> deleted (icontrol n')" "\<not> locked (icontrol n')" "has_sibling (icontrol n') = has_sibling (icontrol n)"
      "has_sibling (icontrol n) \<Longrightarrow> inext n' = inext n"
  shows "level_ok F (ns[p := (fst (ns ! p), n')]) (insert_at (Suc j) r addrs) (insert_at j (schars mid) bnds)"
    "level_bounds (ns[p := (fst (ns ! p), n')]) = level_bounds ns"
proof -
  note st = level_step[OF ok s p n q] and D = level_okD[OF ok]
  have inv0: "inner_inv F n" using D(2)[OF st(1)] n by simp
  have lk: "linked icontrol inext ns" using ok by (simp add: level_ok_def)
  have ql: "q \<le> knum n" using q rank_le[of "schars mid" "sep_keys n"] by simp
  have se': "sep_keys n' = insert_at q (schars mid) (sep_keys n)" by (rule sep_keys_insert[OF se])
  have ki': "kids n' = insert_at (Suc q) (Some r) (kids n)"
    using kids_with_insert[OF inv0 ql st(3)] st(4) ki j by simp
  have c1: "concat (map (sep_keys \<circ> snd) (ns[p := (fst (ns ! p), n')])) = insert_at j (schars mid) bnds"
    using concat_insert_block[of p "map (sep_keys \<circ> snd) ns" q "schars mid"] st(1,2) D(5) n ql j
    by (simp add: map_sep_keys_update se')
  have c2: "concat (map (kids \<circ> snd) (ns[p := (fst (ns ! p), n')])) = map Some (insert_at (Suc j) r addrs)"
    using concat_insert_block[of p "map (kids \<circ> snd) ns" "Suc q" "Some r"] st(1-3) D(4) n j level_offsets[OF ok st(1)]
    by (simp add: map_kids_update ki' map_insert_at)
  have nx: "Suc p < length ns \<Longrightarrow> has_sibling (icontrol n)" using linkedD(3)[OF lk st(1)] n by simp
  have "linked icontrol inext (ns[p := (fst (ns ! p), n')])"
    using lk st(1) c n nx unfolding linked_def by (auto simp: nth_list_update split: if_splits)
  moreover have "0 < knum n'" using arg_cong[OF se, of length] ql by simp
  then have "list_all (\<lambda>x. 0 < knum (snd x)) (butlast (ns[p := (fst (ns ! p), n')]))"
    using ok by (auto simp: level_ok_def butlast_list_update intro: list_all_update)
  moreover have "list_all (\<lambda>x. inner_inv F (snd x)) (ns[p := (fst (ns ! p), n')])"
    using ok inv by (auto simp: level_ok_def intro: list_all_update)
  ultimately show "level_ok F (ns[p := (fst (ns ! p), n')]) (insert_at (Suc j) r addrs) (insert_at j (schars mid) bnds)"
    using c1 c2 by (simp add: level_ok_def)
  show "level_bounds (ns[p := (fst (ns ! p), n')]) = level_bounds ns"
    unfolding level_bounds_def map_sep_keys_update
    using st(1,6) n by (intro block_bounds_update) (simp add: se' last_insert_at)
qed

lemma level_insert_split:
  assumes ok: "level_ok F ns addrs bnds" and s: "sorted_wrt (<) bnds"
    and p: "p = rank (schars mid) (level_bounds ns)" and n: "n = snd (ns ! p)" and q: "q = rank (schars mid) (sep_keys n)"
    and j: "j = rank (schars mid) bnds"
    and inv: "inner_inv F n'" "inner_inv F m"
    and se: "seps n' @ seps m = insert_at q mid (seps n)" "seps n' \<noteq> []" "seps m \<noteq> []"
    and ki: "kids n' @ kids m = kids_with (Some (addrs ! j)) (Some r) q n"
    and c: "\<not> deleted (icontrol n')" "\<not> locked (icontrol n')" "has_sibling (icontrol n')" "inext n' = Some b"
      "\<not> deleted (icontrol m)" "\<not> locked (icontrol m)" "has_sibling (icontrol m) = has_sibling (icontrol n)"
      "has_sibling (icontrol n) \<Longrightarrow> inext m = inext n"
  shows "level_ok F (insert_at (Suc p) (b, m) (ns[p := (fst (ns ! p), n')])) (insert_at (Suc j) r addrs) (insert_at j (schars mid) bnds)"
    "level_bounds (insert_at (Suc p) (b, m) (ns[p := (fst (ns ! p), n')])) = insert_at p (last (sep_keys n')) (level_bounds ns)"
proof -
  let ?ns = "insert_at (Suc p) (b, m) (ns[p := (fst (ns ! p), n')])"
  note st = level_step[OF ok s p n q] and D = level_okD[OF ok]
  have inv0: "inner_inv F n" using D(2)[OF st(1)] n by simp
  have lk: "linked icontrol inext ns" using ok by (simp add: level_ok_def)
  have ql: "q \<le> knum n" using q rank_le[of "schars mid" "sep_keys n"] by simp
  have se': "sep_keys n' @ sep_keys m = insert_at q (schars mid) (sep_keys n)"
    using arg_cong[OF se(1), of "map schars"] by (simp add: sep_keys_def map_insert_at)
  have ki': "kids n' @ kids m = insert_at (Suc q) (Some r) (kids n)"
    using kids_with_insert[OF inv0 ql st(3)] st(4) ki j by simp
  have c1: "concat (map (sep_keys \<circ> snd) ?ns) = insert_at j (schars mid) bnds"
    using concat_split_block[of p "map (sep_keys \<circ> snd) ns" q "sep_keys n'" "sep_keys m" "schars mid"]
      st(1,2) D(5) n ql j se' by (simp add: map_insert_at map_sep_keys_update)
  have c2: "concat (map (kids \<circ> snd) ?ns) = map Some (insert_at (Suc j) r addrs)"
    using concat_split_block[of p "map (kids \<circ> snd) ns" "Suc q" "kids n'" "kids m" "Some r"]
      st(1-3) D(4) n j level_offsets[OF ok st(1)] ki' by (simp add: map_insert_at map_kids_update)
  have kn: "0 < knum n'" "0 < knum m" using se(2,3) by (simp_all add: seps_def)
  have "linked icontrol inext ?ns" using linked_insert[OF lk st(1), of n' b m] c n by simp
  moreover have all: "list_all P ?ns" if "list_all P ns" "P (fst (ns ! p), n')" "P (b, m)" for P
    using that list_all_update[of P ns "(fst (ns ! p), n')" p] by (simp add: list_all_iff)
  have "list_all (\<lambda>x. inner_inv F (snd x)) ?ns" using ok inv by (intro all) (auto simp: level_ok_def)
  moreover have "list_all (\<lambda>x. 0 < knum (snd x)) (butlast ?ns)"
  proof -
    have "0 < knum (snd (?ns ! i))" if "i < length ns" for i
      using that st(1) kn D(3)[of i] D(3)[of "i - 1"] by (auto simp: nth_insert_at nth_list_update)
    then show ?thesis using st(1) by (auto simp: list_all_length nth_butlast)
  qed
  ultimately show "level_ok F ?ns (insert_at (Suc j) r addrs) (insert_at j (schars mid) bnds)"
    using c1 c2 by (simp add: level_ok_def)
  have "sep_keys m \<noteq> []" using se(3) by (simp add: sep_keys_def)
  then have "last (sep_keys m) = last (insert_at q (schars mid) (sep_keys n))" unfolding se'[symmetric] by simp
  then show "level_bounds ?ns = insert_at p (last (sep_keys n')) (level_bounds ns)"
    using block_bounds_insert[of p "map (sep_keys \<circ> snd) ns" "sep_keys m" "sep_keys n'"] st(1,6) n
    by (simp add: level_bounds_def map_insert_at map_sep_keys_update last_insert_at)
qed


section \<open>Latches\<close>

definition latched :: "u64 \<Rightarrow> u64" where "latched c = c OR push_bit 1 1"

lemma latched_bits: "bit (latched c) i \<longleftrightarrow> bit c i \<or> i = 1"
  using bit_or_single[of c 1 i] by (auto simp: latched_def)

lemma latch_unlocked: "\<not> locked c \<Longrightarrow> latch_exclusive c = Some (latched c)"
  by (simp add: latch_exclusive_iff latched_def flag_bits)

lemma unlatch_bits: "bit c 1 \<Longrightarrow> bit (unlatch_exclusive c) i \<longleftrightarrow> bit c i \<and> i \<noteq> 1"
  by (rule clear_flag_bits)

definition nunlatch :: "('k, 'v) node \<Rightarrow> ('k, 'v) node" where
  "nunlatch nd = set_ncontrol (unlatch_exclusive (ncontrol nd)) nd"

definition iunlatch :: "inode \<Rightarrow> inode" where
  "iunlatch n = n\<lparr>icontrol := unlatch_exclusive (icontrol n)\<rparr>"

lemma nunlatch_inner [simp]: "nunlatch (InnerN n) = InnerN (iunlatch n)"
  by (simp add: nunlatch_def iunlatch_def)

lemma nunlatch_leaf [simp]: "nunlatch (LeafN l) = LeafN (l\<lparr>lcontrol := unlatch_exclusive (lcontrol l)\<rparr>)"
  by (simp add: nunlatch_def)

lemma tunlatch_Some: "heap t a = Some nd \<Longrightarrow> tunlatch a t = Some (put a (nunlatch nd) t)"
  by (simp add: tunlatch_def nunlatch_def)

lemma tlatch_Some:
  "heap t a = Some nd \<Longrightarrow> \<not> locked (ncontrol nd) \<Longrightarrow> tlatch a t = Some (put a (set_ncontrol (latched (ncontrol nd)) nd) t)"
  by (simp add: tlatch_def latch_unlocked)

lemma inner_control [simp]:
  "sep_keys (n\<lparr>icontrol := c\<rparr>) = sep_keys n"
  "\<not> bit c 3 \<Longrightarrow> inner_inv F n \<Longrightarrow> inner_inv F (n\<lparr>icontrol := c\<rparr>)"
  "has_sibling c = has_sibling (icontrol n) \<Longrightarrow> kids (n\<lparr>icontrol := c\<rparr>) = kids n"
  by (simp_all add: sep_keys_def inner_inv_def kids_def flag_bits)

lemma iunlatch_facts:
  assumes "bit (icontrol n) 1"
  shows "seps (iunlatch n) = seps n" "sep_keys (iunlatch n) = sep_keys n" "kids (iunlatch n) = kids n"
    "inext (iunlatch n) = inext n" "knum (iunlatch n) = knum n" "inner_inv F n \<Longrightarrow> inner_inv F (iunlatch n)"
    "bit (icontrol (iunlatch n)) i \<longleftrightarrow> bit (icontrol n) i \<and> i \<noteq> 1"
  using unlatch_bits[OF assms] by (simp_all add: iunlatch_def kids_def flag_bits inner_inv_def)

lemma level_key_new:
  assumes ok: "level_ok F ns addrs bnds" and p: "p < length ns" and x: "x \<notin> set bnds"
  shows "x \<notin> set (sep_keys (snd (ns ! p)))"
proof
  assume "x \<in> set (sep_keys (snd (ns ! p)))"
  then have "x \<in> set (concat (map (sep_keys \<circ> snd) ns))" using p by force
  then show False using x level_okD(5)[OF ok] by simp
qed

section \<open>One round at an inner level\<close>

lemma round_index:
  assumes ok: "level_ok F ns addrs bnds" and s: "sorted_wrt (<) bnds" and m: "length mid = F" "schars mid \<notin> set bnds"
    and p: "p = rank (schars mid) (level_bounds ns)" and n: "n = snd (ns ! p)" and q: "q = rank (schars mid) (sep_keys n)"
    and nL: "nL = n\<lparr>icontrol := latched (icontrol n)\<rparr>" and h: "heap t w = Some (InnerN nL)"
  shows "index_walk mid w t = Some (w, int q, t)" "inner_inv F nL" "insertable F mid q nL"
    "q = knum nL \<Longrightarrow> \<not> has_sibling (icontrol nL)"
    "\<not> bit (icontrol n) 0" "\<not> bit (icontrol n) 1" "\<not> bit (icontrol n) 3" "bit (icontrol n) 2 \<longleftrightarrow> Suc p < length ns"
proof -
  note st = level_step[OF ok s p n q] and D = level_okD[OF ok]
  have inv0: "inner_inv F n" using D(2)[OF st(1)] n by simp
  have lk: "linked icontrol inext ns" using ok by (simp add: level_ok_def)
  show c: "\<not> bit (icontrol n) 0" "\<not> bit (icontrol n) 1" "\<not> bit (icontrol n) 3" "bit (icontrol n) 2 \<longleftrightarrow> Suc p < length ns"
    using linkedD(1-3)[OF lk st(1)] n inv0 by (simp_all add: flag_bits inner_inv_def)
  show inv: "inner_inv F nL" unfolding nL using c inv0 by (intro inner_control) (simp_all add: latched_bits)
  show sib: "q = knum nL \<Longrightarrow> \<not> has_sibling (icontrol nL)"
    using st(6) c by (auto simp: nL flag_bits latched_bits)
  show "insertable F mid q nL"
    using insertable_rank[OF inv m(1)] level_key_new[OF ok st(1) m(2)] n q by (simp add: nL)
  have "\<not> deleted (icontrol nL)" using c by (simp add: nL flag_bits latched_bits)
  then have "index_or_sibling mid nL = Some (Inr (int q))"
    using index_or_sibling_rank[OF inv m(1)] sib q by (auto simp: nL Let_def)
  then show "index_walk mid w t = Some (w, int q, t)"
    by (subst index_walk.simps) (simp add: inner_at_def h)
qed

lemma round_room:
  assumes ok: "level_ok F ns addrs bnds" and s: "sorted_wrt (<) bnds" and m: "length mid = F" "schars mid \<notin> set bnds"
    and p: "p = rank (schars mid) (level_bounds ns)" and n: "n = snd (ns ! p)" and q: "q = rank (schars mid) (sep_keys n)"
    and j: "j = rank (schars mid) bnds"
    and nL: "nL = n\<lparr>icontrol := latched (icontrol n)\<rparr>" and h: "heap t w = Some (InnerN nL)" and w: "w = fst (ns ! p)"
    and k: "knum n < 64"
  shows "\<exists>n'. insert_at_node E w (Some (addrs ! j)) (Some r) mid (int q) t = Some (None, put w (InnerN n') t) \<and>
    level_ok F (ns[p := (w, iunlatch n')]) (insert_at (Suc j) r addrs) (insert_at j (schars mid) bnds) \<and>
    level_bounds (ns[p := (w, iunlatch n')]) = level_bounds ns"
proof -
  note I = round_index[OF ok s m p n q nL h]
  have kw: "kids_with lc rc q nL = kids_with lc rc q n" for lc rc
    using latched_bits[of "icontrol n" 2] by (simp add: nL kids_with_def kids_def flag_bits)
  obtain n' where o: "inner_insert (hnext t) (eraw_inner E (hnext t)) (Some (addrs ! j)) (Some r) mid q nL = Some (None, n')"
    "inner_inv F n'" "seps n' = insert_at q mid (seps n)" "kids n' = kids_with (Some (addrs ! j)) (Some r) q n"
    "icontrol n' = update_version (icontrol nL)" "has_sibling (icontrol nL) \<longrightarrow> inext n' = inext nL"
    using inner_insert_room[OF I(2,3) _ I(4), of "hnext t" "eraw_inner E (hnext t)" "Some (addrs ! j)" "Some r"] k kw
    by (auto simp: nL)
  have b: "bit (icontrol n') i \<longleftrightarrow> bit (icontrol n) i \<or> i = 1" if "i < 24" for i
    using that by (simp add: o(5) nL bit_update_version latched_bits)
  have "insert_at_node E w (Some (addrs ! j)) (Some r) mid (int q) t = Some (None, put w (InnerN n') t)"
    using o(1) h by (simp add: insert_at_node_def inner_at_def)
  moreover have "bit (icontrol n') 1" using b[of 1] by simp
  note uf = iunlatch_facts[OF this]
  note L = level_insert_room[OF ok s p n q j uf(6)[OF o(2)], of r]
  have "level_ok F (ns[p := (w, iunlatch n')]) (insert_at (Suc j) r addrs) (insert_at j (schars mid) bnds) \<and>
    level_bounds (ns[p := (w, iunlatch n')]) = level_bounds ns"
    unfolding w using o uf I(5-8) b[of 0] b[of 2]
    by (intro conjI L) (simp_all add: flag_bits nL latched_bits)
  ultimately show ?thesis by blast
qed

lemma round_split:
  assumes ok: "level_ok F ns addrs bnds" and s: "sorted_wrt (<) bnds" and m: "length mid = F" "schars mid \<notin> set bnds"
    and p: "p = rank (schars mid) (level_bounds ns)" and n: "n = snd (ns ! p)" and q: "q = rank (schars mid) (sep_keys n)"
    and j: "j = rank (schars mid) bnds"
    and nL: "nL = n\<lparr>icontrol := latched (icontrol n)\<rparr>" and h: "heap t w = Some (InnerN nL)" and w: "w = fst (ns ! p)"
    and k: "knum n = 64" and raw: "inner_sized F (eraw_inner E (hnext t))" and b: "b = hnext t"
  shows "\<exists>n' m mid'. insert_at_node E w (Some (addrs ! j)) (Some r) mid (int q) t =
      Some (Some (b, mid'), (put b (InnerN m) (put w (InnerN n') t))\<lparr>hnext := Suc b\<rparr>) \<and>
    level_ok F (insert_at (Suc p) (b, m) (ns[p := (w, iunlatch n')])) (insert_at (Suc j) r addrs) (insert_at j (schars mid) bnds) \<and>
    level_bounds (insert_at (Suc p) (b, m) (ns[p := (w, iunlatch n')])) = insert_at p (schars mid') (level_bounds ns) \<and>
    length mid' = F"
proof -
  note I = round_index[OF ok s m p n q nL h]
  have kw: "kids_with lc rc q nL = kids_with lc rc q n" for lc rc
    using latched_bits[of "icontrol n" 2] by (simp add: nL kids_with_def kids_def flag_bits)
  have knL: "knum nL = 64" "seps nL = seps n" using k by (simp_all add: nL)
  have edge: "\<not> has_sibling (icontrol nL)" if "q = 64" using I(4) knL that by simp
  let ?S = "insert_at q mid (seps n)" and ?K = "kids_with (Some (addrs ! j)) (Some r) q n"
  obtain m n' mid' where o: "inner_insert b (eraw_inner E (hnext t)) (Some (addrs ! j)) (Some r) mid q nL = Some (Some (m, mid'), n')"
    "inner_inv F n'" "inner_inv F m" "seps n' = take (cut q) ?S" "seps m = drop (cut q) ?S"
    "mid' = last (seps n')" "length mid' = F" "kids n' = take (cut q) ?K" "kids m = drop (cut q) ?K"
    "inext n' = Some b" "icontrol n' = with_sibling (update_version (icontrol nL))"
    "icontrol m = (if has_sibling (icontrol nL) then set_sibling (control_new False) else control_new False)"
    "has_sibling (icontrol nL) \<longrightarrow> inext m = inext nL"
    using inner_insert_split[OF I(2,3) knL(1) raw edge, of b "Some (addrs ! j)" "Some r"]
    unfolding knL(2) kw by blast
  have q64: "q \<le> 64" using q rank_le[of "schars mid" "sep_keys n"] k by simp
  moreover have "length (seps n) = 64" using k by simp
  ultimately have "length (seps n') > 0" "length (seps m) > 0" unfolding o(4,5) by (auto simp: cut_def)
  then have ne: "seps n' \<noteq> []" "seps m \<noteq> []" unfolding length_greater_0_conv .
  have cn: "bit (icontrol n') i \<longleftrightarrow> bit (icontrol n) i \<or> i = 1 \<or> i = 2" if "i < 24" for i
    using that by (auto simp: o(11) nL with_sibling_bits bit_update_version latched_bits)
  have hs: "has_sibling (icontrol nL) \<longleftrightarrow> bit (icontrol n) 2" by (simp add: nL flag_bits latched_bits)
  have cm: "bit (icontrol m) i \<longleftrightarrow> bit (icontrol n) 2 \<and> i = 2" for i
    by (simp add: o(12) hs inner_control_bits)
  have "insert_at_node E w (Some (addrs ! j)) (Some r) mid (int q) t =
      Some (Some (b, mid'), (put b (InnerN m) (put w (InnerN n') t))\<lparr>hnext := Suc b\<rparr>)"
    using o(1) h by (simp add: insert_at_node_def inner_at_def malloc_node_def Let_def b)
  moreover have "bit (icontrol n') 1" using cn[of 1] by simp
  note uf = iunlatch_facts[OF this]
  note L = level_insert_split[OF ok s p n q j uf(6)[OF o(2)] o(3), of r b]
  have "last (sep_keys (iunlatch n')) = schars mid'" using ne by (simp add: uf o(6) sep_keys_def last_map)
  then have "level_ok F (insert_at (Suc p) (b, m) (ns[p := (w, iunlatch n')])) (insert_at (Suc j) r addrs) (insert_at j (schars mid) bnds) \<and>
    level_bounds (insert_at (Suc p) (b, m) (ns[p := (w, iunlatch n')])) = insert_at p (schars mid') (level_bounds ns)"
    unfolding w using L o(4,5,8-10,13) ne uf I(5-8) cn[of 0] cn[of 2] cm hs by (simp add: flag_bits nL)
  ultimately show ?thesis using o(7) by blast
qed

section \<open>The loop\<close>

abbreviation inner_addrs :: "(addr \<times> inode) list list \<Rightarrow> addr list" where
  "inner_addrs nss \<equiv> concat (map (map fst) nss)"

text \<open>The recorded leftmost nodes of the levels from number \<open>i\<close> on.\<close>

definition tracked :: "nat \<Rightarrow> (addr \<times> inode) list list \<Rightarrow> ('k, 'v) fbtree \<Rightarrow> bool" where
  "tracked i nss t \<longleftrightarrow> length (root_track t) = kMaxHeight \<and>
     (\<forall>x<length nss. root_track t ! (i + x) = Some (fst (hd (nss ! x))))"

lemma tracked_Cons:
  "tracked i (ns # nss) t \<longleftrightarrow>
     length (root_track t) = kMaxHeight \<and> root_track t ! i = Some (fst (hd ns)) \<and> tracked (Suc i) nss t"
  by (auto simp: tracked_def nth_Cons split: nat.splits)

lemma top_addrs_in:
  "inners_ok F nss addrs bnds \<Longrightarrow> nss \<noteq> [] \<Longrightarrow> hd (top_addrs addrs nss) \<in> set (inner_addrs nss)"
proof (induction nss arbitrary: addrs bnds)
  case (Cons ns nss)
  show ?case
  proof (cases "nss = []")
    case True
    then show ?thesis using Cons.prems level_okD(1)[of F ns addrs bnds] by (cases ns) auto
  next
    case False
    then show ?thesis using Cons by auto
  qed
qed simp

lemma upsert_up_step:
  assumes "current \<noteq> root t" "heap t w = Some (InnerN n)" "\<not> locked (icontrol n)"
    and "heap t current = Some cnd" "current \<noteq> w"
    and "t1 = put w (InnerN (n\<lparr>icontrol := latched (icontrol n)\<rparr>)) t"
    and "index_walk mid w t1 = Some (w, i, t1)"
    and "insert_at_node E w (Some current) (Some r) mid i (put current (nunlatch cnd) t1) = Some (split, t3)"
  shows "upsert_up E (w # path) rootid current (Some (r, mid)) t = upsert_up E path (Suc rootid) w split t3"
proof -
  have "tlatch w t = Some t1" using tlatch_Some[OF assms(2)] assms(3,6) by simp
  moreover have "tunlatch current t1 = Some (put current (nunlatch cnd) t1)"
    using assms(4-6) by (intro tunlatch_Some) simp
  ultimately show ?thesis
    using assms by (subst upsert_up.simps) (simp add: upsert_work_def)
qed

lemma upsert_up_done: "heap t a = Some nd \<Longrightarrow> upsert_up E path i a None t = Some (put a (nunlatch nd) t)"
  by (subst upsert_up.simps) (simp add: tunlatch_Some)

text \<open>The outcome of the loop above a level whose nodes have these addresses and bounds.\<close>

definition up_post ::
  "nat \<Rightarrow> addr list \<Rightarrow> int list list \<Rightarrow> nat \<Rightarrow> addr \<Rightarrow> ('k, 'v) node \<Rightarrow> (addr \<times> inode) list list \<Rightarrow> ('k, 'v) fbtree \<Rightarrow>
   (addr \<times> inode) list list \<Rightarrow> ('k, 'v) fbtree \<Rightarrow> bool" where
  "up_post F addrs bnds i current cnd nss t nss' t' \<longleftrightarrow>
     inners_ok F nss' addrs bnds \<and> stores_inners t' nss' \<and> distinct (inner_addrs nss') \<and>
     set (inner_addrs nss') \<subseteq> set (inner_addrs nss) \<union> {hnext t..<hnext t'} \<and> hnext t \<le> hnext t' \<and>
     (\<forall>a. a \<notin> set (inner_addrs nss) \<longrightarrow> a < hnext t \<longrightarrow> a \<noteq> current \<longrightarrow> heap t' a = heap t a) \<and>
     heap t' current = Some (nunlatch cnd) \<and> root t' = hd (top_addrs addrs nss') \<and>
     tree_depth t' + length nss = tree_depth t + length nss' \<and> length nss' \<le> Suc (length nss) \<and>
     (\<forall>x<i. root_track t' ! x = root_track t ! x) \<and> tracked i nss' t'"

context tree_codec
begin

lemma upsert_up_root:
  assumes addrs: "addrs = [current]" and m: "length mid = F" and c: "heap t current = Some cnd" "current < hnext t"
    and r: "root t = current" and i: "Suc i < kMaxHeight" "length (root_track t) = kMaxHeight"
  shows "\<exists>t' nss'. upsert_up E path i current (Some (b, mid)) t = Some t' \<and>
    up_post F [current, b] [schars mid] (Suc i) current cnd [] t nss' t'"
proof -
  define w where "w = hnext t"
  define n where "n = (inner_new (eraw_inner E w))\<lparr>icontrol := latched (control_new False)\<rparr>"
  have cw: "current \<noteq> w" using c by (simp add: w_def)
  have bits: "bit (icontrol n) x \<longleftrightarrow> x = 1" for x by (simp add: n_def latched_bits inner_control_bits)
  have f: "knum n = 0" "seps n = []" "sep_keys n = []" by (simp_all add: n_def seps_def sep_keys_def)
  have "plen (inner_new (eraw_inner E w)) = 0" by (simp add: inner_new_def)
  then have inv: "inner_inv F n"
    using inner_sized_new[OF raw_inner, of w] f bits[of 3] by (simp add: inner_inv_def flag_bits n_def)
  have ins: "insertable F mid 0 n" using m f by (simp add: insertable_def insert_at_def)
  define t1 where "t1 = (put w (InnerN (inner_new (eraw_inner E w))) t)\<lparr>hnext := Suc w\<rparr>"
  define t2 where "t2 = (put w (InnerN n) t1)\<lparr>root_track := (root_track t)[Suc i := Some w], root := w, tree_depth := tree_depth t + 1\<rparr>"
  define t3 where "t3 = put current (nunlatch cnd) t2"
  have "\<not> locked (control_new False)" by (simp add: flag_bits inner_control_bits)
  then have l: "tlatch w t1 = Some (put w (InnerN n) t1)"
    by (subst tlatch_Some[where nd = "InnerN (inner_new (eraw_inner E w))"]) (simp_all add: t1_def n_def)
  have sr: "set_root (Suc i) w (put w (InnerN n) t1) = Some t2"
    using i by (simp add: set_root_def t2_def t1_def)
  have "index_or_sibling mid n = Some (Inr 0)"
    using index_or_sibling_rank[OF inv m] bits[of 0] f by (simp add: flag_bits Let_def)
  then have iw: "index_walk mid w t2 = Some (w, 0, t2)"
    by (subst index_walk.simps) (simp add: inner_at_def t2_def)
  have ul: "tunlatch current t2 = Some t3"
    unfolding t3_def using c cw by (intro tunlatch_Some) (simp add: t2_def t1_def)
  obtain n' where o: "inner_insert (hnext t3) (eraw_inner E (hnext t3)) (Some current) (Some b) mid 0 n = Some (None, n')"
    "inner_inv F n'" "seps n' = insert_at 0 mid (seps n)" "kids n' = kids_with (Some current) (Some b) 0 n"
    "icontrol n' = update_version (icontrol n)"
    using inner_insert_room[OF inv ins, of "hnext t3" "eraw_inner E (hnext t3)" "Some current" "Some b"] f bits[of 2]
    by (auto simp: flag_bits)
  have ia: "insert_at_node E w (Some current) (Some b) mid 0 t3 = Some (None, put w (InnerN n') t3)"
    using o(1) cw by (simp add: insert_at_node_def inner_at_def t3_def t2_def)
  let ?t = "put w (InnerN (iunlatch n')) t3"
  have eq: "upsert_up E path i current (Some (b, mid)) t = Some ?t"
    using l sr iw ul ia r
    by (subst upsert_up.simps)
       (simp add: upsert_work_def malloc_node_def t1_def[symmetric] w_def[symmetric],
        simp add: t1_def upsert_up_done put_def)
  have bn: "bit (icontrol n') x \<longleftrightarrow> x = 1" if "x < 24" for x using that bits o(5) by (simp add: bit_update_version)
  have uf: "seps (iunlatch n') = [mid]" "kids (iunlatch n') = [Some current, Some b]" "inner_inv F (iunlatch n')"
    "\<not> bit (icontrol (iunlatch n')) 0" "\<not> bit (icontrol (iunlatch n')) 1" "\<not> bit (icontrol (iunlatch n')) 2"
    using iunlatch_facts[of n'] bn[of 1] bn[of 0] bn[of 2] o f
    by (simp_all add: insert_at_def kids_with_def)
  have "level_ok F [(w, iunlatch n')] [current, b] [schars mid]"
    using uf by (simp add: level_ok_def linked_def sep_keys_def flag_bits)
  then have "up_post F [current, b] [schars mid] (Suc i) current cnd [] t [[(w, iunlatch n')]] ?t"
    using c cw i unfolding up_post_def
    by (auto simp: t3_def t2_def t1_def w_def stores_inners_def stores_inner_def tracked_def level_bounds_def block_bounds_def)
  with eq show ?thesis by blast
qed

end

lemma stores_inners_Cons: "stores_inners t (ns # nss) \<longleftrightarrow> list_all (stores_inner t) ns \<and> stores_inners t nss"
  by (simp add: stores_inners_def)

lemma stores_inners_frame:
  "stores_inners t nss \<Longrightarrow> (\<And>a. a \<in> set (inner_addrs nss) \<Longrightarrow> heap t' a = heap t a) \<Longrightarrow> stores_inners t' nss"
  by (force simp: stores_inners_def stores_inner_def list_all_iff)

lemma stores_level_update:
  assumes st: "list_all (stores_inner t) ns" and d: "distinct (map fst ns)" and p: "p < length ns"
    and y: "heap t' (fst (ns ! p)) = Some (InnerN y)"
    and fr: "\<And>a. a \<in> set (map fst ns) \<Longrightarrow> a \<noteq> fst (ns ! p) \<Longrightarrow> heap t' a = heap t a"
  shows "list_all (stores_inner t') (ns[p := (fst (ns ! p), y)])"
proof -
  have "stores_inner t' (ns[p := (fst (ns ! p), y)] ! x)" if x: "x < length ns" for x
  proof (cases "x = p")
    case False
    then have "fst (ns ! x) \<noteq> fst (ns ! p)" using nth_eq_iff_index_eq[OF d, of x p] x p by simp
    moreover have "fst (ns ! x) \<in> set (map fst ns)" using x by simp
    ultimately show ?thesis using fr st x False by (simp add: stores_inner_def list_all_length)
  qed (use y p in \<open>simp add: stores_inner_def\<close>)
  then show ?thesis by (simp add: list_all_length)
qed

lemma map_fst_insert:
  "p < length ns \<Longrightarrow> map fst (insert_at (Suc p) (b, m) (ns[p := (fst (ns ! p), y)])) = insert_at (Suc p) b (map fst ns)"
  by (simp add: map_insert_at map_fst_update)

text \<open>
  What holds when the loop starts a round: \<open>current\<close> is latched and has a new right neighbour,
  the levels above do not know it yet.
\<close>

definition up_pre ::
  "nat \<Rightarrow> addr list \<Rightarrow> int list list \<Rightarrow> nat \<Rightarrow> addr \<Rightarrow> ('k, 'v) node \<Rightarrow> byte list \<Rightarrow> nat \<Rightarrow> (addr \<times> inode) list list \<Rightarrow>
   ('k, 'v) fbtree \<Rightarrow> bool" where
  "up_pre F addrs bnds j current cnd mid i nss t \<longleftrightarrow>
     inners_ok F nss addrs bnds \<and> sorted_wrt (<) bnds \<and> length mid = F \<and> schars mid \<notin> set bnds \<and>
     j = rank (schars mid) bnds \<and> j < length addrs \<and> current = addrs ! j \<and>
     stores_inners t nss \<and> distinct (inner_addrs nss) \<and> (\<forall>a \<in> set (inner_addrs nss). a < hnext t) \<and>
     current \<notin> set (inner_addrs nss) \<and> current < hnext t \<and> heap t current = Some cnd \<and>
     root t = hd (top_addrs addrs nss) \<and> i + length nss < kMaxHeight \<and> tracked i nss t"

lemma up_room:
  assumes pre: "up_pre F addrs bnds j current cnd mid (Suc i) (ns # nss) t"
    and p: "p = rank (schars mid) (level_bounds ns)" and k: "knum (snd (ns ! p)) < 64"
  shows "\<exists>t' nss'. upsert_up E (fst (ns ! p) # path) i current (Some (b, mid)) t = Some t' \<and>
    up_post F (insert_at (Suc j) b addrs) (insert_at j (schars mid) bnds) (Suc i) current cnd (ns # nss) t nss' t'"
proof -
  note P = pre[unfolded up_pre_def]
  define n where "n = snd (ns ! p)"
  define w where "w = fst (ns ! p)"
  define nL where "nL = n\<lparr>icontrol := latched (icontrol n)\<rparr>"
  define q where "q = rank (schars mid) (sep_keys n)"
  have ok: "level_ok F ns addrs bnds" and s: "sorted_wrt (<) bnds" and m: "length mid = F" "schars mid \<notin> set bnds"
    and j: "j = rank (schars mid) bnds" using P by simp_all
  have pl: "p < length ns" by (rule level_step(1)[OF ok s p refl refl])
  have "stores_inner t (ns ! p)" using P pl by (simp add: stores_inners_Cons list_all_length)
  then have hw: "heap t w = Some (InnerN n)" by (simp add: stores_inner_def w_def n_def)
  have wi: "w \<in> set (map fst ns)" using pl by (auto simp: w_def)
  then have cw: "current \<noteq> w" using P by auto
  have "root t \<in> set (inner_addrs (ns # nss))" using P top_addrs_in[of F "ns # nss" addrs bnds] by (metis list.distinct(1))
  moreover have cn: "current \<notin> set (inner_addrs (ns # nss))" using P by blast
  ultimately have cr: "current \<noteq> root t" by metis
  have hc: "heap t current = Some cnd" and cj: "current = addrs ! j" using P by blast+
  define t1 where "t1 = put w (InnerN nL) t"
  define t2 where "t2 = put current (nunlatch cnd) t1"
  have h1: "heap t1 w = Some (InnerN nL)" and h2: "heap t2 w = Some (InnerN nL)" using cw by (simp_all add: t1_def t2_def)
  note I = round_index[OF ok s m p n_def q_def nL_def h1]
  obtain n' where o: "insert_at_node E w (Some (addrs ! j)) (Some b) mid (int q) t2 = Some (None, put w (InnerN n') t2)"
    "level_ok F (ns[p := (w, iunlatch n')]) (insert_at (Suc j) b addrs) (insert_at j (schars mid) bnds)"
    "level_bounds (ns[p := (w, iunlatch n')]) = level_bounds ns"
    using round_room[OF ok s m p n_def q_def j nL_def h2 w_def, of E b] k unfolding n_def by blast
  let ?ns = "ns[p := (w, iunlatch n')]" and ?t = "put w (InnerN (iunlatch n')) t2"
  have "upsert_up E (w # path) i current (Some (b, mid)) t = upsert_up E path (Suc i) w None (put w (InnerN n') t2)"
    by (rule upsert_up_step[OF cr hw _ _ cw _ I(1)])
       (use I(6) o(1) hc in \<open>simp_all add: t1_def t2_def nL_def flag_bits cj[symmetric]\<close>)
  also have "\<dots> = Some ?t" by (simp add: upsert_up_done put_def)
  finally have eq: "upsert_up E (w # path) i current (Some (b, mid)) t = Some ?t" .
  have mf: "map fst ?ns = map fst ns" unfolding w_def by (rule map_fst_update[OF pl])
  have dn: "distinct (map fst ns)" using P by simp
  have fr: "heap ?t a = heap t a" if "a \<in> set (inner_addrs (ns # nss))" "a \<noteq> w" for a
    using that cn by (auto simp: t2_def t1_def)
  have "list_all (stores_inner ?t) (ns[p := (fst (ns ! p), iunlatch n')])"
    by (rule stores_level_update[of t, OF _ dn pl]) (use P fr in \<open>simp_all add: stores_inners_Cons w_def\<close>)
  then have "list_all (stores_inner ?t) ?ns" by (simp add: w_def)
  moreover have "stores_inners ?t nss"
    by (rule stores_inners_frame[of t], use P in \<open>simp add: stores_inners_Cons\<close>, rule fr, use P wi in auto)
  moreover have "fst (hd ?ns) = fst (hd ns)" using arg_cong[OF mf, of hd] level_okD(1)[OF ok] pl by (simp add: hd_map)
  ultimately have "up_post F (insert_at (Suc j) b addrs) (insert_at j (schars mid) bnds) (Suc i) current cnd (ns # nss) t (?ns # nss) ?t"
    using P o(2,3) cw wi unfolding up_post_def
    by (auto simp: mf stores_inners_Cons t2_def t1_def tracked_def nth_Cons split: nat.splits)
  with eq show ?thesis unfolding w_def by blast
qed

lemma up_post_Cons:
  assumes post: "up_post F (map fst ns') (level_bounds ns') (Suc i) w wnd nss t3 nss' t'"
    and ok: "level_ok F ns' addrs bnds" and d: "distinct (map fst ns)" "set (map fst ns) \<inter> set (inner_addrs nss) = {}"
    and p: "p < length ns" "w = fst (ns ! p)" and lt: "\<forall>a \<in> set (map fst ns). a < hnext t"
    and ns': "ns' = insert_at (Suc p) (b, m) (ns[p := (w, y)])" "nunlatch wnd = InnerN y"
    and t3: "hnext t3 = Suc b" "hnext t = b" "heap t3 b = Some (InnerN m)" "b \<notin> set (inner_addrs nss)"
      "\<And>a. a \<noteq> w \<Longrightarrow> a \<noteq> current \<Longrightarrow> a \<noteq> b \<Longrightarrow> heap t3 a = heap t a" "heap t3 current = Some (nunlatch cnd)"
    and c: "current \<notin> set (inner_addrs (ns # nss))" "current < b" and st: "list_all (stores_inner t) ns"
    and f: "tree_depth t3 = tree_depth t" "root_track t3 = root_track t" "tracked i (ns # nss) t"
  shows "up_post F addrs bnds i current cnd (ns # nss) t (ns' # nss') t'"
proof -
  note Q = post[unfolded up_post_def]
  have wi: "w \<in> set (map fst ns)" using p by simp
  have mf: "map fst ns' = insert_at (Suc p) b (map fst ns)" unfolding ns' p(2) by (rule map_fst_insert[OF p(1)])
  have bw: "b \<noteq> w" "b \<notin> set (map fst ns)" using lt wi t3(2) by auto
  have fr: "heap t' a = heap t a" if "a \<in> set (map fst ns)" "a \<noteq> w" for a
  proof -
    have a: "a \<notin> set (inner_addrs nss)" "a < b" "a \<noteq> b" "a \<noteq> current" using that d(2) c lt t3(2) by auto
    then show ?thesis using Q t3(1) t3(5)[of a] that(2) by simp
  qed
  have "heap t' b = Some (InnerN m)" using Q t3 bw by simp
  moreover have "list_all (stores_inner t') (ns[p := (fst (ns ! p), y)])"
    by (rule stores_level_update[OF st d(1) p(1)]) (use Q ns'(2) fr p(2) in simp_all)
  ultimately have sn: "list_all (stores_inner t') ns'"
    unfolding ns' p(2) by (simp add: list_all_iff stores_inner_def)
  have sub: "set (inner_addrs nss') \<subseteq> set (inner_addrs nss) \<union> {Suc b..<hnext t'}" using Q t3(1) by simp
  have lt': "a \<le> b" if "a \<in> set (map fst ns')" for a using that lt t3(2) unfolding mf by auto
  have "a \<notin> set (inner_addrs nss')" if a: "a \<in> set (map fst ns')" for a
  proof
    assume "a \<in> set (inner_addrs nss')"
    then have "a \<in> set (inner_addrs nss) \<union> {Suc b..<hnext t'}" using sub by (rule subsetD[rotated])
    then have "a \<in> set (inner_addrs nss)" using lt'[OF a] by simp
    then show False using a d(2) t3(4) unfolding mf by auto
  qed
  then have di: "distinct (inner_addrs (ns' # nss'))"
    using Q d(1) bw mf distinct_insert_at[of "Suc p" b "map fst ns"] by auto
  have "hd ns' = (if p = 0 then (w, y) else hd ns)"
    using p ns' by (cases ns; cases p) (auto simp: insert_at_def)
  then have "fst (hd ns') = fst (hd ns)" using p by (cases ns) auto
  moreover have "length (root_track t') = kMaxHeight" using Q by (simp add: tracked_def)
  ultimately have tr: "tracked i (ns' # nss') t'" using Q f by (simp add: tracked_Cons)
  have fr2: "heap t' a = heap t a" if "a \<notin> set (inner_addrs (ns # nss))" "a < b" "a \<noteq> current" for a
  proof -
    have "a \<noteq> w" "a \<notin> set (inner_addrs nss)" using that wi by auto
    then show ?thesis using Q t3(1) t3(5)[of a] that by simp
  qed
  have hc: "heap t' current = Some (nunlatch cnd)"
  proof -
    have "current \<noteq> w" "current \<notin> set (inner_addrs nss)" using c wi by auto
    then show ?thesis using Q t3 c by simp
  qed
  have "set (inner_addrs (ns' # nss')) \<subseteq> set (inner_addrs (ns # nss)) \<union> {b..<hnext t'}"
  proof -
    have "set (inner_addrs nss') \<subseteq> set (inner_addrs nss) \<union> {b..<hnext t'}"
      by (rule order_trans[OF sub]) (rule Un_mono, auto)
    moreover have "b \<in> {b..<hnext t'}" using Q t3(1) by simp
    ultimately show ?thesis unfolding concat.simps list.map set_append mf set_insert_at by blast
  qed
  then show ?thesis
    unfolding up_post_def using Q sn di tr fr2 hc t3 f ok by (simp add: stores_inners_Cons)
qed

lemma up_split:
  assumes pre: "up_pre F addrs bnds j current cnd mid (Suc i) (ns # nss) t"
    and p: "p = rank (schars mid) (level_bounds ns)" and k: "knum (snd (ns ! p)) = 64"
    and raw: "inner_sized F (eraw_inner E (hnext t))" and w: "w = fst (ns ! p)"
  shows "\<exists>t3 n' mid' ns'. upsert_up E (w # path) i current (Some (b, mid)) t = upsert_up E path (Suc i) w (Some (hnext t, mid')) t3 \<and>
    up_pre F (map fst ns) (level_bounds ns) p w (InnerN n') mid' (Suc (Suc i)) nss t3 \<and>
    map fst ns' = insert_at (Suc p) (hnext t) (map fst ns) \<and> level_bounds ns' = insert_at p (schars mid') (level_bounds ns) \<and>
    (\<forall>nss' t'. up_post F (map fst ns') (level_bounds ns') (Suc (Suc i)) w (InnerN n') nss t3 nss' t' \<longrightarrow>
       up_post F (insert_at (Suc j) b addrs) (insert_at j (schars mid) bnds) (Suc i) current cnd (ns # nss) t (ns' # nss') t')"
proof -
  note P = pre[unfolded up_pre_def]
  define n where "n = snd (ns ! p)"
  define nL where "nL = n\<lparr>icontrol := latched (icontrol n)\<rparr>"
  define q where "q = rank (schars mid) (sep_keys n)"
  have ok: "level_ok F ns addrs bnds" and s: "sorted_wrt (<) bnds" and m: "length mid = F" "schars mid \<notin> set bnds"
    and j: "j = rank (schars mid) bnds" using P by simp_all
  have pl: "p < length ns" by (rule level_step(1)[OF ok s p refl refl])
  have st: "list_all (stores_inner t) ns" using P by (simp add: stores_inners_Cons)
  then have "stores_inner t (ns ! p)" using pl by (simp add: list_all_length)
  then have hw: "heap t w = Some (InnerN n)" by (simp add: stores_inner_def w n_def)
  have wi: "w \<in> set (map fst ns)" using pl by (auto simp: w)
  have "root t \<in> set (inner_addrs (ns # nss))" using P top_addrs_in[of F "ns # nss" addrs bnds] by (metis list.distinct(1))
  moreover have cn: "current \<notin> set (inner_addrs (ns # nss))" using P by blast
  ultimately have cr: "current \<noteq> root t" by metis
  have hc: "heap t current = Some cnd" and cj: "current = addrs ! j" and cl: "current < hnext t" using P by blast+
  have cw: "current \<noteq> w" using cn wi by auto
  have lt: "\<forall>a \<in> set (inner_addrs (ns # nss)). a < hnext t" using P by blast
  have bw: "hnext t \<noteq> w" "hnext t \<notin> set (inner_addrs (ns # nss))" using lt wi by auto
  define t1 where "t1 = put w (InnerN nL) t"
  define t2 where "t2 = put current (nunlatch cnd) t1"
  have h1: "heap t1 w = Some (InnerN nL)" and h2: "heap t2 w = Some (InnerN nL)" using cw by (simp_all add: t1_def t2_def)
  have hn: "hnext t2 = hnext t" by (simp add: t2_def t1_def)
  note I = round_index[OF ok s m p n_def q_def nL_def h1]
  obtain n' m' mid' where o: "insert_at_node E w (Some (addrs ! j)) (Some b) mid (int q) t2 =
      Some (Some (hnext t, mid'), (put (hnext t) (InnerN m') (put w (InnerN n') t2))\<lparr>hnext := Suc (hnext t)\<rparr>)"
    and lv: "level_ok F (insert_at (Suc p) (hnext t, m') (ns[p := (w, iunlatch n')])) (insert_at (Suc j) b addrs) (insert_at j (schars mid) bnds)"
    and bd: "level_bounds (insert_at (Suc p) (hnext t, m') (ns[p := (w, iunlatch n')])) = insert_at p (schars mid') (level_bounds ns)"
    and mF: "length mid' = F"
    using round_split[OF ok s m p n_def q_def j nL_def h2 w, of E "hnext t" b] k raw unfolding n_def hn by blast
  let ?ns = "insert_at (Suc p) (hnext t, m') (ns[p := (w, iunlatch n')])"
  define t3 where "t3 = (put (hnext t) (InnerN m') (put w (InnerN n') t2))\<lparr>hnext := Suc (hnext t)\<rparr>"
  have eq: "upsert_up E (w # path) i current (Some (b, mid)) t = upsert_up E path (Suc i) w (Some (hnext t, mid')) t3"
    by (rule upsert_up_step[OF cr hw _ hc cw t1_def[unfolded nL_def] I(1)])
       (use I(6) o in \<open>simp_all add: t3_def t2_def flag_bits cj[symmetric]\<close>)
  have mf: "map fst ?ns = insert_at (Suc p) (hnext t) (map fst ns)" unfolding w by (rule map_fst_insert[OF pl])
  have "sorted_wrt (<) (insert_at j (schars mid) bnds)" unfolding j by (rule sorted_insert_at[OF s m(2)])
  then have sb: "sorted_wrt (<) (insert_at p (schars mid') (level_bounds ns))" using sorted_level_bounds[OF lv] bd by simp
  have "p \<le> length (level_bounds ns)" by (simp add: p)
  note mr = sorted_insert_rank[OF sb this]
  have fr: "heap t3 a = heap t a" if "a \<noteq> w" "a \<noteq> current" "a \<noteq> hnext t" for a using that by (simp add: t3_def t2_def t1_def)
  have wn: "w \<notin> set (inner_addrs nss)" using P wi by auto
  have st3: "stores_inners t3 nss"
  proof (rule stores_inners_frame[of t])
    show "stores_inners t nss" using P by (simp add: stores_inners_Cons)
    fix a assume "a \<in> set (inner_addrs nss)"
    moreover from this have "a \<in> set (inner_addrs (ns # nss))" by simp
    ultimately have "a \<noteq> w" "a \<noteq> current" "a \<noteq> hnext t" using wn cn bw(2) by metis+
    then show "heap t3 a = heap t a" by (rule fr)
  qed
  have pre3: "up_pre F (map fst ns) (level_bounds ns) p w (InnerN n') mid' (Suc (Suc i)) nss t3"
    unfolding up_pre_def
    using P sorted_level_bounds[OF ok s] mF mr pl w wn wi lt st3 bw cw
    by (auto simp: t3_def t2_def t1_def tracked_Cons tracked_def less_SucI)
  have "up_post F (insert_at (Suc j) b addrs) (insert_at j (schars mid) bnds) (Suc i) current cnd (ns # nss) t (?ns # nss') t'"
    if "up_post F (map fst ?ns) (level_bounds ?ns) (Suc (Suc i)) w (InnerN n') nss t3 nss' t'" for nss' t'
    by (rule up_post_Cons[OF that lv _ _ pl w _ refl _ _ _ _ _ fr _ cn _ st])
       (use P cl bw cw in \<open>simp_all add: t3_def t2_def t1_def\<close>)
  then show ?thesis using eq pre3 mf bd by blast
qed

context tree_codec
begin

lemma upsert_up_spec:
  assumes "up_pre F addrs bnds j current cnd mid (Suc i) nss t" "rank k bnds = j"
  shows "\<exists>t' nss'. upsert_up E (path_at k nss) i current (Some (b, mid)) t = Some t' \<and>
    up_post F (insert_at (Suc j) b addrs) (insert_at j (schars mid) bnds) (Suc i) current cnd nss t nss' t'"
  using assms
proof (induction nss arbitrary: addrs bnds j current cnd mid i t b)
  case Nil
  note P = Nil.prems(1)[unfolded up_pre_def]
  have "length addrs = 1" "bnds = []" using P by simp_all
  then have a: "addrs = [current]" "j = 0" using P by (cases addrs; simp)+
  have "\<exists>t' nss'. upsert_up E [] i current (Some (b, mid)) t = Some t' \<and>
      up_post F [current, b] [schars mid] (Suc i) current cnd [] t nss' t'"
    by (rule upsert_up_root[OF a(1)]) (use P a(1) in \<open>simp_all add: tracked_def\<close>)
  then show ?case using a \<open>bnds = []\<close> by (simp add: insert_at_def)
next
  case (Cons ns nss)
  note P = Cons.prems(1)[unfolded up_pre_def]
  define p where "p = rank (schars mid) (level_bounds ns)"
  have ok: "level_ok F ns addrs bnds" and s: "sorted_wrt (<) bnds" and j: "j = rank (schars mid) bnds" using P by simp_all
  have kp: "rank k (level_bounds ns) = p"
    unfolding p_def by (rule rank_subset_cong[OF s trans[OF Cons.prems(2) j] set_level_bounds[OF ok]])
  have pl: "p < length ns" by (rule level_step(1)[OF ok s p_def refl refl])
  have "knum (snd (ns ! p)) \<le> 64" using level_okD(2)[OF ok pl] by (simp add: inner_inv_def kInnerSize_def)
  then consider "knum (snd (ns ! p)) < 64" | "knum (snd (ns ! p)) = 64" by linarith
  then show ?case
  proof cases
    case 1
    then show ?thesis using up_room[OF Cons.prems(1) p_def 1] by (simp add: kp)
  next
    case 2
    obtain t3 n' mid' ns' where u: "upsert_up E (fst (ns ! p) # path_at k nss) i current (Some (b, mid)) t =
        upsert_up E (path_at k nss) (Suc i) (fst (ns ! p)) (Some (hnext t, mid')) t3"
      "up_pre F (map fst ns) (level_bounds ns) p (fst (ns ! p)) (InnerN n') mid' (Suc (Suc i)) nss t3"
      "map fst ns' = insert_at (Suc p) (hnext t) (map fst ns)" "level_bounds ns' = insert_at p (schars mid') (level_bounds ns)"
      "\<forall>nss' t'. up_post F (map fst ns') (level_bounds ns') (Suc (Suc i)) (fst (ns ! p)) (InnerN n') nss t3 nss' t' \<longrightarrow>
         up_post F (insert_at (Suc j) b addrs) (insert_at j (schars mid) bnds) (Suc i) current cnd (ns # nss) t (ns' # nss') t'"
      using up_split[OF Cons.prems(1) p_def 2 raw_inner refl, of "path_at k nss" b] by blast
    obtain t' nss' where "upsert_up E (path_at k nss) (Suc i) (fst (ns ! p)) (Some (hnext t, mid')) t3 = Some t'"
      "up_post F (insert_at (Suc p) (hnext t) (map fst ns)) (insert_at p (schars mid') (level_bounds ns)) (Suc (Suc i))
         (fst (ns ! p)) (InnerN n') nss t3 nss' t'"
      using Cons.IH[OF u(2) kp, of "hnext t"] by blast
    then show ?thesis using u by (auto simp: kp)
  qed
qed

end

end
