(* ===== verification/TreeUpsert.thy ===== *)
theory TreeUpsert
  imports TreeInsert
begin

text \<open>
  The whole of \<open>upsert\<close>: the leaf of the key is latched, the pair is put there, and a split of
  the leaf is carried upwards. The operation returns the pair it replaced, changes the map of
  the tree at the key only, and keeps the invariant.
\<close>

section \<open>Leaves with a latch\<close>

lemma leaf_inv_control:
  "leaf_inv h l \<Longrightarrow> bit c 3 \<Longrightarrow> (bit c 4 \<Longrightarrow> bit (lcontrol l) 4) \<Longrightarrow> leaf_inv h (l\<lparr>lcontrol := c\<rparr>)"
  by (auto simp: leaf_inv_iff slots_ok_def order_ok_def leaf_kvs_def flag_bits)

lemma leaf_map_control [simp]: "leaf_map (l\<lparr>lcontrol := c\<rparr>) = leaf_map l"
  by (simp add: leaf_map_def leaf_kvs_def)

lemma leaf_full_control [simp]: "leaf_full (l\<lparr>lcontrol := c\<rparr>) = leaf_full l"
  by (simp add: leaf_full_def)

definition lunlatch :: "('k, 'v) leaf \<Rightarrow> ('k, 'v) leaf" where
  "lunlatch l = l\<lparr>lcontrol := unlatch_exclusive (lcontrol l)\<rparr>"

lemma nunlatch_lunlatch: "nunlatch (LeafN l) = LeafN (lunlatch l)"
  by (simp add: lunlatch_def)

lemma lunlatch_facts:
  assumes "bit (lcontrol l) 1"
  shows "leaf_map (lunlatch l) = leaf_map l" "lhigh (lunlatch l) = lhigh l" "lsibling (lunlatch l) = lsibling l"
    "leaf_inv h l \<Longrightarrow> leaf_inv h (lunlatch l)"
    "bit (lcontrol (lunlatch l)) i \<longleftrightarrow> bit (lcontrol l) i \<and> i \<noteq> 1"
proof -
  note u = unlatch_bits[OF assms]
  show "leaf_inv h l \<Longrightarrow> leaf_inv h (lunlatch l)"
    unfolding lunlatch_def by (rule leaf_inv_control) (simp_all add: u leaf_inv_iff flag_bits)
qed (use unlatch_bits[OF assms] in \<open>simp_all add: lunlatch_def\<close>)

lemma latch_walk_here: "leaf_at a t = Some l \<Longrightarrow> leaf_to_sibling k l = None \<Longrightarrow> latch_walk k a t = Some (a, t)"
  by (subst latch_walk.simps) simp

text \<open>The leaf of a key, latched.\<close>

lemma latched_leaf:
  assumes ok: "leaves_ok h ls" and j: "j = rank k (highs ls)" and l: "l = snd (ls ! j)"
    and lL: "lL = l\<lparr>lcontrol := latched (lcontrol l)\<rparr>"
  shows "leaf_inv h lL" "leaf_to_sibling k lL = None" "leaf_map lL = leaf_map l"
    "\<not> bit (lcontrol l) 0" "\<not> bit (lcontrol l) 1" "bit (lcontrol l) 2 \<longleftrightarrow> Suc j < length ls"
    "has_sibling (lcontrol lL) \<longleftrightarrow> bit (lcontrol l) 2"
proof -
  note P = leaf_position[OF ok j]
  have lk: "linked lcontrol lsibling ls" using ok by (simp add: leaves_ok_def)
  show c: "\<not> bit (lcontrol l) 0" "\<not> bit (lcontrol l) 1" "bit (lcontrol l) 2 \<longleftrightarrow> Suc j < length ls"
    using linkedD(1-3)[OF lk P(1)] l by (simp_all add: flag_bits)
  show "leaf_inv h lL"
    unfolding lL by (rule leaf_inv_control) (use leaves_okD(1)[OF ok P(1)] l in \<open>simp_all add: latched_bits leaf_inv_iff flag_bits\<close>)
  show "leaf_to_sibling k lL = None"
    using P(2) l by (simp add: leaf_to_sibling_def lL flag_bits latched_bits split: if_splits)
  show "leaf_map lL = leaf_map l" "has_sibling (lcontrol lL) \<longleftrightarrow> bit (lcontrol l) 2"
    by (simp_all add: lL flag_bits latched_bits)
qed

section \<open>A split leaf\<close>

lemma highs_insert:
  assumes "j < length ls" "Suc j < length ls \<Longrightarrow> lhigh r = lhigh (snd (ls ! j))"
  shows "highs (insert_at (Suc j) (b, r) (ls[j := (a, l)])) = insert_at j (lhigh l) (highs ls)"
proof (rule nth_equalityI)
  show "length (highs (insert_at (Suc j) (b, r) (ls[j := (a, l)]))) = length (insert_at j (lhigh l) (highs ls))"
    using assms(1) by (simp add: highs_def)
  fix i assume "i < length (highs (insert_at (Suc j) (b, r) (ls[j := (a, l)])))"
  then have "i < length ls" using assms(1) by (simp add: highs_def)
  then show "highs (insert_at (Suc j) (b, r) (ls[j := (a, l)])) ! i = insert_at j (lhigh l) (highs ls) ! i"
    using assms by (auto simp: highs_def nth_butlast nth_insert_at nth_list_update)
qed

lemma leaves_okI:
  assumes "linked lcontrol lsibling ls" "sorted_wrt (<) (highs ls)"
    and "\<And>i. i < length ls \<Longrightarrow> leaf_inv h (snd (ls ! i)) \<and>
      (\<forall>x v. leaf_map (snd (ls ! i)) x = Some v \<longrightarrow> rank x (highs ls) = i)"
  shows "leaves_ok h ls"
proof -
  have "rank (fst kv) (highs ls) = i" if i: "i < length ls" and kv: "kv \<in> set (leaf_kvs (snd (ls ! i)))" for i kv
  proof -
    have "fst kv \<in> dom (leaf_map (snd (ls ! i)))"
      using kv by (auto simp: leaf_map_def dom_map_of_conv_image_fst)
    then show ?thesis using assms(3)[OF i] by blast
  qed
  then show ?thesis using assms by (auto simp: leaves_ok_def list_all_iff)
qed

lemma leaves_ok_split:
  assumes ok: "leaves_ok h ls" and j: "j < length ls" and l: "l = snd (ls ! j)"
    and inv: "leaf_inv h l'" "leaf_inv h r"
    and c: "lsibling l' = Some b" "bit (lcontrol l') 2" "\<not> bit (lcontrol l') 0" "\<not> bit (lcontrol l') 1"
      "\<not> bit (lcontrol r) 0" "\<not> bit (lcontrol r) 1" "bit (lcontrol r) 2 \<longleftrightarrow> bit (lcontrol l) 2"
      "bit (lcontrol l) 2 \<Longrightarrow> lhigh r = lhigh l \<and> lsibling r = lsibling l"
    and m: "leaf_map l' = M |` {..lhigh l'}" "leaf_map r = M |` {lhigh l'<..}"
      "\<And>x. x \<in> dom M \<Longrightarrow> rank x (highs ls) = j"
    and hi: "rank (lhigh l') (highs ls) = j" "lhigh l' \<notin> set (highs ls)"
    and ls': "ls' = insert_at (Suc j) (b, r) (ls[j := (fst (ls ! j), l')])"
  shows "leaves_ok h ls'" "highs ls' = insert_at j (lhigh l') (highs ls)"
    "tree_map ls' k = (if rank k (highs ls) = j then M k else tree_map ls k)"
proof -
  have lk: "linked lcontrol lsibling ls" and so: "sorted_wrt (<) (highs ls)" using ok by (simp_all add: leaves_ok_def)
  have sib: "bit (lcontrol l) 2 \<longleftrightarrow> Suc j < length ls" using linkedD(3)[OF lk j] l by (simp add: flag_bits)
  show hs: "highs ls' = insert_at j (lhigh l') (highs ls)"
    unfolding ls' using c(8) sib l by (intro highs_insert[OF j]) simp
  have lk': "linked lcontrol lsibling ls'"
    unfolding ls' using c sib l by (intro linked_insert[OF lk j]) (auto simp: flag_bits)
  have so': "sorted_wrt (<) (highs ls')" using sorted_insert_at[OF so hi(2)] hi(1) hs by simp
  have below: "\<not> lhigh l' < x" if "rank x (highs ls) < j" for x
    using rank_mono[of "lhigh l'" x "highs ls"] that hi(1) by (meson leD less_imp_le)
  have above: "lhigh l' < x" if "j < rank x (highs ls)" for x
    using rank_mono[of x "lhigh l'" "highs ls"] that hi(1) by (meson leD leI)
  have rk: "rank x (highs ls') = rank x (highs ls) + (if lhigh l' < x then 1 else 0)" for x
    unfolding hs by (rule rank_insert_at)
  have nth: "snd (ls' ! i) = (if i < j then snd (ls ! i) else if i = j then l' else if i = Suc j then r else snd (ls ! (i - 1)))"
    if "i \<le> length ls" for i
    unfolding ls' using that j by (simp add: nth_insert_at nth_list_update)
  have len: "length ls' = Suc (length ls)" unfolding ls' using j by simp
  have "leaf_inv h (snd (ls' ! i)) \<and> (\<forall>x v. leaf_map (snd (ls' ! i)) x = Some v \<longrightarrow> rank x (highs ls') = i)"
    if i: "i \<le> length ls" for i
  proof -
    consider "i < j" | "i = j" | "i = Suc j" | m where "i = Suc m" "j < m" by (metis Suc_lessI less_Suc_eq_0_disj linorder_neqE_nat less_imp_Suc_add add_Suc_right)
    then show ?thesis
    proof cases
      case 1
      then show ?thesis using nth[OF i] leaves_okD[OF ok, of i] j rk below by auto
    next
      case 2
      then show ?thesis using nth[OF i] inv m rk by (auto simp: restrict_map_def dom_def split: if_splits)
    next
      case 3
      then show ?thesis using nth[OF i] inv m rk by (auto simp: restrict_map_def dom_def split: if_splits)
    next
      case (4 m)
      then show ?thesis using nth[OF i] leaves_okD[OF ok, of m] i rk above by auto
    qed
  qed
  then show ok': "leaves_ok h ls'" using lk' so' len by (intro leaves_okI) auto
  have kl: "rank k (highs ls) < length ls" by (rule leaf_position(1)[OF ok refl])
  note tm = leaf_position(3)[OF ok' refl, of k] leaf_position(3)[OF ok refl, of k]
  consider "rank k (highs ls) < j" | "rank k (highs ls) = j" | "j < rank k (highs ls)" by linarith
  then show "tree_map ls' k = (if rank k (highs ls) = j then M k else tree_map ls k)"
  proof cases
    case 1
    then show ?thesis using tm nth[of "rank k (highs ls)"] kl rk[of k] below[OF 1] by auto
  next
    case 2
    have "tree_map ls' k = (if lhigh l' < k then leaf_map r k else leaf_map l' k)"
      using tm(1) nth[of j] nth[of "Suc j"] j rk[of k] 2 by simp
    also have "\<dots> = M k" using m(1,2) by (simp add: restrict_map_def not_less)
    finally show ?thesis using 2 by simp
  next
    case 3
    then show ?thesis using tm nth[of "Suc (rank k (highs ls))"] kl rk[of k] above[OF 3] by auto
  qed
qed

section \<open>Upsert\<close>

lemma put_put [simp]: "put a x (put a y t) = put a x t"
  by (simp add: put_def)

lemma inners_ok_nonempty: "inners_ok F nss addrs bnds \<Longrightarrow> ns \<in> set nss \<Longrightarrow> ns \<noteq> []"
  by (induction nss arbitrary: addrs bnds) (auto dest: level_okD(1))

lemma stores_leaf_update:
  assumes st: "list_all (stores_leaf t) ls" and d: "distinct (map fst ls)" and p: "p < length ls"
    and y: "heap t' (fst (ls ! p)) = Some (LeafN y)"
    and fr: "\<And>a. a \<in> set (map fst ls) \<Longrightarrow> a \<noteq> fst (ls ! p) \<Longrightarrow> heap t' a = heap t a"
  shows "list_all (stores_leaf t') (ls[p := (fst (ls ! p), y)])"
proof -
  have "stores_leaf t' (ls[p := (fst (ls ! p), y)] ! x)" if x: "x < length ls" for x
  proof (cases "x = p")
    case False
    then have "fst (ls ! x) \<noteq> fst (ls ! p)" using nth_eq_iff_index_eq[OF d, of x p] x p by simp
    moreover have "fst (ls ! x) \<in> set (map fst ls)" using x by simp
    ultimately show ?thesis using fr st x False by (simp add: stores_leaf_def list_all_length)
  qed (use y p in \<open>simp add: stores_leaf_def\<close>)
  then show ?thesis by (simp add: list_all_length)
qed

lemma tracked_tree:
  "tree_ok E F t ls nss \<Longrightarrow> tracked 1 nss t \<and> root_track t ! 0 = Some (fst (hd ls))"
proof -
  assume ok: "tree_ok E F t ls nss"
  then have a: "\<forall>i<length (level_addrs ls nss). root_track t ! i = Some (hd (level_addrs ls nss ! i))"
    and len: "length (root_track t) = kMaxHeight" by (simp_all add: tree_ok_def)
  have ne: "ls \<noteq> []" using tree_okD(1)[OF ok] by (simp add: leaves_ok_def linked_def)
  have "root_track t ! Suc x = Some (fst (hd (nss ! x)))" if "x < length nss" for x
    using a[rule_format, of "Suc x"] that inners_ok_nonempty[OF tree_okD(2)[OF ok], of "nss ! x"]
    by (simp add: level_addrs_def hd_map)
  moreover have "root_track t ! 0 = Some (fst (hd ls))" using a ne by (force simp: level_addrs_def hd_map)
  ultimately show ?thesis using len by (simp add: tracked_def)
qed

context tree_codec
begin

lemma leaf_split_tree:
  assumes ok: "tree_ok E F t ls nss" and j: "j = rank k (highs ls)" and d: "tree_depth t < kMaxHeight"
    and l: "l = snd (ls ! j)" and a: "a = fst (ls ! j)" and b: "b = hnext t"
    and t1: "t1 = (put b (LeafN r) (put a (LeafN l') t))\<lparr>hnext := Suc b\<rparr>"
    and lv: "leaves_ok (etag E) ls'" "highs ls' = insert_at j (lhigh l') (highs ls)"
    and ls': "ls' = insert_at (Suc j) (b, r) (ls[j := (a, lunlatch l')])"
    and hi: "rank (lhigh l') (highs ls) = j" "lhigh l' \<notin> set (highs ls)"
  shows "\<exists>t' nss'. upsert_up E (path_at (schars (eenc E k)) nss) 0 a (Some (b, eenc E (lhigh l'))) t1 = Some t' \<and>
    tree_ok E F t' ls' nss'"
proof -
  note D = tree_okD[OF ok] and P = leaf_position[OF tree_okD(1)[OF ok] j]
  have so: "sorted_wrt (<) (enc_highs (eenc E) ls)" using D(1) enc_sorted unfolding enc_highs_def leaves_ok_def by blast
  have di: "distinct (map fst ls)" "distinct (inner_addrs nss)" "set (map fst ls) \<inter> set (inner_addrs nss) = {}"
    using D(6) by (simp_all add: level_addrs_def)
  have ain: "a \<in> set (map fst ls)" using P(1) a by simp
  have lt: "x < b" if "x \<in> set (map fst ls) \<union> set (inner_addrs nss)" for x
    using D(7)[of x] that b by (simp add: level_addrs_def)
  have ab: "a < b" "a \<noteq> b" "a \<notin> set (inner_addrs nss)" using lt[of a] ain di(3) by auto
  have bi: "b \<notin> set (inner_addrs nss)" "b \<notin> set (map fst ls)" using lt[of b] by auto
  have er: "rank (schars (eenc E (lhigh l'))) (enc_highs (eenc E) ls) = j" by (simp add: enc_highs_rank hi)
  have en: "schars (eenc E (lhigh l')) \<notin> set (enc_highs (eenc E) ls)"
  proof
    assume "schars (eenc E (lhigh l')) \<in> set (enc_highs (eenc E) ls)"
    then obtain x where x: "x \<in> set (highs ls)" "schars (eenc E (lhigh l')) = schars (eenc E x)"
      by (auto simp: enc_highs_def)
    have "\<not> lhigh l' < x" "\<not> x < lhigh l'" using enc_less[of "lhigh l'" x] enc_less[of x "lhigh l'"] x(2) by simp_all
    then have "lhigh l' = x" by (rule antisym_conv3[THEN iffD1, rotated])
    then show False using hi(2) x(1) by simp
  qed
  have fr1: "heap t1 x = heap t x" if "x \<noteq> a" "x \<noteq> b" for x using that by (simp add: t1)
  have st1: "stores_inners t1 nss"
  proof (rule stores_inners_frame[OF D(3)])
    fix x assume "x \<in> set (inner_addrs nss)"
    then show "heap t1 x = heap t x" using ab bi by (intro fr1) metis+
  qed
  have kd: "length (root_track t) = kMaxHeight" "tree_depth t = Suc (length nss)" using ok by (simp_all add: tree_ok_def)
  have pre: "up_pre F (map fst ls) (enc_highs (eenc E) ls) j a (LeafN l') (eenc E (lhigh l')) (Suc 0) nss t1"
    unfolding up_pre_def
    using D(2,4) so enc_length en er P(1) a st1 di(2) lt ab tracked_tree[OF ok] kd d
    by (auto simp: t1 tracked_def less_SucI)
  have kr: "rank (schars (eenc E k)) (enc_highs (eenc E) ls) = j" by (simp add: enc_highs_rank j)
  obtain t' nss' where u: "upsert_up E (path_at (schars (eenc E k)) nss) 0 a (Some (b, eenc E (lhigh l'))) t1 = Some t'"
    and post: "up_post F (insert_at (Suc j) b (map fst ls)) (insert_at j (schars (eenc E (lhigh l'))) (enc_highs (eenc E) ls))
      (Suc 0) a (LeafN l') nss t1 nss' t'"
    using upsert_up_spec[OF pre kr] by blast
  note Q = post[unfolded up_post_def]
  have mf: "map fst ls' = insert_at (Suc j) b (map fst ls)" unfolding ls' a by (rule map_fst_insert[OF P(1)])
  have eh: "enc_highs (eenc E) ls' = insert_at j (schars (eenc E (lhigh l'))) (enc_highs (eenc E) ls)"
    by (simp add: enc_highs_def lv(2) map_insert_at)
  have h: "hnext t1 = Suc b" "tree_depth t1 = Suc (length nss)" "root_track t1 = root_track t" using kd by (simp_all add: t1)
  have sub: "set (inner_addrs nss') \<subseteq> set (inner_addrs nss) \<union> {Suc b..<hnext t'}" using Q h(1) by simp
  have subD: "x \<in> set (inner_addrs nss) \<or> Suc b \<le> x \<and> x < hnext t'" if "x \<in> set (inner_addrs nss')" for x
    using subsetD[OF sub that] unfolding Un_iff atLeastLessThan_iff .
  have fr: "heap t' x = heap t1 x" if "x \<notin> set (inner_addrs nss)" "x \<le> b" "x \<noteq> a" for x
    using Q h(1) that by simp
  have "list_all (stores_leaf t') (ls[j := (fst (ls ! j), lunlatch l')])"
  proof (rule stores_leaf_update[OF _ di(1) P(1)])
    show "list_all (stores_leaf t) ls" using ok by (simp add: tree_ok_def)
    show "heap t' (fst (ls ! j)) = Some (LeafN (lunlatch l'))" using Q a nunlatch_lunlatch[of l'] by simp
    fix x assume x: "x \<in> set (map fst ls)" "x \<noteq> fst (ls ! j)"
    have "x < b" using lt[of x] x(1) by blast
    moreover have "x \<notin> set (inner_addrs nss)" using x(1) di(3) by blast
    ultimately show "heap t' x = heap t x" using fr[of x] fr1[of x] x(2) a by simp
  qed
  moreover have "heap t' b = Some (LeafN r)" using fr[OF bi(1)] ab by (simp add: t1)
  ultimately have sl: "list_all (stores_leaf t') ls'" unfolding ls' a by (simp add: list_all_iff stores_leaf_def)
  have "x \<notin> set (inner_addrs nss')" if "x \<in> set (map fst ls')" for x
  proof
    assume "x \<in> set (inner_addrs nss')"
    then have n: "x \<in> set (inner_addrs nss) \<or> Suc b \<le> x \<and> x < hnext t'" by (rule subD)
    have "x = b \<or> x \<in> set (map fst ls)" using that unfolding mf set_insert_at by blast
    then show False
    proof
      assume "x = b"
      then show False using n bi(1) by (metis Suc_n_not_le_n)
    next
      assume "x \<in> set (map fst ls)"
      then show False using n lt[of x] di(3) by (metis Un_iff disjoint_iff not_less_eq_eq order_less_imp_le)
    qed
  qed
  then have ds: "distinct (concat (level_addrs ls' nss'))"
    using Q di(1) bi(2) distinct_insert_at[of "Suc j" b "map fst ls"] by (simp add: level_addrs_def mf disjoint_iff)
  have "x < hnext t'" if "x \<in> set (concat (level_addrs ls' nss'))" for x
  proof -
    have "x = b \<or> x \<in> set (map fst ls) \<or> x \<in> set (inner_addrs nss')"
      using that unfolding level_addrs_def concat.simps set_append mf set_insert_at by blast
    then have "x \<le> b \<or> x < hnext t'" using subD[of x] lt[of x] by (metis Un_iff order_less_imp_le order_refl)
    moreover have "Suc b \<le> hnext t'" using Q h(1) by simp
    ultimately show ?thesis by linarith
  qed
  then have al: "list_all (\<lambda>a. a < hnext t') (concat (level_addrs ls' nss'))" by (simp add: list_all_iff)
  have ne: "ls \<noteq> []" using P(1) by auto
  have hd': "hd (map fst ls') = fst (hd ls)" unfolding mf using ne by (simp add: hd_insert_Suc hd_map)
  have lv': "\<forall>ns \<in> set nss'. ns \<noteq> []" using Q inners_ok_nonempty by blast
  have "root_track t' ! i = Some (hd (level_addrs ls' nss' ! i))" if "i < length (level_addrs ls' nss')" for i
  proof (cases i)
    case 0
    then show ?thesis using Q h(3) tracked_tree[OF ok] hd' by (simp add: level_addrs_def)
  next
    case (Suc x)
    then show ?thesis using Q that lv' by (simp add: level_addrs_def tracked_def hd_map)
  qed
  then have "tree_ok E F t' ls' nss'"
    unfolding tree_ok_def using Q lv(1) sl ds al h(2) kd d by (simp add: mf eh tracked_def)
  then show ?thesis using u by blast
qed

end

context tree_codec
begin

lemma upsert_start:
  assumes ok: "tree_ok E F t ls nss" and j: "j = rank k (highs ls)" and l: "l = snd (ls ! j)" and a: "a = fst (ls ! j)"
    and lL: "lL = l\<lparr>lcontrol := latched (lcontrol l)\<rparr>"
  shows "upsert E (k, v) t =
    do { (old, split, t) \<leftarrow> upsert_at_leaf E (k, v) a (put a (LeafN lL) t);
         t \<leftarrow> upsert_up E (path_at (schars (eenc E k)) nss) 0 a split t; Some (old, t) }"
proof -
  note D = tree_okD[OF ok] and P = leaf_position[OF tree_okD(1)[OF ok] j]
  note L = latched_leaf[OF D(1) j l lL]
  have "tlatch a t = Some (put a (LeafN lL) t)"
    using tlatch_Some[OF D(5)[OF P(1)]] L(5) by (simp add: a l lL flag_bits)
  moreover have "latch_walk k a (put a (LeafN lL) t) = Some (a, put a (LeafN lL) t)"
    by (rule latch_walk_here[OF _ L(2)]) (simp add: leaf_at_def)
  ultimately show ?thesis by (simp add: upsert_def descend_tree[OF ok j] a)
qed

lemma upsert_replace:
  assumes ok: "tree_ok E F t ls nss" and j: "j = rank k (highs ls)" and l: "l = snd (ls ! j)"
    and lL: "lL = l\<lparr>lcontrol := latched (lcontrol l)\<rparr>"
    and u: "leaf_upsert (etag E) (eenc E) (hnext t) (eraw_leaf E (hnext t)) (k, v) lL = Some (old, None, l')"
    and inv: "leaf_inv (etag E) l'" and m: "leaf_map l' = (leaf_map l)(k \<mapsto> v)"
    and f: "lhigh l' = lhigh l" "lsibling l' = lsibling l"
    and c: "bit (lcontrol l') 1" "\<not> bit (lcontrol l') 0" "bit (lcontrol l') 2 \<longleftrightarrow> bit (lcontrol l) 2"
  shows "\<exists>t' ls'. upsert E (k, v) t = Some (old, t') \<and> tree_ok E F t' ls' nss \<and> tree_map ls' = (tree_map ls)(k \<mapsto> v)"
proof -
  note D = tree_okD[OF ok] and P = leaf_position[OF tree_okD(1)[OF ok] j]
  note uf = lunlatch_facts[OF c(1)]
  define a where "a = fst (ls ! j)"
  let ?ls = "ls[j := (fst (ls ! j), lunlatch l')]"
  have dm: "rank x (highs ls) = j" if "x \<in> dom (leaf_map (lunlatch l'))" for x
    using that leaves_okD(2)[OF D(1) P(1), of x] m uf(1) l by (auto simp: j split: if_splits)
  have ctl: "\<not> deleted (lcontrol (lunlatch l'))" "\<not> locked (lcontrol (lunlatch l'))"
    "has_sibling (lcontrol (lunlatch l')) = has_sibling (lcontrol l)"
    using c uf(5) by (simp_all add: flag_bits)
  have hf: "lhigh (lunlatch l') = lhigh l" "lsibling (lunlatch l') = lsibling l" using f uf by simp_all
  note lu = leaves_ok_update[OF D(1) P(1) l uf(4)[OF inv] hf ctl dm]
  have "tree_map ?ls x = ((tree_map ls)(k \<mapsto> v)) x" for x
    using lu(2)[of x] leaf_position(3)[OF D(1) refl, of x] m uf(1) l by (auto simp: j)
  then have tm: "tree_map ?ls = (tree_map ls)(k \<mapsto> v)" by (rule ext)
  have "upsert_at_leaf E (k, v) a (put a (LeafN lL) t) = Some (old, None, put a (LeafN l') t)"
    using u by (simp add: upsert_at_leaf_def leaf_at_def)
  moreover have "upsert_up E path 0 a None (put a (LeafN l') t) = Some (put a (LeafN (lunlatch l')) t)" for path
    using upsert_up_done[of "put a (LeafN l') t" a "LeafN l'" E path 0] by (simp add: nunlatch_lunlatch del: nunlatch_leaf)
  ultimately have "upsert E (k, v) t = Some (old, put a (LeafN (lunlatch l')) t)"
    by (simp add: upsert_start[OF ok j l a_def lL])
  moreover have "tree_ok E F (put a (LeafN (lunlatch l')) t) ?ls nss"
    unfolding a_def by (rule tree_ok_put_leaf[OF ok P(1) _ refl lu(1)]) (use hf l in simp)
  ultimately show ?thesis using tm by blast
qed

lemma upsert_split_leaf:
  assumes ok: "tree_ok E F t ls nss" and j: "j = rank k (highs ls)" and l: "l = snd (ls ! j)"
    and lL: "lL = l\<lparr>lcontrol := latched (lcontrol l)\<rparr>" and d: "tree_depth t < kMaxHeight"
    and k: "leaf_map l k = None" and full: "leaf_full l"
  shows "\<exists>t' ls' nss'. upsert E (k, v) t = Some (None, t') \<and> tree_ok E F t' ls' nss' \<and> tree_map ls' = (tree_map ls)(k \<mapsto> v)"
proof -
  note D = tree_okD[OF ok] and P = leaf_position[OF tree_okD(1)[OF ok] j]
  note L = latched_leaf[OF D(1) j l lL]
  define a where "a = fst (ls ! j)"
  define b where "b = hnext t"
  let ?M = "(leaf_map l)(k \<mapsto> v)"
  have "leaf_full lL" "leaf_map lL k = None" using full k by (simp_all add: lL)
  then obtain l' r where u: "leaf_upsert (etag E) (eenc E) b (eraw_leaf E b) (k, v) lL = Some (None, Some (r, eenc E (lhigh l')), l')"
    "leaf_inv (etag E) l'" "leaf_inv (etag E) r" "leaf_map l' = ?M |` {..lhigh l'}" "leaf_map r = ?M |` {lhigh l'<..}"
    "lhigh l' \<in> dom (leaf_map l)" "lsibling l' = Some b"
    "bit (lcontrol l) 2 \<longrightarrow> dom (leaf_map l) \<inter> {lhigh l'<..} \<noteq> {}"
    "lcontrol l' = (if bit (lcontrol l) 2 then unordered_ctl (lcontrol lL) else set_sibling (unordered_ctl (lcontrol lL)))"
    "lcontrol r = (if bit (lcontrol l) 2 then set_sibling (control_new True) else control_new True)"
    "bit (lcontrol l) 2 \<longrightarrow> lhigh r = lhigh lL \<and> lsibling r = lsibling lL"
    using leaf_upsert_split[OF L(1) _ _ raw_leaf[of b], where k = k and v = v and enc = "eenc E" and rp = b]
    unfolding L(3,7) by blast
  have bl: "bit (lcontrol l') i \<longleftrightarrow> (bit (lcontrol l) i \<and> i \<noteq> 4) \<or> i = 1 \<or> i = 2" if "i < 24" for i
    using that by (auto simp: u(9) lL ctl_bits unordered_ctl_bits latched_bits)
  have br: "bit (lcontrol r) i \<longleftrightarrow> i = 3 \<or> (i = 2 \<and> bit (lcontrol l) 2)" for i
    by (auto simp: u(10) ctl_bits control_new_bits)
  have b1: "bit (lcontrol l') 1" using bl[of 1] by simp
  note uf = lunlatch_facts[OF b1]
  have hr: "rank (lhigh l') (highs ls) = j" using leaves_okD(2)[OF D(1) P(1)] u(6) l by blast
  have hn: "lhigh l' \<notin> set (highs ls)"
  proof
    assume "lhigh l' \<in> set (highs ls)"
    then obtain i where i: "i < length (highs ls)" "highs ls ! i = lhigh l'" by (auto simp: in_set_conv_nth)
    have so: "sorted_wrt (<) (highs ls)" using D(1) by (simp add: leaves_ok_def)
    have ij: "j \<le> i" using rank_nth_less[OF so, of i "lhigh l'"] i(2) hr by (cases "i < j") auto
    have "Suc j < length ls" using ij i(1) by (simp add: highs_def)
    then obtain x where x: "x \<in> dom (leaf_map l)" "lhigh l' < x" using u(8) L(6) by blast
    have "rank x (highs ls) = j" using leaves_okD(2)[OF D(1) P(1)] x(1) l by blast
    then have "x \<le> highs ls ! i" using rank_nth_ge[OF so, of x i] ij i(1) by simp
    then show False using x(2) i(2) by simp
  qed
  define ls' where "ls' = insert_at (Suc j) (b, r) (ls[j := (fst (ls ! j), lunlatch l')])"
  have dm: "rank x (highs ls) = j" if "x \<in> dom ?M" for x
    using that leaves_okD(2)[OF D(1) P(1), of x] l by (auto simp: j split: if_splits)
  note ub = uf(5)[of 0] uf(5)[of 1] uf(5)[of 2] bl[of 0] bl[of 2] br[of 0] br[of 1] br[of 2]
  note S = leaves_ok_split[OF D(1) P(1) l uf(4)[OF u(2)] u(3), of b ?M, unfolded uf(1-3), OF u(7) _ _ _ _ _ _ _ u(4,5) dm hr hn]
  have lv: "leaves_ok (etag E) ls'" "highs ls' = insert_at j (lhigh l') (highs ls)"
    "\<And>x. tree_map ls' x = (if rank x (highs ls) = j then ?M x else tree_map ls x)"
    using S ub L(4) u(11) unfolding ls'_def by (simp_all add: lL)
  have "tree_map ls' x = ((tree_map ls)(k \<mapsto> v)) x" for x
    using lv(3)[of x] leaf_position(3)[OF D(1) refl, of x] l by (auto simp: j)
  then have tm: "tree_map ls' = (tree_map ls)(k \<mapsto> v)" by (rule ext)
  let ?t = "(put b (LeafN r) (put a (LeafN l') t))\<lparr>hnext := Suc b\<rparr>"
  obtain t' nss' where up: "upsert_up E (path_at (schars (eenc E k)) nss) 0 a (Some (b, eenc E (lhigh l'))) ?t = Some t'"
    "tree_ok E F t' ls' nss'"
    using leaf_split_tree[OF ok j d l a_def b_def refl lv(1,2) ls'_def[folded a_def] hr hn] by blast
  have "upsert_at_leaf E (k, v) a (put a (LeafN lL) t) = Some (None, Some (b, eenc E (lhigh l')), ?t)"
    using u(1) by (simp add: upsert_at_leaf_def leaf_at_def malloc_node_def b_def)
  then have "upsert E (k, v) t = Some (None, t')" using up(1) by (simp add: upsert_start[OF ok j l a_def lL])
  then show ?thesis using up(2) tm by blast
qed

lemma upsert_spec:
  assumes ok: "tree_ok E F t ls nss" and d: "tree_depth t < kMaxHeight"
  shows "\<exists>t' ls' nss'. upsert E (k, v) t = Some (map_option (Pair k) (tree_map ls k), t') \<and> tree_ok E F t' ls' nss' \<and>
    tree_map ls' = (tree_map ls)(k \<mapsto> v)"
proof -
  define j where "j = rank k (highs ls)"
  define l where "l = snd (ls ! j)"
  define lL where "lL = l\<lparr>lcontrol := latched (lcontrol l)\<rparr>"
  note D = tree_okD[OF ok] and P = leaf_position[OF tree_okD(1)[OF ok] j_def]
  note L = latched_leaf[OF D(1) j_def l_def lL_def]
  have tk: "tree_map ls k = leaf_map l k" using P(3) by (simp add: l_def)
  have lf: "lhigh lL = lhigh l" "lsibling lL = lsibling l" by (simp_all add: lL_def)
  show ?thesis
  proof (cases "leaf_map l k")
    case (Some w)
    obtain l' where u: "leaf_upsert (etag E) (eenc E) (hnext t) (eraw_leaf E (hnext t)) (k, v) lL = Some (Some (k, w), None, l')"
      "leaf_inv (etag E) l'" "leaf_map l' = (leaf_map l)(k \<mapsto> v)" "same_meta l' lL"
      using leaf_upsert_present[OF L(1), of k w "eenc E" "hnext t" "eraw_leaf E (hnext t)" v] Some L(3) by auto
    have m: "lhigh l' = lhigh l" "lsibling l' = lsibling l" "lcontrol l' = latched (lcontrol l)"
      using u(4) by (simp_all add: same_meta_def lL_def)
    have "\<exists>t' ls'. upsert E (k, v) t = Some (Some (k, w), t') \<and> tree_ok E F t' ls' nss \<and> tree_map ls' = (tree_map ls)(k \<mapsto> v)"
      by (rule upsert_replace[OF ok j_def l_def lL_def u(1,2,3) m(1,2)]) (use L(4) m(3) in \<open>simp_all add: latched_bits\<close>)
    then show ?thesis using Some tk by auto
  next
    case None
    show ?thesis
    proof (cases "leaf_full l")
      case True
      then show ?thesis using upsert_split_leaf[OF ok j_def l_def lL_def d None] None tk by simp
    next
      case False
      then obtain l' where u: "leaf_upsert (etag E) (eenc E) (hnext t) (eraw_leaf E (hnext t)) (k, v) lL = Some (None, None, l')"
        "leaf_inv (etag E) l'" "leaf_map l' = (leaf_map l)(k \<mapsto> v)" "lcontrol l' = unordered_ctl (lcontrol lL)"
        "lhigh l' = lhigh l" "lsibling l' = lsibling l"
        using leaf_upsert_free[OF L(1), of k "eenc E" "hnext t" "eraw_leaf E (hnext t)" v] None L(3) lf by (auto simp: lL_def)
      have "\<exists>t' ls'. upsert E (k, v) t = Some (None, t') \<and> tree_ok E F t' ls' nss \<and> tree_map ls' = (tree_map ls)(k \<mapsto> v)"
        by (rule upsert_replace[OF ok j_def l_def lL_def u(1,2,3,5,6)])
           (use L(4) u(4) in \<open>simp_all add: lL_def unordered_ctl_bits latched_bits\<close>)
      then show ?thesis using None tk by auto
    qed
  qed
qed

end

section \<open>The empty tree\<close>

context tree_codec
begin

lemma tree_new_ok:
  assumes "length junk = kMaxHeight"
  shows "tree_ok E F (tree_new E junk) [(0, leaf_new (eraw_leaf E 0))] []" "tree_map [(0, leaf_new (eraw_leaf E 0))] = Map.empty"
proof -
  let ?l = "leaf_new (eraw_leaf E 0)"
  have s: "slots_ok (etag E) ?l" "leaf_map ?l = Map.empty" by (rule leaf_new_facts[OF raw_leaf])+
  have c: "bit (lcontrol ?l) i \<longleftrightarrow> i = 3" for i by (simp add: leaf_new_def control_new_bits)
  have "leaf_inv (etag E) ?l" using s(1) c[of 3] c[of 4] by (simp add: leaf_inv_iff order_ok_def flag_bits)
  then have "leaves_ok (etag E) [(0, ?l)]"
    using c[of 0] c[of 1] c[of 2] s(2) by (intro leaves_okI) (simp_all add: linked_def highs_def flag_bits)
  moreover have "0 < length junk" using assms by (simp add: kMaxHeight_def)
  ultimately show "tree_ok E F (tree_new E junk) [(0, ?l)] []"
    using assms
    by (simp add: tree_ok_def tree_new_def stores_leaf_def stores_inners_def level_addrs_def enc_highs_def highs_def kMaxHeight_def)
  show "tree_map [(0, ?l)] = Map.empty" using s(2) by (simp add: tree_map_def tree_kvs_def leaf_map_def)
qed

end

end
