(* ===== verification/MapSpec.thy ===== *)
theory MapSpec
  imports Main
begin

text \<open>
  What the index structures of the repository promise: each is a finite map with \<open>lookup\<close>,
  \<open>upsert\<close> and \<open>update\<close>. The interface \<open>map_store\<close> states the laws of one call; the lemma proved
  from them is about every sequence of calls. The implementations interpret it. The smaller
  interface \<open>kv_store\<close> is for those that only look up and insert.

  A call of an implementation returns \<open>None\<close> where the code would not return. An insertion
  relies on room, which the caller has to ensure; a run stops at an insertion without room.
\<close>

datatype ('k, 'v) map_op = OpLookup 'k | OpUpsert 'k 'v | OpUpdate 'k 'v

primrec spec_step :: "('k, 'v) map_op \<Rightarrow> ('k \<Rightarrow> 'v option) \<Rightarrow> 'v option \<times> ('k \<Rightarrow> 'v option)" where
  "spec_step (OpLookup k) m = (m k, m)"
| "spec_step (OpUpsert k v) m = (m k, m(k \<mapsto> v))"
| "spec_step (OpUpdate k v) m = (m k, if m k = None then m else m(k \<mapsto> v))"

fun spec_run :: "('k, 'v) map_op list \<Rightarrow> ('k \<Rightarrow> 'v option) \<Rightarrow> 'v option list \<times> ('k \<Rightarrow> 'v option)" where
  "spec_run [] m = ([], m)"
| "spec_run (op # ops) m = (let (r, m) = spec_step op m; (rs, m) = spec_run ops m in (r # rs, m))"

record ('s, 'k, 'v) map_impl =
  m_room :: "'s \<Rightarrow> bool"
  m_lookup :: "'k \<Rightarrow> 's \<Rightarrow> 'v option option"
  m_upsert :: "'k \<Rightarrow> 'v \<Rightarrow> 's \<Rightarrow> ('v option \<times> 's) option"
  m_update :: "'k \<Rightarrow> 'v \<Rightarrow> 's \<Rightarrow> ('v option \<times> 's) option"

primrec impl_step :: "('s, 'k, 'v) map_impl \<Rightarrow> ('k, 'v) map_op \<Rightarrow> 's \<Rightarrow> ('v option \<times> 's) option" where
  "impl_step I (OpLookup k) s = map_option (\<lambda>r. (r, s)) (m_lookup I k s)"
| "impl_step I (OpUpsert k v) s = m_upsert I k v s"
| "impl_step I (OpUpdate k v) s = m_update I k v s"

primrec has_room :: "('s, 'k, 'v) map_impl \<Rightarrow> ('k, 'v) map_op \<Rightarrow> 's \<Rightarrow> bool" where
  "has_room I (OpLookup k) s = True"
| "has_room I (OpUpsert k v) s = m_room I s"
| "has_room I (OpUpdate k v) s = True"

fun impl_run :: "('s, 'k, 'v) map_impl \<Rightarrow> ('k, 'v) map_op list \<Rightarrow> 's \<Rightarrow> ('v option list \<times> 's) option" where
  "impl_run I [] s = Some ([], s)"
| "impl_run I (op # ops) s =
     (if has_room I op s
      then case impl_step I op s of
          None \<Rightarrow> None
        | Some (r, s) \<Rightarrow> map_option (\<lambda>(rs, s). (r # rs, s)) (impl_run I ops s)
      else Some ([], s))"

text \<open>The calls in a row of an implementation that only inserts.\<close>

fun put_all :: "('k \<Rightarrow> 'v \<Rightarrow> 's \<Rightarrow> 's option) \<Rightarrow> ('k \<times> 'v) list \<Rightarrow> 's \<Rightarrow> 's option" where
  "put_all put [] s = Some s"
| "put_all put ((k, v) # kvs) s = Option.bind (put k v s) (put_all put kvs)"

section \<open>Lookup and insertion\<close>

locale kv_store =
  fixes find :: "'k \<Rightarrow> 's \<Rightarrow> 'v option option" and put :: "'k \<Rightarrow> 'v \<Rightarrow> 's \<Rightarrow> 's option"
    and room :: "'s \<Rightarrow> bool" and rel :: "'s \<Rightarrow> ('k \<Rightarrow> 'v option) \<Rightarrow> bool"
  assumes find_law: "rel s m \<Longrightarrow> find k s = Some (m k)"
    and put_law: "rel s m \<Longrightarrow> room s \<Longrightarrow> \<exists>s'. put k v s = Some s' \<and> rel s' (m(k \<mapsto> v))"
begin

lemma find_put: "rel s m \<Longrightarrow> room s \<Longrightarrow> \<exists>s'. put k v s = Some s' \<and> find x s' = Some (if x = k then Some v else m x)"
  using put_law[of s m k v] find_law by fastforce

lemma find_unique: "rel s m \<Longrightarrow> rel s m' \<Longrightarrow> m = m'"
  using find_law[of s m] find_law[of s m'] by (intro ext) simp

end

text \<open>A store whose insertions always have room.\<close>

locale unbounded_store = kv_store +
  assumes room_law: "room s"
begin

lemma put_all_refines: "rel s m \<Longrightarrow> \<exists>s'. put_all put kvs s = Some s' \<and> rel s' (m ++ map_of (rev kvs))"
proof (induction kvs arbitrary: s m)
  case (Cons kv kvs)
  obtain k v where kv: "kv = (k, v)" by fastforce
  obtain s1 where s1: "put k v s = Some s1" "rel s1 (m(k \<mapsto> v))" using put_law[OF Cons.prems room_law] by blast
  have "m(k \<mapsto> v) ++ map_of (rev kvs) = m ++ map_of (rev (kv # kvs))"
    by (rule ext) (simp add: kv map_add_def split: option.splits)
  then have "\<exists>s'. put_all put kvs s1 = Some s' \<and> rel s' (m ++ map_of (rev (kv # kvs)))" using Cons.IH[OF s1(2)] by metis
  moreover have "put_all put (kv # kvs) s = put_all put kvs s1" using s1(1) kv by simp
  ultimately show ?case by metis
qed simp

lemma find_put_all: "rel s m \<Longrightarrow> \<exists>s'. put_all put kvs s = Some s' \<and> find k s' = Some ((m ++ map_of (rev kvs)) k)"
  using put_all_refines find_law by blast

end

section \<open>Lookup, insertion and update\<close>

locale map_store =
  fixes I :: "('s, 'k, 'v) map_impl" and rel :: "'s \<Rightarrow> ('k \<Rightarrow> 'v option) \<Rightarrow> bool"
  assumes lookup_law: "rel s m \<Longrightarrow> m_lookup I k s = Some (m k)"
    and upsert_law: "rel s m \<Longrightarrow> m_room I s \<Longrightarrow> \<exists>s'. m_upsert I k v s = Some (m k, s') \<and> rel s' (m(k \<mapsto> v))"
    and update_law: "rel s m \<Longrightarrow>
      \<exists>s'. m_update I k v s = Some (m k, s') \<and> rel s' (if m k = None then m else m(k \<mapsto> v))"
begin

lemma step_refines:
  "rel s m \<Longrightarrow> has_room I op s \<Longrightarrow> \<exists>s'. impl_step I op s = Some (fst (spec_step op m), s') \<and> rel s' (snd (spec_step op m))"
  using lookup_law upsert_law update_law by (cases op) auto

text \<open>
  A run returns, its answers are those of the specification for the calls that were made, and
  so is the map at the end. It makes all calls unless it stops for lack of room.
\<close>

lemma run_refines:
  assumes "rel s m"
  shows "\<exists>rs s'. impl_run I ops s = Some (rs, s') \<and>
    rs = fst (spec_run (take (length rs) ops) m) \<and> rel s' (snd (spec_run (take (length rs) ops) m)) \<and>
    (length rs = length ops \<or> length rs < length ops \<and> \<not> has_room I (ops ! length rs) s')"
  using assms
proof (induction ops arbitrary: s m)
  case (Cons op ops)
  show ?case
  proof (cases "has_room I op s")
    case True
    obtain s1 where s1: "impl_step I op s = Some (fst (spec_step op m), s1)" "rel s1 (snd (spec_step op m))"
      using step_refines[OF Cons.prems True] by blast
    from Cons.IH[OF s1(2)] True s1(1) show ?thesis by (auto simp: Let_def split: prod.splits)
  qed (use Cons.prems in auto)
qed simp

end

sublocale map_store \<subseteq> kv: kv_store "m_lookup I" "\<lambda>k v s. map_option snd (m_upsert I k v s)" "m_room I" rel
  using lookup_law upsert_law by unfold_locales fastforce+

section \<open>Insertion of absent keys only\<close>

text \<open>
  The other kind of index: an insertion of a key that is present fails and changes nothing, an
  update fails if the key is absent. A call answers with the value that was found or with success.
\<close>

datatype ('k, 'v) link_call = CallSearch 'k | CallInsert 'k 'v | CallUpdate 'k 'v

primrec call_spec :: "('k, 'v) link_call \<Rightarrow> ('k \<Rightarrow> 'v option) \<Rightarrow> ('v option + bool) \<times> ('k \<Rightarrow> 'v option)" where
  "call_spec (CallSearch k) m = (Inl (m k), m)"
| "call_spec (CallInsert k v) m = (Inr (m k = None), if m k = None then m(k \<mapsto> v) else m)"
| "call_spec (CallUpdate k v) m = (Inr (m k \<noteq> None), if m k = None then m else m(k \<mapsto> v))"

fun calls_spec :: "('k, 'v) link_call list \<Rightarrow> ('k \<Rightarrow> 'v option) \<Rightarrow> ('v option + bool) list \<times> ('k \<Rightarrow> 'v option)" where
  "calls_spec [] m = ([], m)"
| "calls_spec (c # cs) m = (let (r, m) = call_spec c m; (rs, m) = calls_spec cs m in (r # rs, m))"

record ('s, 'k, 'v) link_impl =
  i_search :: "'k \<Rightarrow> 's \<Rightarrow> ('v option \<times> 's) option"
  i_insert :: "'k \<Rightarrow> 'v \<Rightarrow> 's \<Rightarrow> (bool \<times> 's) option"
  i_update :: "'k \<Rightarrow> 'v \<Rightarrow> 's \<Rightarrow> (bool \<times> 's) option"

primrec call_impl :: "('s, 'k, 'v) link_impl \<Rightarrow> ('k, 'v) link_call \<Rightarrow> 's \<Rightarrow> (('v option + bool) \<times> 's) option" where
  "call_impl I (CallSearch k) s = map_option (map_prod Inl id) (i_search I k s)"
| "call_impl I (CallInsert k v) s = map_option (map_prod Inr id) (i_insert I k v s)"
| "call_impl I (CallUpdate k v) s = map_option (map_prod Inr id) (i_update I k v s)"

fun calls_impl :: "('s, 'k, 'v) link_impl \<Rightarrow> ('k, 'v) link_call list \<Rightarrow> 's \<Rightarrow> (('v option + bool) list \<times> 's) option" where
  "calls_impl I [] s = Some ([], s)"
| "calls_impl I (c # cs) s =
     (case call_impl I c s of
        None \<Rightarrow> None
      | Some (r, s) \<Rightarrow> map_option (\<lambda>(rs, s). (r # rs, s)) (calls_impl I cs s))"

locale link_store =
  fixes I :: "('s, 'k, 'v) link_impl" and rel :: "'s \<Rightarrow> ('k \<Rightarrow> 'v option) \<Rightarrow> bool"
  assumes search_law: "rel s m \<Longrightarrow> i_search I k s = Some (m k, s)"
    and insert_law: "rel s m \<Longrightarrow> \<exists>s'. i_insert I k v s = Some (m k = None, s') \<and> rel s' (if m k = None then m(k \<mapsto> v) else m)"
    and change_law: "rel s m \<Longrightarrow> \<exists>s'. i_update I k v s = Some (m k \<noteq> None, s') \<and> rel s' (if m k = None then m else m(k \<mapsto> v))"
begin

lemma call_refines: "rel s m \<Longrightarrow> \<exists>s'. call_impl I c s = Some (fst (call_spec c m), s') \<and> rel s' (snd (call_spec c m))"
  using search_law[of s m] insert_law[of s m] change_law[of s m] by (cases c) (fastforce split del: if_split)+

lemma calls_refine: "rel s m \<Longrightarrow> \<exists>s'. calls_impl I cs s = Some (fst (calls_spec cs m), s') \<and> rel s' (snd (calls_spec cs m))"
proof (induction cs arbitrary: s m)
  case (Cons c cs)
  obtain s1 where s1: "call_impl I c s = Some (fst (call_spec c m), s1)" "rel s1 (snd (call_spec c m))"
    using call_refines[OF Cons.prems] by blast
  from Cons.IH[OF s1(2)] s1(1) show ?case by (auto simp: Let_def split: prod.splits)
qed simp

end

end
