(* ===== verification/TreeMap.thy ===== *)
theory TreeMap
  imports TreeUpsert MapSpec
begin

text \<open>
  The tree as an implementation of the map interface: the laws of \<open>map_store\<close> hold for
  \<open>lookup\<close>, \<open>upsert\<close> and \<open>update\<close> of \<open>FBTree<K, V>\<close>, for all four integer key types.
\<close>

definition fbtree_impl :: "('k::{linorder,zero}, 'v) tenv \<Rightarrow> (('k, 'v) fbtree, 'k, 'v) map_impl" where
  "fbtree_impl E =
     \<lparr>m_room = (\<lambda>t. tree_depth t < kMaxHeight),
      m_lookup = (\<lambda>k t. map_option (map_option snd) (lookup E k t)),
      m_upsert = (\<lambda>k v t. map_option (\<lambda>(old, t). (map_option snd old, t)) (upsert E (k, v) t)),
      m_update = (\<lambda>k v t. map_option (\<lambda>(old, t). (map_option snd old, t)) (update E (k, v) t))\<rparr>"

definition tree_rel :: "('k::linorder, 'v) tenv \<Rightarrow> nat \<Rightarrow> ('k, 'v) fbtree \<Rightarrow> ('k \<Rightarrow> 'v option) \<Rightarrow> bool" where
  "tree_rel E F t m \<longleftrightarrow> (\<exists>ls nss. tree_ok E F t ls nss \<and> tree_map ls = m)"

lemma map_snd_Pair [simp]: "map_option snd (map_option (Pair k) x) = x"
  by (cases x) simp_all

sublocale tree_codec \<subseteq> fb: map_store "fbtree_impl E" "tree_rel E F"
proof unfold_locales
  fix t m k v
  assume "tree_rel E F t m"
  then obtain ls nss where ok: "tree_ok E F t ls nss" "tree_map ls = m" by (auto simp: tree_rel_def)
  show "m_lookup (fbtree_impl E) k t = Some (m k)"
    using lookup_spec[OF ok(1), of k] ok(2) by (simp add: fbtree_impl_def)
  show "\<exists>t'. m_update (fbtree_impl E) k v t = Some (m k, t') \<and> tree_rel E F t' (if m k = None then m else m(k \<mapsto> v))"
    using update_spec[OF ok(1), of k v] ok(2) by (fastforce simp: fbtree_impl_def tree_rel_def)
  assume "m_room (fbtree_impl E) t"
  then have "tree_depth t < kMaxHeight" by (simp add: fbtree_impl_def)
  from upsert_spec[OF ok(1) this, of k v] ok(2)
  show "\<exists>t'. m_upsert (fbtree_impl E) k v t = Some (m k, t') \<and> tree_rel E F t' (m(k \<mapsto> v))"
    by (fastforce simp: fbtree_impl_def tree_rel_def)
qed

lemma tree_new_rel: "tree_codec E F \<Longrightarrow> length junk = kMaxHeight \<Longrightarrow> tree_rel E F (tree_new E junk) Map.empty"
  using tree_codec.tree_new_ok by (fastforce simp: tree_rel_def)

context tree_codec begin

lemma run_from_new:
  assumes "length junk = kMaxHeight"
  shows "\<exists>rs t. impl_run (fbtree_impl E) ops (tree_new E junk) = Some (rs, t) \<and>
    rs = fst (spec_run (take (length rs) ops) Map.empty) \<and>
    (length rs = length ops \<or> (\<exists>k v. ops ! length rs = OpUpsert k v) \<and> kMaxHeight \<le> tree_depth t)"
proof -
  have room: "\<not> has_room (fbtree_impl E) op t \<longleftrightarrow> (\<exists>k v. op = OpUpsert k v) \<and> kMaxHeight \<le> tree_depth t" for op t
    by (cases op) (auto simp: fbtree_impl_def)
  show ?thesis using fb.run_refines[OF tree_new_rel[OF tree_codec_axioms assms], of ops] unfolding room by blast
qed

end

end
