(* ===== verification/Locks.thy ===== *)
theory Locks
  imports Protocol
begin

text \<open>
  The other locks of the repository. \<open>SpinLock\<close>, \<open>MutexLock\<close>, \<open>LockGuard\<close> and \<open>VerLock\<close> of
  \<open>src/util/lock.h\<close>, and \<open>OptLock\<close> of \<open>src/BTreeOLC/BTreeOLC.h\<close>. Each is a 64-bit word with
  atomic operations; an operation that waits, or that tells its caller to restart, is \<open>None\<close>.
  All three words obey the contract of a versioned lock, so mutual exclusion and, for those
  with a version, the validity of optimistic reads follow from the protocol.
\<close>

unbundle bit_operations_syntax

section \<open>SpinLock\<close>

definition spin_kLockBit :: u64 where "spin_kLockBit = 0x01"
definition spin_kInitCode :: u64 where "spin_kInitCode = 0x00"

text \<open>\<open>lock\<close>, at the round in which the exchange succeeds.\<close>

definition spin_lock :: "u64 \<Rightarrow> u64 option" where
  "spin_lock control =
     (let desired = control OR spin_kLockBit
      in if control AND spin_kLockBit = 0 then Some desired else None)"

definition spin_try_lock :: "u64 \<Rightarrow> bool \<times> u64" where
  "spin_try_lock control =
     (if control AND spin_kLockBit = spin_kLockBit then (False, control)
      else (True, control OR spin_kLockBit))"

definition spin_unlock :: "u64 \<Rightarrow> u64" where
  "spin_unlock control = control - spin_kLockBit"

text \<open>
  \<open>MutexLock\<close> hands its calls on to the lock it wraps. \<open>LockGuard\<close> locks in its constructor and
  unlocks in its destructor, around the rest of the block.
\<close>

record 'l lock_ops =
  lock_of :: "'l \<Rightarrow> 'l option"
  try_lock_of :: "'l \<Rightarrow> bool \<times> 'l"
  unlock_of :: "'l \<Rightarrow> 'l"

definition mutex_lock :: "'l lock_ops \<Rightarrow> 'l \<Rightarrow> 'l option" where "mutex_lock ops l = lock_of ops l"
definition mutex_try_lock :: "'l lock_ops \<Rightarrow> 'l \<Rightarrow> bool \<times> 'l" where "mutex_try_lock ops l = try_lock_of ops l"
definition mutex_unlock :: "'l lock_ops \<Rightarrow> 'l \<Rightarrow> 'l" where "mutex_unlock ops l = unlock_of ops l"

definition lock_guard :: "'l lock_ops \<Rightarrow> ('l \<times> 's \<Rightarrow> ('l \<times> 's) option) \<Rightarrow> 'l \<times> 's \<Rightarrow> ('l \<times> 's) option" where
  "lock_guard ops body = (\<lambda>(l, s).
     case lock_of ops l of
       None \<Rightarrow> None
     | Some l \<Rightarrow> (case body (l, s) of None \<Rightarrow> None | Some (l, s) \<Rightarrow> Some (unlock_of ops l, s)))"

definition spin_ops :: "u64 lock_ops" where
  "spin_ops = \<lparr>lock_of = spin_lock, try_lock_of = spin_try_lock, unlock_of = spin_unlock\<rparr>"

section \<open>VerLock\<close>

definition ver_kInitCode :: u64 where "ver_kInitCode = 0"
definition ver_kLockBit :: u64 where "ver_kLockBit = 0x10000"
definition ver_kVerAtom :: u64 where "ver_kVerAtom = ver_kLockBit * 2"
definition ver_kVerMask :: u64 where "ver_kVerMask = NOT (ver_kVerAtom - 1) AND (- 1)"
definition ver_kRestMask :: u64 where "ver_kRestMask = ver_kLockBit - 1"

definition ver_lock_exclusive :: "u64 \<Rightarrow> u64 option" where
  "ver_lock_exclusive code =
     (let desired = code OR ver_kLockBit
      in if code AND ver_kLockBit = 0 then Some desired else None)"

definition ver_update_version :: "u64 \<Rightarrow> u64" where
  "ver_update_version code = code + ver_kVerAtom"

definition ver_unlock_exclusive :: "bool \<Rightarrow> u64 \<Rightarrow> u64" where
  "ver_unlock_exclusive upd code = (if upd then code + ver_kLockBit else code - ver_kLockBit)"

definition ver_lock_shared :: "u64 \<Rightarrow> u64 option" where
  "ver_lock_shared code = (if code AND ver_kLockBit = 0 then Some (code AND ver_kVerMask) else None)"

definition ver_unlock_shared :: "u64 \<Rightarrow> u64 \<Rightarrow> bool option" where
  "ver_unlock_shared code version =
     (if code AND ver_kLockBit \<noteq> 0 then None
      else if code AND ver_kVerMask \<noteq> version then Some False
      else Some True)"

definition ver_version_changed :: "u64 \<Rightarrow> u64 \<Rightarrow> bool option" where
  "ver_version_changed code version = map_option Not (ver_unlock_shared code version)"

definition ver_locked :: "u64 \<Rightarrow> bool" where
  "ver_locked code = (code AND ver_kLockBit \<noteq> 0)"

section \<open>OptLock\<close>

definition opt_init :: u64 where "opt_init = 0b100"

definition isLocked :: "u64 \<Rightarrow> bool" where "isLocked version = (version AND 0b10 = 0b10)"
definition isObsolete :: "u64 \<Rightarrow> bool" where "isObsolete version = (version AND 1 = 1)"

definition readLockOrRestart :: "u64 \<Rightarrow> u64 option" where
  "readLockOrRestart w = (if isLocked w \<or> isObsolete w then None else Some w)"

definition upgradeToWriteLockOrRestart :: "u64 \<Rightarrow> u64 \<Rightarrow> u64 option" where
  "upgradeToWriteLockOrRestart version w = (if w = version then Some (version + 0b10) else None)"

definition writeLockOrRestart :: "u64 \<Rightarrow> u64 option" where
  "writeLockOrRestart w =
     (case readLockOrRestart w of None \<Rightarrow> None | Some version \<Rightarrow> upgradeToWriteLockOrRestart version w)"

definition writeUnlock :: "u64 \<Rightarrow> u64" where "writeUnlock w = w + 0b10"

definition readUnlockOrRestart :: "u64 \<Rightarrow> u64 \<Rightarrow> bool" where
  "readUnlockOrRestart startRead w = (startRead \<noteq> w)"

definition checkOrRestart :: "u64 \<Rightarrow> u64 \<Rightarrow> bool" where
  "checkOrRestart startRead w = readUnlockOrRestart startRead w"

definition writeUnlockObsolete :: "u64 \<Rightarrow> u64" where "writeUnlockObsolete w = w + 0b11"

section \<open>Arithmetic of a lock bit below a version\<close>

lemma bit_div: "n < 64 \<Longrightarrow> bit (w :: u64) n \<longleftrightarrow> odd (unat w div 2 ^ n)"
  using bit_unsigned_iff[of w n, where 'a = nat] by (simp add: bit_iff_odd)

lemma unat_plus64: "unat (a + b :: u64) = (unat a + unat b) mod 2 ^ 64"
  by (simp add: unat_word_ariths)

lemma unat_pow: "p < 64 \<Longrightarrow> unat (2 ^ p :: u64) = 2 ^ p"
proof -
  assume p: "p < 64"
  have "unat (of_nat (2 ^ p) :: u64) = take_bit 64 (2 ^ p)" by (simp only: unsigned_of_nat) simp
  moreover have "take_bit 64 (2 ^ p :: nat) = 2 ^ p"
    using p by (intro take_bit_nat_eq_self power_strict_increasing) simp_all
  ultimately show ?thesis by simp
qed

lemma div_mod64: "p < 64 \<Longrightarrow> (x mod 2 ^ 64) div 2 ^ p = x div 2 ^ p mod 2 ^ (64 - p)" for x :: nat
proof -
  assume "p < 64"
  then have e: "(2::nat) ^ 64 = 2 ^ p * 2 ^ (64 - p)" by (simp add: power_add[symmetric])
  show ?thesis unfolding e mod_mult2_eq by simp
qed

text \<open>Adding the lock bit to a held word releases it and advances the version.\<close>

lemma add_lock_bit:
  assumes p: "p < 63" and b: "bit w p"
  shows "\<not> bit (w + 2 ^ p :: u64) p" "unat (w + 2 ^ p) div 2 ^ Suc p = Suc (unat w div 2 ^ Suc p) mod 2 ^ (63 - p)"
    "n < p \<Longrightarrow> bit (w + 2 ^ p) n = bit w n"
proof -
  define a where "a = unat w div 2 ^ Suc p"
  have q: "unat w div 2 ^ p = Suc (2 * a)"
  proof -
    have "odd (unat w div 2 ^ p)" using b p by (simp add: bit_div)
    moreover have "unat w div 2 ^ p div 2 = a" by (simp add: a_def div_mult2_eq[symmetric] mult.commute)
    ultimately show ?thesis by (metis add.commute odd_two_times_div_two_succ plus_1_eq_Suc)
  qed
  have u: "unat (w + 2 ^ p) = (unat w + 2 ^ p) mod 2 ^ 64" using p by (simp only: unat_plus64 unat_pow)
  have d: "(unat w + 2 ^ p) div 2 ^ p = 2 * Suc a" using q div_add_self2[of "2 ^ p" "unat w"] by simp
  have "unat (w + 2 ^ p) div 2 ^ p = 2 * Suc a mod 2 ^ (64 - p)" using p div_mod64[of p "unat w + 2 ^ p"] by (simp only: u d)
  moreover have e: "(2::nat) ^ (64 - p) = 2 * 2 ^ (63 - p)" using p by (simp add: Suc_diff_Suc power_Suc[symmetric] del: power_Suc)
  ultimately have v: "unat (w + 2 ^ p) div 2 ^ p = 2 * (Suc a mod 2 ^ (63 - p))" by (simp only: mult_mod_right)
  show "\<not> bit (w + 2 ^ p) p" using p by (simp add: bit_div v)
  have "unat (w + 2 ^ p) div 2 ^ Suc p = unat (w + 2 ^ p) div 2 ^ p div 2" by (simp add: div_mult2_eq[symmetric] mult.commute)
  then show "unat (w + 2 ^ p) div 2 ^ Suc p = Suc (unat w div 2 ^ Suc p) mod 2 ^ (63 - p)" by (simp add: v a_def)
  assume n: "n < p"
  have "unat (w + 2 ^ p) mod 2 ^ p = unat w mod 2 ^ p"
    unfolding u using p by (subst mod_mod_cancel) (rule le_imp_power_dvd, simp, simp)
  then have "take_bit p (unat (w + 2 ^ p)) = take_bit p (unat w)" by (simp add: take_bit_eq_mod)
  then have "bit (take_bit p (unat (w + 2 ^ p))) n = bit (take_bit p (unat w)) n" by simp
  then show "bit (w + 2 ^ p) n = bit w n" using n p by (simp add: bit_take_bit_iff bit_unsigned_iff)
qed

text \<open>Adding twice the lock bit advances the version only.\<close>

lemma add_version:
  assumes p: "p < 63"
  shows "bit (w + 2 ^ Suc p :: u64) p = bit w p" "unat (w + 2 ^ Suc p) div 2 ^ Suc p = Suc (unat w div 2 ^ Suc p) mod 2 ^ (63 - p)"
proof -
  have u: "unat (w + 2 ^ Suc p) = (unat w + 2 ^ Suc p) mod 2 ^ 64"
    using p unat_pow[of "Suc p"] by (simp only: unat_plus64)
  show "unat (w + 2 ^ Suc p) div 2 ^ Suc p = Suc (unat w div 2 ^ Suc p) mod 2 ^ (63 - p)"
    unfolding u using p div_add_self2[of "2 ^ Suc p" "unat w"] by (subst div_mod64) (simp_all del: power_Suc)
  have "unat (w + 2 ^ Suc p) mod 2 ^ Suc p = unat w mod 2 ^ Suc p"
    unfolding u using p by (subst mod_mod_cancel) (rule le_imp_power_dvd, simp, simp del: power_Suc)
  then have "take_bit (Suc p) (unat (w + 2 ^ Suc p)) = take_bit (Suc p) (unat w)" by (simp only: take_bit_eq_mod)
  then have "bit (take_bit (Suc p) (unat (w + 2 ^ Suc p))) p = bit (take_bit (Suc p) (unat w)) p" by simp
  then show "bit (w + 2 ^ Suc p) p = bit w p" using p by (simp add: bit_take_bit_iff bit_unsigned_iff)
qed

lemma div_cong: "(\<And>n. k \<le> n \<Longrightarrow> bit (a :: u64) n = bit (b :: u64) n) \<Longrightarrow> unat a div 2 ^ k = unat b div 2 ^ k"
proof -
  assume "\<And>n. k \<le> n \<Longrightarrow> bit a n = bit b n"
  then have "drop_bit k a = drop_bit k b" by (intro bit_word_eqI) (simp add: bit_drop_bit_eq)
  then have "unat (drop_bit k a) = unat (drop_bit k b)" by simp
  then have "drop_bit k (unat a) = drop_bit k (unat b)" unfolding unat_drop_bit_eq .
  then show ?thesis by (simp add: drop_bit_eq_div)
qed

lemma lock_bit_or: "bit (w OR 2 ^ p :: u64) n \<longleftrightarrow> bit w n \<or> n = p \<and> p < 64"
  using bit_or_single[of w p n] by (simp add: push_bit_eq_mult)

lemma lock_bit_and: "w AND 2 ^ p \<noteq> 0 \<longleftrightarrow> bit (w :: u64) p"
  using and_single_bit[of w p] by (simp add: push_bit_eq_mult)

lemma lock_bit_sub: "bit w p \<Longrightarrow> bit (w - 2 ^ p :: u64) n \<longleftrightarrow> bit w n \<and> n \<noteq> p"
  using sub_set_bit[of w p] bit_and_not_single[of w p n] by (simp add: push_bit_eq_mult)

section \<open>The locks as versioned locks\<close>

subsection \<open>SpinLock\<close>

text \<open>It has no version: no read section begins, and the count of versions is constant.\<close>

definition spin_vlock :: "(u64, unit) vlock" where
  "spin_vlock =
     \<lparr>vbegin = (\<lambda>_. None), vend = (\<lambda>_ _. None), vlatch = spin_lock, vbump = (\<lambda>_. []),
      vrelease = (\<lambda>w. [(spin_unlock w, False)]), vother = (\<lambda>_. [])\<rparr>"

lemma spin_bit: "w AND spin_kLockBit = 0 \<longleftrightarrow> \<not> bit w 0"
  using lock_bit_and[of w 0] by (auto simp: spin_kLockBit_def)

interpretation spin: versioned_lock spin_vlock "\<lambda>w. \<not> bit w 0" "\<lambda>_. 0" 1
proof (unfold_locales, goal_cases)
  case (3 w w')
  then show ?case
    using lock_bit_or[of w 0 0] spin_bit[of w]
    by (auto simp: spin_vlock_def spin_lock_def Let_def spin_kLockBit_def split: if_splits)
next
  case (5 w w' u)
  then show ?case
    using lock_bit_sub[of w 0 0] by (auto simp: spin_vlock_def spin_unlock_def spin_kLockBit_def)
qed (simp_all add: spin_vlock_def)

subsection \<open>VerLock\<close>

definition ver_count :: "u64 \<Rightarrow> nat" where "ver_count w = unat w div 2 ^ 17"

definition ver_vlock :: "(u64, u64) vlock" where
  "ver_vlock =
     \<lparr>vbegin = ver_lock_shared, vend = ver_unlock_shared, vlatch = ver_lock_exclusive,
      vbump = (\<lambda>w. [ver_update_version w]),
      vrelease = (\<lambda>w. [(ver_unlock_exclusive True w, True), (ver_unlock_exclusive False w, False)]),
      vother = (\<lambda>_. [])\<rparr>"

lemma ver_bit: "w AND ver_kLockBit = 0 \<longleftrightarrow> \<not> bit w 16"
  using lock_bit_and[of w 16] by (auto simp: ver_kLockBit_def)

lemma ver_mask_bit: "bit (w AND ver_kVerMask) n \<longleftrightarrow> bit w n \<and> 17 \<le> n"
proof -
  have m: "ver_kVerMask = NOT (mask 17)" by (simp add: ver_kVerMask_def ver_kVerAtom_def ver_kLockBit_def mask_eq_exp_minus_1)
  have "bit ver_kVerMask n \<longleftrightarrow> n < 64 \<and> 17 \<le> n" unfolding m by (auto simp: bit_simps)
  then show ?thesis using bit_imp_le_length[of w n] by (auto simp: bit_simps)
qed

lemma ver_count_cong: "w AND ver_kVerMask = w' AND ver_kVerMask \<Longrightarrow> ver_count w = ver_count w'"
  unfolding ver_count_def by (rule div_cong) (metis ver_mask_bit)

interpretation ver: versioned_lock ver_vlock "\<lambda>w. \<not> bit w 16" ver_count "2 ^ 47"
proof (unfold_locales, goal_cases)
  case (1 w v)
  then show ?case by (auto simp: ver_vlock_def ver_lock_shared_def ver_bit split: if_splits)
next
  case (2 w v w')
  then show ?case
    by (auto simp: ver_vlock_def ver_lock_shared_def ver_unlock_shared_def ver_bit split: if_splits intro: ver_count_cong)
next
  case (3 w w')
  then have w: "\<not> bit w 16" "w' = w OR 2 ^ 16"
    using ver_bit[of w] by (auto simp: ver_vlock_def ver_lock_exclusive_def Let_def ver_kLockBit_def split: if_splits)
  moreover have "ver_count w' = ver_count w"
    unfolding ver_count_def by (rule div_cong) (simp add: w(2) lock_bit_or del: power_numeral)
  ultimately show ?case using lock_bit_or[of w 16 16] by simp
next
  case (4 w w')
  then have "w' = w + 2 ^ Suc 16"
    by (simp add: ver_vlock_def ver_update_version_def ver_kVerAtom_def ver_kLockBit_def)
  then show ?case using add_version[of 16 w] 4(1) by (simp add: ver_count_def)
next
  case (5 w w' u)
  then consider "u" "w' = w + 2 ^ 16" | "\<not> u" "w' = w - 2 ^ 16"
    by (auto simp: ver_vlock_def ver_unlock_exclusive_def ver_kLockBit_def)
  then show ?case
  proof cases
    case 1
    then show ?thesis using add_lock_bit(1,2)[of 16 w] 5(1) by (simp add: ver_count_def)
  next
    case 2
    have b: "bit w' n \<longleftrightarrow> bit w n \<and> n \<noteq> 16" for n using lock_bit_sub[of w 16 n] 5(1) 2 by simp
    then have "ver_count w' = ver_count w" unfolding ver_count_def by (intro div_cong) simp
    moreover have "ver_count w < 2 ^ 47"
    proof -
      have "unat w < 2 ^ LENGTH(64)" by (rule unsigned_less)
      then show ?thesis by (simp add: ver_count_def div_less_iff_less_mult)
    qed
    ultimately show ?thesis using 2 b[of 16] by simp
  qed
qed (simp_all add: ver_vlock_def)

subsection \<open>OptLock\<close>

text \<open>A node is marked obsolete only by a thread that holds it and that found it in use.\<close>

definition opt_count :: "u64 \<Rightarrow> nat" where "opt_count w = unat w div 2 ^ 2"

definition opt_vlock :: "(u64, u64) vlock" where
  "opt_vlock =
     \<lparr>vbegin = readLockOrRestart, vend = (\<lambda>w v. Some (\<not> readUnlockOrRestart v w)),
      vlatch = writeLockOrRestart, vbump = (\<lambda>_. []),
      vrelease = (\<lambda>w. (writeUnlock w, True) # (if isObsolete w then [] else [(writeUnlockObsolete w, True)])),
      vother = (\<lambda>_. [])\<rparr>"

lemma opt_bits: "isLocked w \<longleftrightarrow> bit w 1" "isObsolete w \<longleftrightarrow> bit w 0"
proof -
  have "(w AND 2 ^ p = 2 ^ p) \<longleftrightarrow> bit (w :: u64) p" if "p < 64" for p
  proof
    assume "w AND 2 ^ p = 2 ^ p"
    then have "w AND 2 ^ p \<noteq> 0" using that by (metis unat_pow unsigned_0 power_not_zero zero_neq_numeral)
    then show "bit w p" by (simp only: lock_bit_and)
  next
    assume "bit w p"
    then show "w AND 2 ^ p = 2 ^ p" using that by (intro bit_word_eqI) (auto simp: bit_simps)
  qed
  from this[of 1] this[of 0] show "isLocked w \<longleftrightarrow> bit w 1" "isObsolete w \<longleftrightarrow> bit w 0"
    by (simp_all add: isLocked_def isObsolete_def)
qed

interpretation opt: versioned_lock opt_vlock "\<lambda>w. \<not> bit w 1" opt_count "2 ^ 62"
proof (unfold_locales, goal_cases)
  case (1 w v)
  then show ?case by (auto simp: opt_vlock_def readLockOrRestart_def opt_bits split: if_splits)
next
  case (2 w v w')
  then show ?case
    by (auto simp: opt_vlock_def readLockOrRestart_def readUnlockOrRestart_def opt_bits split: if_splits)
next
  case (3 w w')
  then have w: "\<not> bit w 1" "w' = w + push_bit 1 1"
    by (auto simp: opt_vlock_def writeLockOrRestart_def readLockOrRestart_def upgradeToWriteLockOrRestart_def opt_bits
        split: if_splits)
  then have b: "bit w' n \<longleftrightarrow> bit w n \<or> n = 1" for n
    using add_clear_bit[of w 1] bit_or_single[of w 1 n] by simp
  then have "opt_count w' = opt_count w" unfolding opt_count_def by (intro div_cong) auto
  then show ?case using w b[of 1] by simp
next
  case (5 w w' u)
  have l: "\<not> bit (w + 2) 1" "opt_count (w + 2) = Suc (opt_count w) mod 2 ^ 62" "bit (w + 2) 0 = bit w 0"
    using add_lock_bit[of 1 w] 5(1) by (simp_all add: opt_count_def numeral_2_eq_2)
  consider "u" "w' = w + 2" | "u" "\<not> bit w 0" "w' = w + 3"
    using 5(2) by (auto simp: opt_vlock_def writeUnlock_def writeUnlockObsolete_def opt_bits split: if_splits)
  then show ?case
  proof cases
    case 1
    then show ?thesis using l by simp
  next
    case 2
    have "w' = (w + 2) + push_bit 0 1" using 2 by simp
    then have b: "bit w' n \<longleftrightarrow> bit (w + 2) n \<or> n = 0" for n
      using 2 l(3) add_clear_bit[of "w + 2" 0] bit_or_single[of "w + 2" 0 n] by (simp add: add.commute)
    then have "opt_count w' = opt_count (w + 2)" unfolding opt_count_def by (intro div_cong) auto
    then show ?thesis using 2 l b[of 1] by simp
  qed
qed (simp_all add: opt_vlock_def)

end
