(* ===== verification/OlcNode.thy ===== *)
theory OlcNode
  imports Locks
begin

text \<open>
  The nodes of the B+-tree with optimistic lock coupling (\<open>BTreeLeaf\<close> and \<open>BTreeInner\<close> of
  \<open>src/BTreeOLC/BTreeOLC.h\<close>). A node has a fixed array of keys of which the first \<open>count\<close> are in
  use, in ascending order. Both binary searches compute the rank of a key; an insertion inserts
  into the lists, a split cuts them.

  The capacity \<open>maxEntries\<close> is the length of the arrays. What a new node has in its arrays is an
  argument (\<open>raw\<close>).
\<close>

section \<open>State and operations\<close>

definition pageSize :: nat where "pageSize = 4 * 1024"

definition sizeof_NodeBase :: nat where "sizeof_NodeBase = 16"

definition maxEntries :: "nat \<Rightarrow> nat \<Rightarrow> nat" where
  "maxEntries key_size payload_size = (pageSize - sizeof_NodeBase) div (key_size + payload_size)"

record ('k, 'v) oleaf =
  ol_lock :: u64
  ol_count :: nat
  ol_keys :: "'k list"
  ol_payloads :: "'v list"

record 'k oinner =
  oi_lock :: u64
  oi_count :: nat
  oi_children :: "ptr list"
  oi_keys :: "'k list"

definition oleaf_new :: "('k, 'v) oleaf \<Rightarrow> ('k, 'v) oleaf" where
  "oleaf_new raw = raw\<lparr>ol_lock := opt_init, ol_count := 0\<rparr>"

definition oinner_new :: "'k oinner \<Rightarrow> 'k oinner" where
  "oinner_new raw = raw\<lparr>oi_lock := opt_init, oi_count := 0\<rparr>"

definition oleaf_isFull :: "('k, 'v) oleaf \<Rightarrow> bool" where
  "oleaf_isFull l \<longleftrightarrow> ol_count l = length (ol_keys l)"

definition oinner_isFull :: "'k oinner \<Rightarrow> bool" where
  "oinner_isFull n \<longleftrightarrow> oi_count n = length (oi_keys n) - 1"

text \<open>The loop of \<open>lowerBound\<close>, whose body is run before its condition is tested.\<close>

function lowerBound_loop :: "'k::linorder list \<Rightarrow> 'k \<Rightarrow> nat \<Rightarrow> nat \<Rightarrow> nat" where
  "lowerBound_loop keys k lower upper =
     (let mid = (upper - lower) div 2 + lower in
      if k < keys ! mid
      then if lower < mid then lowerBound_loop keys k lower mid else lower
      else if k > keys ! mid
      then if mid + 1 < upper then lowerBound_loop keys k (mid + 1) upper else mid + 1
      else mid)"
  by pat_completeness auto
termination by (relation "measure (\<lambda>(keys, k, lower, upper). upper - lower)") (auto simp: Let_def)

definition lowerBound :: "'k::linorder list \<Rightarrow> nat \<Rightarrow> 'k \<Rightarrow> nat" where
  "lowerBound keys count k = lowerBound_loop keys k 0 count"

text \<open>The branch-free search; \<open>base\<close> is the offset of the pointer into the keys.\<close>

function lowerBoundBF_loop :: "'k::linorder list \<Rightarrow> 'k \<Rightarrow> nat \<Rightarrow> nat \<Rightarrow> nat" where
  "lowerBoundBF_loop keys k base n =
     (if n > 1
      then let half = n div 2;
               base = (if keys ! (base + half) < k then base + half else base)
           in lowerBoundBF_loop keys k base (n - half)
      else base)"
  by pat_completeness auto
termination by (relation "measure (\<lambda>(keys, k, base, n). n)") auto

definition lowerBoundBF :: "'k::linorder list \<Rightarrow> nat \<Rightarrow> 'k \<Rightarrow> nat" where
  "lowerBoundBF keys count k =
     (let base = lowerBoundBF_loop keys k 0 count in (if keys ! base < k then 1 else 0) + base)"

definition oleaf_insert :: "'k::linorder \<Rightarrow> 'v \<Rightarrow> ('k, 'v) oleaf \<Rightarrow> ('k, 'v) oleaf" where
  "oleaf_insert k p l =
     (if ol_count l \<noteq> 0
      then let pos = lowerBound (ol_keys l) (ol_count l) k
           in if pos < ol_count l \<and> ol_keys l ! pos = k
              then l\<lparr>ol_payloads := (ol_payloads l)[pos := p]\<rparr>
              else l\<lparr>ol_keys := (memmove_in (pos + 1) pos (ol_count l - pos) (ol_keys l))[pos := k],
                     ol_payloads := (memmove_in (pos + 1) pos (ol_count l - pos) (ol_payloads l))[pos := p],
                     ol_count := ol_count l + 1\<rparr>
      else l\<lparr>ol_keys := (ol_keys l)[0 := k], ol_payloads := (ol_payloads l)[0 := p], ol_count := ol_count l + 1\<rparr>)"

text \<open>\<open>split\<close>: the new right node, the separator, and this node.\<close>

definition oleaf_split :: "('k, 'v) oleaf \<Rightarrow> ('k, 'v) oleaf \<Rightarrow> ('k, 'v) oleaf \<times> 'k \<times> ('k, 'v) oleaf" where
  "oleaf_split raw l =
     (let r = oleaf_new raw;
          r = r\<lparr>ol_count := ol_count l - ol_count l div 2\<rparr>;
          l = l\<lparr>ol_count := ol_count l - ol_count r\<rparr>;
          r = r\<lparr>ol_keys := memcpy_at 0 (ol_count l) (ol_count r) (ol_keys l) (ol_keys r),
                ol_payloads := memcpy_at 0 (ol_count l) (ol_count r) (ol_payloads l) (ol_payloads r)\<rparr>
      in (r, ol_keys l ! (ol_count l - 1), l))"

definition oinner_split :: "'k oinner \<Rightarrow> 'k oinner \<Rightarrow> 'k oinner \<times> 'k \<times> 'k oinner" where
  "oinner_split raw n =
     (let r = oinner_new raw;
          r = r\<lparr>oi_count := oi_count n - oi_count n div 2\<rparr>;
          n = n\<lparr>oi_count := oi_count n - oi_count r - 1\<rparr>;
          sep = oi_keys n ! oi_count n;
          r = r\<lparr>oi_keys := memcpy_at 0 (oi_count n + 1) (oi_count r + 1) (oi_keys n) (oi_keys r),
                oi_children := memcpy_at 0 (oi_count n + 1) (oi_count r + 1) (oi_children n) (oi_children r)\<rparr>
      in (r, sep, n))"

definition oinner_insert :: "'k::linorder \<Rightarrow> ptr \<Rightarrow> 'k oinner \<Rightarrow> 'k oinner" where
  "oinner_insert k child n =
     (let pos = lowerBound (oi_keys n) (oi_count n) k;
          keys = (memmove_in (pos + 1) pos (oi_count n - pos + 1) (oi_keys n))[pos := k];
          children = (memmove_in (pos + 1) pos (oi_count n - pos + 1) (oi_children n))[pos := child];
          children = children[pos := children ! (pos + 1), pos + 1 := children ! pos]
      in n\<lparr>oi_keys := keys, oi_children := children, oi_count := oi_count n + 1\<rparr>)"

section \<open>Binary search\<close>

declare lowerBound_loop.simps [simp del]
declare lowerBoundBF_loop.simps [simp del]

text \<open>Both loops narrow an interval that contains the rank.\<close>

lemma lowerBound_loop_rank:
  assumes s: "sorted_wrt (<) (take n keys)" and "n \<le> length keys"
    and "lower < upper" "upper \<le> n" "lower \<le> rank k (take n keys)" "rank k (take n keys) \<le> upper"
  shows "lowerBound_loop keys k lower upper = rank k (take n keys)"
  using assms(3-6)
proof (induction "upper - lower" arbitrary: lower upper rule: less_induct)
  case less
  let ?m = "(upper - lower) div 2 + lower" and ?r = "rank k (take n keys)"
  have m: "lower \<le> ?m" "?m < upper" "?m < n" using less.prems by linarith+
  have nth: "take n keys ! ?m = keys ! ?m" using m by simp
  have len: "length (take n keys) = n" using assms(2) by simp
  consider "k < keys ! ?m" | "keys ! ?m < k" | "keys ! ?m = k" by (metis linorder_neqE)
  then show ?case
  proof cases
    case 1
    have le: "?r \<le> ?m" using less_rank_iff[OF s, of ?m k] nth 1 m assms(2) by (simp add: not_less[symmetric])
    show ?thesis
    proof (cases "lower < ?m")
      case True
      have "lowerBound_loop keys k lower ?m = ?r" by (rule less.hyps) (use less.prems m le True in linarith)+
      then show ?thesis using 1 True by (simp add: lowerBound_loop.simps[of _ _ lower upper] Let_def)
    next
      case False
      then have "?r = lower" using le less.prems(3) by linarith
      then show ?thesis using 1 False by (simp add: lowerBound_loop.simps[of _ _ lower upper] Let_def)
    qed
  next
    case 2
    have nl: "\<not> k < keys ! ?m" using 2 by (rule less_not_sym)
    have ge: "?m < ?r" using less_rank_iff[OF s, of ?m k] nth 2 m len by simp
    show ?thesis
    proof (cases "?m + 1 < upper")
      case True
      have "lowerBound_loop keys k (?m + 1) upper = ?r" by (rule less.hyps) (use less.prems m ge True in linarith)+
      then show ?thesis using 2 nl True by (simp add: lowerBound_loop.simps[of _ _ lower upper] Let_def)
    next
      case False
      then have "?r = ?m + 1" using ge less.prems(4) m by linarith
      then show ?thesis using 2 nl False by (simp add: lowerBound_loop.simps[of _ _ lower upper] Let_def)
    qed
  next
    case 3
    have "?r = ?m"
    proof (rule rank_unique)
      show "?m \<le> length (take n keys)" using m len by simp
      fix i assume "i < ?m"
      then show "take n keys ! i < k" using sorted_wrt_nth_less[OF s, of i ?m] m len 3 nth by simp
    next
      fix i assume i: "?m \<le> i" "i < length (take n keys)"
      then show "k \<le> take n keys ! i"
        using sorted_wrt_nth_less[OF s, of ?m i] nth 3 by (cases "i = ?m") auto
    qed
    then show ?thesis using 3 by (simp add: lowerBound_loop.simps[of _ _ lower upper] Let_def)
  qed
qed

lemma lowerBound_rank:
  assumes "sorted_wrt (<) (take n keys)" "0 < n" "n \<le> length keys"
  shows "lowerBound keys n k = rank k (take n keys)"
  unfolding lowerBound_def using rank_le[of k "take n keys"] assms
  by (intro lowerBound_loop_rank) simp_all

lemma lowerBoundBF_loop_rank:
  assumes s: "sorted_wrt (<) (take c keys)" and "c \<le> length keys"
    and "0 < n" "base + n \<le> c" "base \<le> rank k (take c keys)" "rank k (take c keys) \<le> base + n"
  shows "lowerBoundBF_loop keys k base n \<le> rank k (take c keys) \<and>
    rank k (take c keys) \<le> lowerBoundBF_loop keys k base n + 1 \<and> lowerBoundBF_loop keys k base n < c"
  using assms(3-6)
proof (induction n arbitrary: base rule: less_induct)
  case (less n)
  let ?r = "rank k (take c keys)"
  show ?case
  proof (cases "n > 1")
    case False
    then have "lowerBoundBF_loop keys k base n = base" by (simp add: lowerBoundBF_loop.simps[of _ _ base n])
    then show ?thesis using False less.prems by linarith
  next
    case True
    define h where "h = n div 2"
    have h: "0 < h" "h < n" "h \<le> n - h" using True by (auto simp: h_def)
    have nth: "take c keys ! (base + h) = keys ! (base + h)" using h less.prems by simp
    have len: "length (take c keys) = c" using assms(2) by simp
    define b where "b = (if keys ! (base + h) < k then base + h else base)"
    have eq: "lowerBoundBF_loop keys k base n = lowerBoundBF_loop keys k b (n - h)"
      using True by (subst lowerBoundBF_loop.simps) (simp add: h_def b_def Let_def)
    have "b \<le> ?r \<and> ?r \<le> b + (n - h) \<and> b + (n - h) \<le> c"
    proof (cases "keys ! (base + h) < k")
      case True
      then have "base + h < ?r" using less_rank_iff[OF s, of "base + h" k] nth h less.prems len by simp
      then show ?thesis using True less.prems h by (simp add: b_def)
    next
      case F: False
      then have "?r \<le> base + h" using less_rank_iff[OF s, of "base + h" k] nth h less.prems assms(2) by (simp add: not_less[symmetric])
      moreover have "b = base" using F by (simp add: b_def)
      ultimately show ?thesis using less.prems h by (intro conjI) linarith+
    qed
    then show ?thesis unfolding eq using h by (intro less.IH) auto
  qed
qed

lemma lowerBoundBF_rank:
  assumes s: "sorted_wrt (<) (take n keys)" and "0 < n" "n \<le> length keys"
  shows "lowerBoundBF keys n k = rank k (take n keys)"
proof -
  define b where "b = lowerBoundBF_loop keys k 0 n"
  have b: "b \<le> rank k (take n keys)" "rank k (take n keys) \<le> b + 1" "b < n"
    using lowerBoundBF_loop_rank[of n keys n 0 k] assms rank_le[of k "take n keys"] by (simp_all add: b_def)
  have "rank k (take n keys) = (if keys ! b < k then b + 1 else b)"
    using less_rank_iff[OF s, of b k] b assms(3) by auto
  then show ?thesis by (simp add: lowerBoundBF_def b_def[symmetric])
qed

section \<open>Leaves\<close>

definition oleaf_inv :: "('k::linorder, 'v) oleaf \<Rightarrow> bool" where
  "oleaf_inv l \<longleftrightarrow> length (ol_payloads l) = length (ol_keys l) \<and> ol_count l \<le> length (ol_keys l) \<and>
     2 \<le> length (ol_keys l) \<and> sorted_wrt (<) (take (ol_count l) (ol_keys l))"

definition oleaf_keys :: "('k, 'v) oleaf \<Rightarrow> 'k list" where
  "oleaf_keys l = take (ol_count l) (ol_keys l)"

definition oleaf_vals :: "('k, 'v) oleaf \<Rightarrow> 'v list" where
  "oleaf_vals l = take (ol_count l) (ol_payloads l)"

definition oleaf_map :: "('k, 'v) oleaf \<Rightarrow> 'k \<Rightarrow> 'v option" where
  "oleaf_map l = map_of (zip (oleaf_keys l) (oleaf_vals l))"

lemma oleaf_lens:
  "oleaf_inv l \<Longrightarrow> length (oleaf_keys l) = ol_count l" "oleaf_inv l \<Longrightarrow> length (oleaf_vals l) = ol_count l"
  "oleaf_inv l \<Longrightarrow> sorted_wrt (<) (oleaf_keys l)" "oleaf_inv l \<Longrightarrow> distinct (oleaf_keys l)"
  by (auto simp: oleaf_inv_def oleaf_keys_def oleaf_vals_def strict_sorted_iff)

lemma map_of_zip_nth:
  "length xs = length ys \<Longrightarrow> distinct xs \<Longrightarrow> map_of (zip xs ys) k = Some v \<longleftrightarrow> (\<exists>i<length xs. xs ! i = k \<and> ys ! i = v)"
  by (auto simp: map_of_zip_is_Some set_zip in_set_conv_nth map_of_eq_Some_iff)

lemma map_some_eqI: "(\<And>x v. m x = Some v \<longleftrightarrow> n x = Some v) \<Longrightarrow> m = n"
  by (rule ext) (metis not_Some_eq)

lemma take_memmove_insert:
  assumes "pos \<le> c" "c < length xs"
  shows "take (Suc c) ((memmove_in (pos + 1) pos (c - pos) xs)[pos := x]) = insert_at pos x (take c xs)"
  using assms by (intro nth_equalityI) (auto simp: nth_insert_at nth_list_update)

lemma oleaf_find:
  assumes inv: "oleaf_inv l" and c: "0 < ol_count l" and pos: "pos = lowerBound (ol_keys l) (ol_count l) k"
  shows "pos = rank k (oleaf_keys l)" "pos < ol_count l \<and> ol_keys l ! pos = k \<longleftrightarrow> k \<in> set (oleaf_keys l)"
    "pos < ol_count l \<Longrightarrow> ol_keys l ! pos = k \<Longrightarrow> oleaf_map l k = Some (ol_payloads l ! pos)"
proof -
  note L = oleaf_lens[OF inv]
  have s: "sorted_wrt (<) (take (ol_count l) (ol_keys l))" "ol_count l \<le> length (ol_keys l)"
    using inv by (simp_all add: oleaf_inv_def)
  show p: "pos = rank k (oleaf_keys l)" unfolding pos oleaf_keys_def by (rule lowerBound_rank[OF s(1) c s(2)])
  have nth: "oleaf_keys l ! i = ol_keys l ! i" "oleaf_vals l ! i = ol_payloads l ! i" if "i < ol_count l" for i
    using that by (simp_all add: oleaf_keys_def oleaf_vals_def)
  show "pos < ol_count l \<and> ol_keys l ! pos = k \<longleftrightarrow> k \<in> set (oleaf_keys l)"
  proof
    assume "pos < ol_count l \<and> ol_keys l ! pos = k"
    then show "k \<in> set (oleaf_keys l)" using nth(1)[of pos] L(1) nth_mem[of pos "oleaf_keys l"] by simp
  next
    assume "k \<in> set (oleaf_keys l)"
    then obtain i where i: "i < ol_count l" "oleaf_keys l ! i = k" using L(1) by (auto simp: in_set_conv_nth)
    have "\<not> i < pos" using less_rank_iff[OF L(3), of i k] i L(1) p by simp
    moreover have "\<not> pos < i"
    proof
      assume "pos < i"
      then have "oleaf_keys l ! pos < k" using sorted_wrt_nth_less[OF L(3), of pos i] i L(1) by simp
      then show False using less_rank_iff[OF L(3), of pos k] \<open>pos < i\<close> i(1) L(1) p by simp
    qed
    ultimately show "pos < ol_count l \<and> ol_keys l ! pos = k" using i nth(1)[of i] by (metis linorder_neqE_nat)
  qed
  assume "pos < ol_count l" "ol_keys l ! pos = k"
  then show "oleaf_map l k = Some (ol_payloads l ! pos)"
    unfolding oleaf_map_def using map_of_zip_nth[of "oleaf_keys l" "oleaf_vals l" k] L nth[of pos] by auto
qed

lemma oleaf_insert_spec:
  assumes inv: "oleaf_inv l" and room: "\<not> oleaf_isFull l"
  shows "oleaf_inv (oleaf_insert k p l)" "oleaf_map (oleaf_insert k p l) = (oleaf_map l)(k \<mapsto> p)"
    "set (oleaf_keys (oleaf_insert k p l)) = insert k (set (oleaf_keys l))"
    "ol_lock (oleaf_insert k p l) = ol_lock l" "length (ol_keys (oleaf_insert k p l)) = length (ol_keys l)"
proof -
  note L = oleaf_lens[OF inv]
  have c: "ol_count l < length (ol_keys l)" "length (ol_payloads l) = length (ol_keys l)"
    using inv room by (auto simp: oleaf_inv_def oleaf_isFull_def)
  define pos where "pos = rank k (oleaf_keys l)"
  have pl: "pos \<le> ol_count l" using rank_le[of k "oleaf_keys l"] L(1) by (simp add: pos_def)
  define l' where "l' = oleaf_insert k p l"
  show "ol_lock (oleaf_insert k p l) = ol_lock l" "length (ol_keys (oleaf_insert k p l)) = length (ol_keys l)"
    by (simp_all add: oleaf_insert_def Let_def)
  have "oleaf_inv l' \<and> oleaf_map l' = (oleaf_map l)(k \<mapsto> p) \<and> set (oleaf_keys l') = insert k (set (oleaf_keys l))"
  proof (cases "k \<in> set (oleaf_keys l)")
    case True
    then have c0: "0 < ol_count l" using L(1) by (cases "oleaf_keys l") auto
    note f = oleaf_find[OF inv c0 refl, of k]
    have f': "pos < ol_count l" "ol_keys l ! pos = k" using f True by (auto simp: pos_def)
    have eq: "l' = l\<lparr>ol_payloads := (ol_payloads l)[pos := p]\<rparr>"
      unfolding l'_def oleaf_insert_def using c0 f' f(1) by (simp add: pos_def[symmetric])
    have ks: "oleaf_keys l' = oleaf_keys l" and vs: "oleaf_vals l' = (oleaf_vals l)[pos := p]"
      using f' by (simp_all add: eq oleaf_keys_def oleaf_vals_def take_update_swap)
    have "oleaf_map l' x = Some v \<longleftrightarrow> ((oleaf_map l)(k \<mapsto> p)) x = Some v" for x v
      unfolding oleaf_map_def ks vs
      using map_of_zip_nth[of "oleaf_keys l" "(oleaf_vals l)[pos := p]" x v] map_of_zip_nth[of "oleaf_keys l" "oleaf_vals l" x v]
        L f' nth_eq_iff_index_eq[OF L(4)] by (auto simp: nth_list_update oleaf_keys_def)
    then have "oleaf_map l' = (oleaf_map l)(k \<mapsto> p)" by (intro map_some_eqI) blast
    moreover have "oleaf_inv l'" using inv by (simp add: eq oleaf_inv_def)
    ultimately show ?thesis using ks True by auto
  next
    case False
    have eq: "oleaf_keys l' = insert_at pos k (oleaf_keys l)" "oleaf_vals l' = insert_at pos p (oleaf_vals l)"
      "ol_count l' = Suc (ol_count l)" "length (ol_payloads l') = length (ol_keys l')" "length (ol_keys l') = length (ol_keys l)"
    proof -
      have *: "oleaf_keys l' = insert_at pos k (oleaf_keys l) \<and> oleaf_vals l' = insert_at pos p (oleaf_vals l) \<and>
        ol_count l' = Suc (ol_count l) \<and> length (ol_payloads l') = length (ol_keys l') \<and> length (ol_keys l') = length (ol_keys l)"
      proof (cases "ol_count l = 0")
        case True
        then have "pos = 0" using pl by simp
        then show ?thesis
          using True c by (cases "ol_keys l"; cases "ol_payloads l")
            (auto simp: l'_def oleaf_insert_def oleaf_keys_def oleaf_vals_def insert_at_def)
      next
        case F: False
        note f = oleaf_find[OF inv _ refl, of k]
        have "lowerBound (ol_keys l) (ol_count l) k = pos" "\<not> (pos < ol_count l \<and> ol_keys l ! pos = k)"
          using f(1,2) F False by (auto simp: pos_def)
        then have "l' = l\<lparr>ol_keys := (memmove_in (pos + 1) pos (ol_count l - pos) (ol_keys l))[pos := k],
            ol_payloads := (memmove_in (pos + 1) pos (ol_count l - pos) (ol_payloads l))[pos := p], ol_count := Suc (ol_count l)\<rparr>"
          unfolding l'_def oleaf_insert_def Let_def using F by auto
        then show ?thesis
          using take_memmove_insert[OF pl, of "ol_keys l" k] take_memmove_insert[OF pl, of "ol_payloads l" p] c
          by (simp add: oleaf_keys_def oleaf_vals_def)
      qed
      then show "oleaf_keys l' = insert_at pos k (oleaf_keys l)" "oleaf_vals l' = insert_at pos p (oleaf_vals l)"
        "ol_count l' = Suc (ol_count l)" "length (ol_payloads l') = length (ol_keys l')" "length (ol_keys l') = length (ol_keys l)"
        by blast+
    qed
    have "sorted_wrt (<) (oleaf_keys l')" unfolding eq pos_def by (rule sorted_insert_at[OF L(3) False])
    then have "oleaf_inv l'" using eq(3-5) c inv by (simp add: oleaf_inv_def oleaf_keys_def)
    moreover have "oleaf_map l' = (oleaf_map l)(k \<mapsto> p)"
      unfolding oleaf_map_def eq using L pl False by (intro map_of_insert_at) simp_all
    ultimately show ?thesis using eq(1) by simp
  qed
  then show "oleaf_inv (oleaf_insert k p l)" "oleaf_map (oleaf_insert k p l) = (oleaf_map l)(k \<mapsto> p)"
    "set (oleaf_keys (oleaf_insert k p l)) = insert k (set (oleaf_keys l))" by (simp_all add: l'_def)
qed

lemma oleaf_split_spec:
  assumes inv: "oleaf_inv l" and c: "2 \<le> ol_count l"
    and raw: "length (ol_keys raw) = length (ol_keys l)" "length (ol_payloads raw) = length (ol_keys l)"
    and sp: "oleaf_split raw l = (r, sep, l')"
  shows "oleaf_inv l'" "oleaf_inv r" "oleaf_keys l' @ oleaf_keys r = oleaf_keys l" "oleaf_vals l' @ oleaf_vals r = oleaf_vals l"
    "oleaf_keys l' \<noteq> []" "oleaf_keys r \<noteq> []" "sep = last (oleaf_keys l')" "ol_lock l' = ol_lock l" "ol_lock r = opt_init"
    "\<not> oleaf_isFull l'" "\<not> oleaf_isFull r" "length (ol_keys l') = length (ol_keys l)" "length (ol_keys r) = length (ol_keys l)"
proof -
  let ?c = "ol_count l"
  let ?h = "?c - (?c - ?c div 2)"
  note L = oleaf_lens[OF inv]
  have len: "length (ol_payloads l) = length (ol_keys l)" "?c \<le> length (ol_keys l)" using inv by (simp_all add: oleaf_inv_def)
  have l': "l' = l\<lparr>ol_count := ?h\<rparr>" and sep: "sep = ol_keys l ! (?h - 1)"
    and r: "r = raw\<lparr>ol_lock := opt_init, ol_count := ?c - ?c div 2,
        ol_keys := memcpy_at 0 ?h (?c - ?c div 2) (ol_keys l) (ol_keys raw),
        ol_payloads := memcpy_at 0 ?h (?c - ?c div 2) (ol_payloads l) (ol_payloads raw)\<rparr>"
    using sp by (auto simp: oleaf_split_def oleaf_new_def Let_def)
  have h: "?h = ?c div 2" "0 < ?c div 2" "?c div 2 < ?c" using c by auto
  have kl: "oleaf_keys l' = take (?c div 2) (oleaf_keys l)" "oleaf_vals l' = take (?c div 2) (oleaf_vals l)"
    using h by (simp_all add: l' oleaf_keys_def oleaf_vals_def min_def)
  have kr: "oleaf_keys r = drop (?c div 2) (oleaf_keys l)" "oleaf_vals r = drop (?c div 2) (oleaf_vals l)"
    unfolding r h(1) oleaf_keys_def oleaf_vals_def using len raw by (auto intro!: nth_equalityI)
  show "oleaf_keys l' @ oleaf_keys r = oleaf_keys l" "oleaf_vals l' @ oleaf_vals r = oleaf_vals l" by (simp_all add: kl kr)
  show ne: "oleaf_keys l' \<noteq> []" "oleaf_keys r \<noteq> []" using h L(1) by (auto simp: kl kr)
  have "length (oleaf_keys l') = ?c div 2" using h L(1) by (simp add: kl)
  then have "last (oleaf_keys l') = oleaf_keys l' ! (?c div 2 - 1)" using ne by (simp add: last_conv_nth)
  also have "\<dots> = ol_keys l ! (?c div 2 - 1)" using h by (simp add: l' oleaf_keys_def)
  finally show "sep = last (oleaf_keys l')" by (simp add: sep h(1))
  show "ol_lock l' = ol_lock l" "ol_lock r = opt_init" "length (ol_keys l') = length (ol_keys l)" "length (ol_keys r) = length (ol_keys l)"
    using raw by (simp_all add: l' r)
  show "\<not> oleaf_isFull l'" "\<not> oleaf_isFull r" using h len raw by (auto simp: oleaf_isFull_def l' r)
  have "sorted_wrt (<) (oleaf_keys l')" "sorted_wrt (<) (oleaf_keys r)"
    unfolding kl kr using L(3) by (rule sorted_wrt_take sorted_wrt_drop)+
  moreover have "?c div 2 \<le> length (ol_keys l)" "?c - ?c div 2 \<le> length (ol_keys l)" "2 \<le> length (ol_keys l)"
    using len(2) c by linarith+
  ultimately show "oleaf_inv l'" "oleaf_inv r"
    using inv len raw unfolding oleaf_inv_def oleaf_keys_def l' r h(1) by simp_all
qed

section \<open>Inner nodes\<close>

definition oinner_inv :: "'k::linorder oinner \<Rightarrow> bool" where
  "oinner_inv n \<longleftrightarrow> length (oi_children n) = length (oi_keys n) \<and> oi_count n < length (oi_keys n) \<and>
     4 \<le> length (oi_keys n) \<and> 0 < oi_count n \<and> sorted_wrt (<) (take (oi_count n) (oi_keys n))"

definition oinner_keys :: "'k oinner \<Rightarrow> 'k list" where
  "oinner_keys n = take (oi_count n) (oi_keys n)"

definition oinner_kids :: "'k oinner \<Rightarrow> ptr list" where
  "oinner_kids n = take (Suc (oi_count n)) (oi_children n)"

lemma oinner_lens:
  "oinner_inv n \<Longrightarrow> length (oinner_keys n) = oi_count n" "oinner_inv n \<Longrightarrow> length (oinner_kids n) = Suc (oi_count n)"
  "oinner_inv n \<Longrightarrow> sorted_wrt (<) (oinner_keys n)"
  by (auto simp: oinner_inv_def oinner_keys_def oinner_kids_def)

lemma oinner_find:
  assumes "oinner_inv n"
  shows "lowerBound (oi_keys n) (oi_count n) k = rank k (oinner_keys n)"
    "oi_children n ! rank k (oinner_keys n) = oinner_kids n ! rank k (oinner_keys n)" "rank k (oinner_keys n) \<le> oi_count n"
proof -
  show r: "rank k (oinner_keys n) \<le> oi_count n" using rank_le[of k "oinner_keys n"] oinner_lens(1)[OF assms] by simp
  show "lowerBound (oi_keys n) (oi_count n) k = rank k (oinner_keys n)"
    unfolding oinner_keys_def using assms by (intro lowerBound_rank) (simp_all add: oinner_inv_def)
  show "oi_children n ! rank k (oinner_keys n) = oinner_kids n ! rank k (oinner_keys n)"
    using r by (simp add: oinner_kids_def)
qed

lemma oinner_insert_spec:
  assumes inv: "oinner_inv n" and room: "\<not> oinner_isFull n" and k: "k \<notin> set (oinner_keys n)" and p: "p = rank k (oinner_keys n)"
  shows "oinner_inv (oinner_insert k child n)" "oinner_keys (oinner_insert k child n) = insert_at p k (oinner_keys n)"
    "oinner_kids (oinner_insert k child n) = insert_at (Suc p) child (oinner_kids n)"
    "oi_lock (oinner_insert k child n) = oi_lock n" "length (oi_keys (oinner_insert k child n)) = length (oi_keys n)"
proof -
  let ?c = "oi_count n"
  define n' where "n' = oinner_insert k child n"
  have len: "length (oi_children n) = length (oi_keys n)" "Suc ?c < length (oi_keys n)"
    using inv room by (auto simp: oinner_inv_def oinner_isFull_def)
  note F = oinner_find[OF inv, of k] and L = oinner_lens[OF inv]
  have pc: "p \<le> ?c" using F(3) p by simp
  let ?ks = "(memmove_in (p + 1) p (?c - p + 1) (oi_keys n))[p := k]"
  let ?cs = "(memmove_in (p + 1) p (?c - p + 1) (oi_children n))[p := child]"
  have n': "oi_keys n' = ?ks" "oi_children n' = ?cs[p := ?cs ! (p + 1), p + 1 := ?cs ! p]" "oi_count n' = Suc ?c"
    by (simp_all add: n'_def oinner_insert_def F(1) p[symmetric] Let_def)
  have ks: "oinner_keys n' = insert_at p k (oinner_keys n)"
    unfolding oinner_keys_def n' using pc len by (intro nth_equalityI) (auto simp: nth_insert_at nth_list_update)
  have cs: "oinner_kids n' = insert_at (Suc p) child (oinner_kids n)"
    unfolding oinner_kids_def n'
    using pc len by (intro nth_equalityI) (auto simp: nth_insert_at nth_list_update)
  have "sorted_wrt (<) (oinner_keys n')" unfolding ks p by (rule sorted_insert_at[OF L(3) k])
  then have "oinner_inv n'" using inv len n' by (simp add: oinner_inv_def oinner_keys_def)
  then show "oinner_inv (oinner_insert k child n)" "oinner_keys (oinner_insert k child n) = insert_at p k (oinner_keys n)"
    "oinner_kids (oinner_insert k child n) = insert_at (Suc p) child (oinner_kids n)"
    using ks cs by (simp_all add: n'_def)
  show "oi_lock (oinner_insert k child n) = oi_lock n" "length (oi_keys (oinner_insert k child n)) = length (oi_keys n)"
    by (simp_all add: oinner_insert_def Let_def)
qed

lemma oinner_split_spec:
  assumes inv: "oinner_inv n" and full: "oinner_isFull n" and cap: "6 \<le> length (oi_keys n)"
    and raw: "length (oi_keys raw) = length (oi_keys n)" "length (oi_children raw) = length (oi_keys n)"
    and sp: "oinner_split raw n = (r, sep, n')"
  shows "oinner_inv n'" "oinner_inv r" "oinner_keys n = oinner_keys n' @ sep # oinner_keys r"
    "oinner_kids n = oinner_kids n' @ oinner_kids r" "oi_lock n' = oi_lock n" "oi_lock r = opt_init"
    "\<not> oinner_isFull n'" "\<not> oinner_isFull r" "length (oi_keys n') = length (oi_keys n)" "length (oi_keys r) = length (oi_keys n)"
proof -
  let ?c = "oi_count n"
  have len: "length (oi_children n) = length (oi_keys n)" "?c = length (oi_keys n) - 1"
    using inv full by (simp_all add: oinner_inv_def oinner_isFull_def)
  define h where "h = ?c div 2 - 1"
  have c: "5 \<le> ?c" "?c < length (oi_keys n)" using len cap by simp_all
  have h: "?c - (?c - ?c div 2) - 1 = h" "0 < h" "Suc h + (?c - ?c div 2) = ?c" using c by (auto simp: h_def)
  have n': "n' = n\<lparr>oi_count := h\<rparr>" and sep: "sep = oi_keys n ! h"
    and r: "r = raw\<lparr>oi_lock := opt_init, oi_count := ?c - ?c div 2,
        oi_keys := memcpy_at 0 (Suc h) (?c - ?c div 2 + 1) (oi_keys n) (oi_keys raw),
        oi_children := memcpy_at 0 (Suc h) (?c - ?c div 2 + 1) (oi_children n) (oi_children raw)\<rparr>"
    using sp h(1) by (auto simp: oinner_split_def oinner_new_def Let_def)
  have kn: "oinner_keys n' = take h (oinner_keys n)" "oinner_kids n' = take (Suc h) (oinner_kids n)"
    using h(3) by (simp_all add: n' oinner_keys_def oinner_kids_def min_def)
  have kr: "oinner_keys r = drop (Suc h) (oinner_keys n)" "oinner_kids r = drop (Suc h) (oinner_kids n)"
    unfolding r oinner_keys_def oinner_kids_def using len(1) raw h(3) c(2) by (auto intro!: nth_equalityI)
  note L = oinner_lens[OF inv]
  have hl: "h < length (oinner_keys n)" using h(3) L(1) by simp
  have "sep = oinner_keys n ! h" using h(3) by (simp add: sep oinner_keys_def)
  then show "oinner_keys n = oinner_keys n' @ sep # oinner_keys r" unfolding kn kr using id_take_nth_drop[OF hl] by simp
  show "oinner_kids n = oinner_kids n' @ oinner_kids r" by (simp add: kn kr)
  show "oi_lock n' = oi_lock n" "oi_lock r = opt_init" "length (oi_keys n') = length (oi_keys n)" "length (oi_keys r) = length (oi_keys n)"
    using raw by (simp_all add: n' r)
  show "\<not> oinner_isFull n'" "\<not> oinner_isFull r" using h(3) len raw c by (auto simp: oinner_isFull_def n' r)
  have "sorted_wrt (<) (oinner_keys n')" "sorted_wrt (<) (oinner_keys r)"
    unfolding kn kr using L(3) by (rule sorted_wrt_take sorted_wrt_drop)+
  moreover have "?c - ?c div 2 < length (oi_keys n)" "0 < ?c - ?c div 2" "h < length (oi_keys n)" using c h(3) by linarith+
  ultimately show "oinner_inv n'" "oinner_inv r"
    using inv len(1) raw h(2) unfolding oinner_inv_def oinner_keys_def n' r by simp_all
qed

end
