(* ===== verification/OlcTree.thy ===== *)
theory OlcTree
  imports OlcNode "HOL-Library.Monad_Syntax"
begin

text \<open>
  The B+-tree with optimistic lock coupling (\<open>BTree\<close> of \<open>src/BTreeOLC/BTreeOLC.h\<close>). Nodes live in
  a heap; \<open>new\<close> returns the next unused address. One operation runs to its end before the next
  one starts. Every read of a lock word, every check of a version and every upgrade is kept, so
  that \<open>goto restart\<close> is a call of the operation itself; a run that restarts for ever, and a
  null pointer that is followed, give \<open>None\<close>.
\<close>

section \<open>State\<close>

datatype ('k, 'v) onode = OLeaf (oleaf_of: "('k, 'v) oleaf") | OInner (oinner_of: "'k oinner")

primrec oword :: "('k, 'v) onode \<Rightarrow> u64" where
  "oword (OLeaf l) = ol_lock l"
| "oword (OInner n) = oi_lock n"

primrec set_oword :: "u64 \<Rightarrow> ('k, 'v) onode \<Rightarrow> ('k, 'v) onode" where
  "set_oword w (OLeaf l) = OLeaf (l\<lparr>ol_lock := w\<rparr>)"
| "set_oword w (OInner n) = OInner (n\<lparr>oi_lock := w\<rparr>)"

record ('k, 'v) btree =
  oheap :: "addr \<Rightarrow> ('k, 'v) onode option"
  onext :: addr
  oroot :: addr

text \<open>The content of memory that \<open>new\<close> returns.\<close>

record ('k, 'v) oenv =
  oraw_leaf :: "addr \<Rightarrow> ('k, 'v) oleaf"
  oraw_inner :: "addr \<Rightarrow> 'k oinner"

definition oput :: "addr \<Rightarrow> ('k, 'v) onode \<Rightarrow> ('k, 'v) btree \<Rightarrow> ('k, 'v) btree" where
  "oput a nd s = s\<lparr>oheap := (oheap s)(a \<mapsto> nd)\<rparr>"

definition onew :: "('k, 'v) onode \<Rightarrow> ('k, 'v) btree \<Rightarrow> addr \<times> ('k, 'v) btree" where
  "onew nd s = (onext s, (oput (onext s) nd s)\<lparr>onext := Suc (onext s)\<rparr>)"

definition btree_new :: "('k, 'v) oenv \<Rightarrow> ('k, 'v) btree" where
  "btree_new E = \<lparr>oheap = (\<lambda>_. None)(0 \<mapsto> OLeaf (oleaf_new (oraw_leaf E 0))), onext = 1, oroot = 0\<rparr>"

section \<open>Locks of nodes\<close>

text \<open>The result of a step that may ask for a restart: \<open>None\<close> inside is \<open>needRestart\<close>.\<close>

definition read_node :: "addr \<Rightarrow> ('k, 'v) btree \<Rightarrow> u64 option option" where
  "read_node a s = map_option (\<lambda>nd. readLockOrRestart (oword nd)) (oheap s a)"

definition check_node :: "addr \<Rightarrow> u64 \<Rightarrow> ('k, 'v) btree \<Rightarrow> bool option" where
  "check_node a version s = map_option (\<lambda>nd. readUnlockOrRestart version (oword nd)) (oheap s a)"

text \<open>The check of the parent, where there is one.\<close>

definition check_parent :: "(addr \<times> u64) option \<Rightarrow> ('k, 'v) btree \<Rightarrow> bool option" where
  "check_parent parent s = (case parent of None \<Rightarrow> Some False | Some (p, version) \<Rightarrow> check_node p version s)"

definition upgrade_node :: "addr \<Rightarrow> u64 \<Rightarrow> ('k, 'v) btree \<Rightarrow> ('k, 'v) btree option option" where
  "upgrade_node a version s =
     do { nd \<leftarrow> oheap s a;
          Some (map_option (\<lambda>w. oput a (set_oword w nd) s) (upgradeToWriteLockOrRestart version (oword nd))) }"

definition upgrade_parent :: "(addr \<times> u64) option \<Rightarrow> ('k, 'v) btree \<Rightarrow> ('k, 'v) btree option option" where
  "upgrade_parent parent s = (case parent of None \<Rightarrow> Some (Some s) | Some (p, version) \<Rightarrow> upgrade_node p version s)"

definition unlock_node :: "addr \<Rightarrow> ('k, 'v) btree \<Rightarrow> ('k, 'v) btree option" where
  "unlock_node a s = do { nd \<leftarrow> oheap s a; Some (oput a (set_oword (writeUnlock (oword nd)) nd) s) }"

definition unlock_parent :: "(addr \<times> u64) option \<Rightarrow> ('k, 'v) btree \<Rightarrow> ('k, 'v) btree option" where
  "unlock_parent parent s = (case parent of None \<Rightarrow> Some s | Some (p, _) \<Rightarrow> unlock_node p s)"

section \<open>Lookup and scan\<close>

text \<open>The descent: \<open>None\<close> inside is a restart, otherwise the leaf, its version and its parent.\<close>

partial_function (option) find_leaf ::
  "'k::linorder \<Rightarrow> ('k, 'v) btree \<Rightarrow> addr \<Rightarrow> u64 \<Rightarrow> (addr \<times> u64) option \<Rightarrow>
   (addr \<times> u64 \<times> (addr \<times> u64) option) option option" where
  "find_leaf k s node versionNode parent =
     (case oheap s node of
        None \<Rightarrow> None
      | Some (OLeaf _) \<Rightarrow> Some (Some (node, versionNode, parent))
      | Some (OInner inner) \<Rightarrow>
          do { needRestart \<leftarrow> check_parent parent s;
               if needRestart then Some None
               else do { next \<leftarrow> oi_children inner ! lowerBound (oi_keys inner) (oi_count inner) k;
                         needRestart \<leftarrow> check_node node versionNode s;
                         if needRestart then Some None
                         else do { version \<leftarrow> read_node next s;
                                   case version of
                                     None \<Rightarrow> Some None
                                   | Some version \<Rightarrow> find_leaf k s next version (Some (node, versionNode)) } } })"

definition oleaf_at :: "addr \<Rightarrow> ('k, 'v) btree \<Rightarrow> ('k, 'v) oleaf option" where
  "oleaf_at a s = (case oheap s a of Some (OLeaf l) \<Rightarrow> Some l | _ \<Rightarrow> None)"

text \<open>
  One attempt of an operation that only reads; \<open>f\<close> is what it does at the leaf. The value \<open>None\<close>
  inside asks for a restart.
\<close>

definition read_attempt ::
  "(('k, 'v) oleaf \<Rightarrow> 'r) \<Rightarrow> 'k::linorder \<Rightarrow> ('k, 'v) btree \<Rightarrow> 'r option option" where
  "read_attempt f k s =
     do { version \<leftarrow> read_node (oroot s) s;
          case version of
            None \<Rightarrow> Some None
          | Some version \<Rightarrow>
              do { r \<leftarrow> find_leaf k s (oroot s) version None;
                   case r of
                     None \<Rightarrow> Some None
                   | Some (node, versionNode, parent) \<Rightarrow>
                       do { leaf \<leftarrow> oleaf_at node s;
                            let r = f leaf;
                            needRestart \<leftarrow> check_parent parent s;
                            if needRestart then Some None
                            else do { needRestart \<leftarrow> check_node node versionNode s;
                                      Some (if needRestart then None else Some r) } } } }"

text \<open>
  What \<open>lookup\<close> does at the leaf: the value of \<open>success\<close> and of \<open>result\<close>. The variable \<open>success\<close>
  is not initialised; \<open>uninit\<close> is the value it happens to have.
\<close>

definition lookup_leaf :: "bool \<Rightarrow> 'k::linorder \<Rightarrow> ('k, 'v) oleaf \<Rightarrow> bool \<times> 'v option" where
  "lookup_leaf uninit k leaf =
     (let pos = lowerBound (ol_keys leaf) (ol_count leaf) k
      in if pos < ol_count leaf \<and> ol_keys leaf ! pos = k then (True, Some (ol_payloads leaf ! pos))
         else (uninit, None))"

partial_function (option) olc_lookup :: "bool \<Rightarrow> 'k::linorder \<Rightarrow> ('k, 'v) btree \<Rightarrow> (bool \<times> 'v option) option" where
  "olc_lookup uninit k s =
     do { r \<leftarrow> read_attempt (lookup_leaf uninit k) k s;
          case r of None \<Rightarrow> olc_lookup uninit k s | Some r \<Rightarrow> Some r }"

text \<open>\<open>scan\<close>: the output, at most \<open>range\<close> payloads of the leaf of the key, from the key on.\<close>

definition scan_leaf :: "'k::linorder \<Rightarrow> nat \<Rightarrow> ('k, 'v) oleaf \<Rightarrow> 'v list" where
  "scan_leaf k rng leaf =
     (let pos = lowerBound (ol_keys leaf) (ol_count leaf) k
      in take rng (map (\<lambda>i. ol_payloads leaf ! i) [pos..<ol_count leaf]))"

partial_function (option) olc_scan :: "'k::linorder \<Rightarrow> nat \<Rightarrow> ('k, 'v) btree \<Rightarrow> 'v list option" where
  "olc_scan k rng s =
     do { r \<leftarrow> read_attempt (scan_leaf k rng) k s;
          case r of None \<Rightarrow> olc_scan k rng s | Some r \<Rightarrow> Some r }"

section \<open>Insertion\<close>

definition makeRoot :: "('k, 'v) oenv \<Rightarrow> 'k \<Rightarrow> addr \<Rightarrow> addr \<Rightarrow> ('k, 'v) btree \<Rightarrow> ('k, 'v) btree" where
  "makeRoot E k leftChild rightChild s =
     (let inner = oinner_new (oraw_inner E (onext s));
          inner = inner\<lparr>oi_count := 1, oi_keys := (oi_keys inner)[0 := k],
                        oi_children := (oi_children inner)[0 := Some leftChild, 1 := Some rightChild]\<rparr>;
          (a, s) = onew (OInner inner) s
      in s\<lparr>oroot := a\<rparr>)"

text \<open>The end of a split: the new node goes to the parent, or to a new root, and the locks are released.\<close>

definition link_split ::
  "('k::linorder, 'v) oenv \<Rightarrow> 'k \<Rightarrow> addr \<Rightarrow> addr \<Rightarrow> (addr \<times> u64) option \<Rightarrow> ('k, 'v) btree \<Rightarrow> ('k, 'v) btree option" where
  "link_split E sep node new parent s =
     do { s \<leftarrow> (case parent of
                 None \<Rightarrow> Some (makeRoot E sep node new s)
               | Some (p, _) \<Rightarrow>
                   (case oheap s p of
                      Some (OInner inner) \<Rightarrow> Some (oput p (OInner (oinner_insert sep (Some new) inner)) s)
                    | _ \<Rightarrow> None));
          s \<leftarrow> unlock_node node s;
          unlock_parent parent s }"

definition split_node :: "('k, 'v) oenv \<Rightarrow> addr \<Rightarrow> ('k, 'v) btree \<Rightarrow> (addr \<times> 'k \<times> ('k, 'v) btree) option" where
  "split_node E node s =
     (case oheap s node of
        None \<Rightarrow> None
      | Some (OInner inner) \<Rightarrow>
          (let (r, sep, inner) = oinner_split (oraw_inner E (onext s)) inner;
               (new, s) = onew (OInner r) (oput node (OInner inner) s)
           in Some (new, sep, s))
      | Some (OLeaf leaf) \<Rightarrow>
          (let (r, sep, leaf) = oleaf_split (oraw_leaf E (onext s)) leaf;
               (new, s) = onew (OLeaf r) (oput node (OLeaf leaf) s)
           in Some (new, sep, s)))"

text \<open>The branch for a full node; it always ends in a restart.\<close>

definition split_full ::
  "('k::linorder, 'v) oenv \<Rightarrow> addr \<Rightarrow> u64 \<Rightarrow> (addr \<times> u64) option \<Rightarrow> ('k, 'v) btree \<Rightarrow> ('k, 'v) btree option" where
  "split_full E node versionNode parent s =
     do { r \<leftarrow> upgrade_parent parent s;
          case r of
            None \<Rightarrow> Some s
          | Some s \<Rightarrow>
              do { r \<leftarrow> upgrade_node node versionNode s;
                   case r of
                     None \<Rightarrow> unlock_parent parent s
                   | Some s \<Rightarrow>
                       if parent = None \<and> node \<noteq> oroot s then unlock_node node s
                       else do { (new, sep, s) \<leftarrow> split_node E node s;
                                 link_split E sep node new parent s } } }"

text \<open>The insertion into a leaf with room: \<open>True\<close> if it was done, \<open>False\<close> for a restart.\<close>

definition insert_leaf ::
  "'k::linorder \<Rightarrow> 'v \<Rightarrow> addr \<Rightarrow> u64 \<Rightarrow> (addr \<times> u64) option \<Rightarrow> ('k, 'v) btree \<Rightarrow> (bool \<times> ('k, 'v) btree) option" where
  "insert_leaf k v node versionNode parent s =
     do { r \<leftarrow> upgrade_node node versionNode s;
          case r of
            None \<Rightarrow> Some (False, s)
          | Some s \<Rightarrow>
              do { needRestart \<leftarrow> check_parent parent s;
                   if needRestart then do { s \<leftarrow> unlock_node node s; Some (False, s) }
                   else do { leaf \<leftarrow> oleaf_at node s;
                             s \<leftarrow> unlock_node node (oput node (OLeaf (oleaf_insert k v leaf)) s);
                             Some (True, s) } } }"

text \<open>One attempt, from a node on: \<open>True\<close> if the pair was inserted, \<open>False\<close> for a restart.\<close>

partial_function (option) insert_from ::
  "('k::linorder, 'v) oenv \<Rightarrow> 'k \<Rightarrow> 'v \<Rightarrow> addr \<Rightarrow> u64 \<Rightarrow> (addr \<times> u64) option \<Rightarrow> ('k, 'v) btree \<Rightarrow>
   (bool \<times> ('k, 'v) btree) option" where
  "insert_from E k v node versionNode parent s =
     (case oheap s node of
        None \<Rightarrow> None
      | Some (OLeaf leaf) \<Rightarrow>
          if oleaf_isFull leaf then do { s \<leftarrow> split_full E node versionNode parent s; Some (False, s) }
          else insert_leaf k v node versionNode parent s
      | Some (OInner inner) \<Rightarrow>
          if oinner_isFull inner then do { s \<leftarrow> split_full E node versionNode parent s; Some (False, s) }
          else
            do { needRestart \<leftarrow> check_parent parent s;
                 if needRestart then Some (False, s)
                 else do { next \<leftarrow> oi_children inner ! lowerBound (oi_keys inner) (oi_count inner) k;
                           needRestart \<leftarrow> check_node node versionNode s;
                           if needRestart then Some (False, s)
                           else do { version \<leftarrow> read_node next s;
                                     case version of
                                       None \<Rightarrow> Some (False, s)
                                     | Some version \<Rightarrow> insert_from E k v next version (Some (node, versionNode)) s } } })"

partial_function (option) olc_insert ::
  "('k::linorder, 'v) oenv \<Rightarrow> 'k \<Rightarrow> 'v \<Rightarrow> ('k, 'v) btree \<Rightarrow> ('k, 'v) btree option" where
  "olc_insert E k v s =
     do { version \<leftarrow> read_node (oroot s) s;
          case version of
            None \<Rightarrow> olc_insert E k v s
          | Some version \<Rightarrow>
              do { (ok, s) \<leftarrow> insert_from E k v (oroot s) version None s;
                   if ok then Some s else olc_insert E k v s } }"

end
