(* ===== verification/OlcSearch.thy ===== *)
theory OlcSearch
  imports OlcTree
begin

text \<open>
  The invariant of the tree of \<open>BTreeOLC.h\<close> and the correctness of its reads. A ghost tree holds
  the nodes; the heap stores its cells. A key is found by the ranks of the key among the
  separators, and every key of a subtree, separators included, has the rank of the subtree.
\<close>

section \<open>Ghost trees\<close>

datatype ('k, 'v) otree = GLeaf addr "('k, 'v) oleaf" | GInner addr "'k oinner" "('k, 'v) otree list"

primrec gaddr :: "('k, 'v) otree \<Rightarrow> addr" where
  "gaddr (GLeaf a l) = a"
| "gaddr (GInner a n ts) = a"

primrec gnode :: "('k, 'v) otree \<Rightarrow> ('k, 'v) onode" where
  "gnode (GLeaf a l) = OLeaf l"
| "gnode (GInner a n ts) = OInner n"

fun cells :: "('k, 'v) otree \<Rightarrow> (addr \<times> ('k, 'v) onode) list" where
  "cells (GLeaf a l) = [(a, OLeaf l)]"
| "cells (GInner a n ts) = (a, OInner n) # concat (map cells ts)"

abbreviation gaddrs :: "('k, 'v) otree \<Rightarrow> addr set" where
  "gaddrs t \<equiv> fst ` set (cells t)"

fun gkeys :: "('k, 'v) otree \<Rightarrow> 'k set" where
  "gkeys (GLeaf a l) = set (oleaf_keys l)"
| "gkeys (GInner a n ts) = set (oinner_keys n) \<union> (\<Union>t\<in>set ts. gkeys t)"

fun gmap :: "('k::linorder, 'v) otree \<Rightarrow> 'k \<Rightarrow> 'v option" where
  "gmap (GLeaf a l) k = oleaf_map l k"
| "gmap (GInner a n ts) k = (map (\<lambda>t. gmap t k) ts) ! rank k (oinner_keys n)"

text \<open>A lock word that is neither locked nor obsolete.\<close>

definition wfree :: "u64 \<Rightarrow> bool" where "wfree w \<longleftrightarrow> \<not> isLocked w \<and> \<not> isObsolete w"

text \<open>Well-formed at height \<open>d\<close>, with the capacities \<open>cl\<close> of leaves and \<open>ci\<close> of inner nodes.\<close>

fun gok :: "nat \<Rightarrow> nat \<Rightarrow> nat \<Rightarrow> ('k::linorder, 'v) otree \<Rightarrow> bool" where
  "gok cl ci d (GLeaf a l) \<longleftrightarrow> d = 0 \<and> oleaf_inv l \<and> length (ol_keys l) = cl \<and> wfree (ol_lock l)"
| "gok cl ci d (GInner a n ts) \<longleftrightarrow> 0 < d \<and> oinner_inv n \<and> length (oi_keys n) = ci \<and> wfree (oi_lock n) \<and>
     oinner_kids n = map (\<lambda>t. Some (gaddr t)) ts \<and> (\<forall>t\<in>set ts. gok cl ci (d - 1) t) \<and>
     (\<forall>j<length ts. \<forall>x\<in>gkeys (ts ! j). rank x (oinner_keys n) = j)"

definition stored :: "(addr \<Rightarrow> ('k, 'v) onode option) \<Rightarrow> ('k, 'v) otree \<Rightarrow> bool" where
  "stored h t \<longleftrightarrow> (\<forall>(a, nd)\<in>set (cells t). h a = Some nd)"

definition btree_ok :: "nat \<Rightarrow> nat \<Rightarrow> ('k::linorder, 'v) btree \<Rightarrow> ('k, 'v) otree \<Rightarrow> bool" where
  "btree_ok cl ci s t \<longleftrightarrow> oroot s = gaddr t \<and> stored (oheap s) t \<and> distinct (map fst (cells t)) \<and>
     (\<exists>d. gok cl ci d t) \<and> (\<forall>a. onext s \<le> a \<longrightarrow> a \<notin> gaddrs t)"

section \<open>Facts about ghost trees\<close>

lemma gaddr_in: "(gaddr t, gnode t) \<in> set (cells t)"
  by (cases t) auto

lemma stored_node: "stored h t \<Longrightarrow> h (gaddr t) = Some (gnode t)"
  using gaddr_in[of t] by (auto simp: stored_def)

lemma stored_kid: "stored h (GInner a n ts) \<Longrightarrow> t \<in> set ts \<Longrightarrow> stored h t"
  by (auto simp: stored_def)

lemma stored_cong: "(\<And>a. a \<in> gaddrs t \<Longrightarrow> h a = h' a) \<Longrightarrow> stored h t = stored h' t"
  unfolding stored_def by (intro ball_cong refl) force

lemma kids_length: "gok cl ci d (GInner a n ts) \<Longrightarrow> length ts = Suc (length (oinner_keys n))"
  using oinner_lens[of n] by (auto dest: arg_cong[where f = length])

lemma kid_at:
  assumes "gok cl ci d (GInner a n ts)" and j: "j = rank k (oinner_keys n)"
  shows "j < length ts" "lowerBound (oi_keys n) (oi_count n) k = j" "oi_children n ! j = Some (gaddr (ts ! j))"
    "gok cl ci (d - 1) (ts ! j)" "gmap (GInner a n ts) k = gmap (ts ! j) k" "ts ! j \<in> set ts"
proof -
  show lt: "j < length ts" using kids_length[OF assms(1)] j by (simp add: less_Suc_eq_le)
  have inv: "oinner_inv n" using assms(1) by simp
  show "lowerBound (oi_keys n) (oi_count n) k = j" using oinner_find(1)[OF inv] j by simp
  show "oi_children n ! j = Some (gaddr (ts ! j))" using oinner_find(2)[OF inv, of k] assms lt by simp
  show "gok cl ci (d - 1) (ts ! j)" "ts ! j \<in> set ts" "gmap (GInner a n ts) k = gmap (ts ! j) k"
    using assms lt by auto
qed

lemma gok_free: "gok cl ci d t \<Longrightarrow> wfree (oword (gnode t))"
  by (cases t) auto

lemma read_free: "wfree w \<Longrightarrow> readLockOrRestart w = Some w"
  by (simp add: wfree_def readLockOrRestart_def)

lemma read_ok: "gok cl ci d t \<Longrightarrow> stored (oheap s) t \<Longrightarrow> read_node (gaddr t) s = Some (Some (oword (gnode t)))"
  by (simp add: read_node_def stored_node read_free gok_free)

lemma check_ok: "stored (oheap s) t \<Longrightarrow> check_node (gaddr t) (oword (gnode t)) s = Some False"
  by (simp add: check_node_def stored_node readUnlockOrRestart_def)

section \<open>Reads\<close>

fun leaf_for :: "('k::linorder, 'v) otree \<Rightarrow> 'k \<Rightarrow> addr \<times> ('k, 'v) oleaf" where
  "leaf_for (GLeaf a l) k = (a, l)"
| "leaf_for (GInner a n ts) k = (map (\<lambda>t. leaf_for t k) ts) ! rank k (oinner_keys n)"

lemma find_leaf_spec:
  assumes "gok cl ci d t" "stored (oheap s) t" "check_parent parent s = Some False" "leaf_for t k = (a, l)"
  shows "\<exists>parent'. find_leaf k s (gaddr t) (oword (gnode t)) parent = Some (Some (a, ol_lock l, parent')) \<and>
    check_parent parent' s = Some False \<and> oheap s a = Some (OLeaf l) \<and> oleaf_inv l \<and> oleaf_map l k = gmap t k"
  using assms
proof (induction t arbitrary: d parent)
  case (GLeaf b l')
  then show ?case using stored_node[of "oheap s" "GLeaf b l'"] by (subst find_leaf.simps) auto
next
  case (GInner b n ts)
  define j where "j = rank k (oinner_keys n)"
  note K = kid_at[OF GInner.prems(1) j_def]
  have st: "stored (oheap s) (ts ! j)" using stored_kid[OF GInner.prems(2) K(6)] .
  have hb: "oheap s b = Some (OInner n)" and cb: "check_node b (oi_lock n) s = Some False"
    using stored_node[OF GInner.prems(2)] check_ok[OF GInner.prems(2)] by simp_all
  have cp: "check_parent (Some (b, oi_lock n)) s = Some False" using cb by (simp add: check_parent_def)
  have lf: "leaf_for (ts ! j) k = (a, l)" using GInner.prems(4) K(1) by (simp add: j_def)
  have "find_leaf k s b (oi_lock n) parent = find_leaf k s (gaddr (ts ! j)) (oword (gnode (ts ! j))) (Some (b, oi_lock n))"
    by (subst find_leaf.simps) (simp add: hb GInner.prems(3) K(2,3) cb read_ok[OF K(4) st])
  then show ?case using GInner.IH[OF K(6) K(4) st cp lf] K(5) by auto
qed

lemma read_attempt_spec:
  assumes ok: "btree_ok cl ci s t" and l: "leaf_for t k = (a, l)"
  shows "read_attempt f k s = Some (Some (f l))" "oleaf_inv l" "oleaf_map l k = gmap t k"
proof -
  obtain d where t: "oroot s = gaddr t" "stored (oheap s) t" "gok cl ci d t" using ok by (auto simp: btree_ok_def)
  have "check_parent None s = Some False" by (simp add: check_parent_def)
  from find_leaf_spec[OF t(3,2) this l] obtain parent'
    where p: "find_leaf k s (gaddr t) (oword (gnode t)) None = Some (Some (a, ol_lock l, parent'))"
      "check_parent parent' s = Some False" "oheap s a = Some (OLeaf l)" "oleaf_inv l" "oleaf_map l k = gmap t k" by blast
  show "read_attempt f k s = Some (Some (f l))"
    using p t by (simp add: read_attempt_def read_ok[OF t(3,2)] oleaf_at_def check_node_def readUnlockOrRestart_def)
  show "oleaf_inv l" "oleaf_map l k = gmap t k" by (fact p)+
qed

lemma lookup_leaf_spec:
  assumes inv: "oleaf_inv l"
  shows "lookup_leaf u k l = (case oleaf_map l k of Some v \<Rightarrow> (True, Some v) | None \<Rightarrow> (u, None))"
proof (cases "ol_count l = 0")
  case True
  then show ?thesis by (simp add: lookup_leaf_def oleaf_map_def oleaf_keys_def)
next
  case False
  note F = oleaf_find[OF inv, of "lowerBound (ol_keys l) (ol_count l) k" k]
  have "oleaf_map l k = None \<longleftrightarrow> k \<notin> set (oleaf_keys l)"
    using oleaf_lens(1,2)[OF inv] by (simp add: oleaf_map_def map_of_zip_is_None)
  then show ?thesis using F False by (auto simp: lookup_leaf_def Let_def split: option.splits)
qed

lemma olc_lookup_spec:
  assumes "btree_ok cl ci s t"
  shows "olc_lookup u k s = Some (case gmap t k of Some v \<Rightarrow> (True, Some v) | None \<Rightarrow> (u, None))"
proof -
  obtain a l where "leaf_for t k = (a, l)" by fastforce
  note R = read_attempt_spec[OF assms this]
  show ?thesis
    by (subst olc_lookup.simps) (simp add: R(1) lookup_leaf_spec[OF R(2)] R(3))
qed

text \<open>A scan returns the payloads of the leaf of the key whose keys are not smaller, in order, up to the range.\<close>

lemma scan_leaf_spec:
  assumes inv: "oleaf_inv l"
  shows "scan_leaf k rng l = take rng (map snd (filter (\<lambda>(x, v). k \<le> x) (zip (oleaf_keys l) (oleaf_vals l))))"
proof (cases "ol_count l = 0")
  case False
  note L = oleaf_lens[OF inv]
  have pos: "lowerBound (ol_keys l) (ol_count l) k = rank k (oleaf_keys l)" using oleaf_find(1)[OF inv _ refl] False by simp
  have "map (\<lambda>i. ol_payloads l ! i) [p..<ol_count l] = drop p (oleaf_vals l)" for p
    using inv by (intro nth_equalityI) (auto simp: oleaf_vals_def oleaf_inv_def)
  moreover have "map snd (zip (oleaf_keys l) (oleaf_vals l)) = oleaf_vals l" using L by simp
  ultimately show ?thesis
    using filter_zip_sorted[OF L(3), of "oleaf_vals l" k] L by (simp add: scan_leaf_def pos drop_map flip: drop_map)
qed (simp add: scan_leaf_def oleaf_keys_def)

lemma olc_scan_spec:
  assumes "btree_ok cl ci s t" "leaf_for t k = (a, l)"
  shows "olc_scan k rng s = Some (take rng (map snd (filter (\<lambda>(x, v). k \<le> x) (zip (oleaf_keys l) (oleaf_vals l)))))"
  by (subst olc_scan.simps) (simp add: read_attempt_spec[OF assms] scan_leaf_spec)

end
