(* ===== verification/OlcInsert.thy ===== *)
theory OlcInsert
  imports OlcSearch
begin

text \<open>
  The insertion into the tree of \<open>BTreeOLC.h\<close>. An attempt either inserts the pair or splits the
  first full node on the path of the key; the number of full nodes on the path, and then the sum
  of their depths, decreases with each split, so the restarts end.
\<close>

section \<open>Locking and unlocking\<close>

text \<open>The word of a node after a write lock and its release.\<close>

definition bump :: "('k, 'v) onode \<Rightarrow> ('k, 'v) onode" where
  "bump nd = set_oword (oword nd + 4) nd"

lemma wfree_add4: "wfree w \<Longrightarrow> wfree (w + 4)"
proof -
  assume "wfree w"
  then have b: "\<not> bit w 1" "\<not> bit w 0" by (simp_all add: wfree_def opt_bits)
  have w2: "w + 2 = w OR push_bit 1 1" using add_clear_bit[of w 1] b(1) by simp
  have "bit (w + 2) 1" "\<not> bit (w + 2) 0" unfolding w2 using b bit_or_single[of w 1] by simp_all
  then have "\<not> bit (w + 2 + 2) 1" "\<not> bit (w + 2 + 2) 0"
    using add_lock_bit(1)[of 1 "w + 2"] add_lock_bit(3)[of 1 "w + 2" 0] by simp_all
  then show ?thesis by (simp add: wfree_def opt_bits add.assoc)
qed

lemma oword_simps [simp]:
  "oword (set_oword w nd) = w" "set_oword w (set_oword u nd) = set_oword w nd" "set_oword (oword nd) nd = nd"
  by (cases nd; simp)+

text \<open>What a split makes of a node: the new node, the separator and the node itself.\<close>

primrec nsplit :: "('k, 'v) oenv \<Rightarrow> addr \<Rightarrow> ('k, 'v) onode \<Rightarrow> ('k, 'v) onode \<times> 'k \<times> ('k, 'v) onode" where
  "nsplit E a (OLeaf l) = (case oleaf_split (oraw_leaf E a) l of (r, sep, l) \<Rightarrow> (OLeaf r, sep, OLeaf l))"
| "nsplit E a (OInner n) = (case oinner_split (oraw_inner E a) n of (r, sep, n) \<Rightarrow> (OInner r, sep, OInner n))"

lemma nsplit_set_oword:
  "nsplit E a nd = (r, sep, nd') \<Longrightarrow> nsplit E a (set_oword w nd) = (r, sep, set_oword w nd')"
  by (cases nd) (auto simp: oleaf_split_def oinner_split_def Let_def)

lemma nsplit_word: "nsplit E a nd = (r, sep, nd') \<Longrightarrow> oword nd' = oword nd"
  by (cases nd) (auto simp: oleaf_split_def oinner_split_def Let_def)

lemma split_node_nsplit:
  assumes "oheap s a = Some nd" "nsplit E (onext s) nd = (r, sep, nd')"
  shows "split_node E a s =
    Some (onext s, sep, s\<lparr>oheap := (oheap s)(a \<mapsto> nd', onext s \<mapsto> r), onext := Suc (onext s)\<rparr>)"
  using assms by (cases nd) (auto simp: split_node_def onew_def oput_def Let_def split: prod.splits)

lemma oinner_insert_lock: "oinner_insert k c (n\<lparr>oi_lock := w\<rparr>) = (oinner_insert k c n)\<lparr>oi_lock := w\<rparr>"
  by (simp add: oinner_insert_def Let_def)

lemma oinner_insert_word: "oi_lock (oinner_insert k c n) = oi_lock n"
  by (simp add: oinner_insert_def Let_def)

lemma upgrade_node_ok:
  "oheap s a = Some nd \<Longrightarrow> upgrade_node a (oword nd) s = Some (Some (oput a (set_oword (oword nd + 2) nd) s))"
  by (simp add: upgrade_node_def upgradeToWriteLockOrRestart_def)

text \<open>The effect of the branch for a full node on the heap, below a parent and at the root.\<close>

lemma split_full_kid:
  assumes p: "oheap s p = Some (OInner n)" and a: "oheap s a = Some nd" and ne: "p \<noteq> a" "onext s \<noteq> a" "onext s \<noteq> p"
    and sp: "nsplit E (onext s) nd = (r, sep, nd')"
  shows "split_full E a (oword nd) (Some (p, oi_lock n)) s =
    Some (s\<lparr>oheap := (oheap s)(a \<mapsto> bump nd', onext s \<mapsto> r, p \<mapsto> bump (OInner (oinner_insert sep (Some (onext s)) n))),
            onext := Suc (onext s)\<rparr>)"
proof -
  have up: "upgrade_node p (oi_lock n) s = Some (Some (oput p (OInner (n\<lparr>oi_lock := oi_lock n + 2\<rparr>)) s))"
    using upgrade_node_ok[OF p] by simp
  have ua: "upgrade_node a (oword nd) (oput p x s) = Some (Some (oput a (set_oword (oword nd + 2) nd) (oput p x s)))" for x
    using a ne by (intro upgrade_node_ok) (simp add: oput_def)
  have sn: "split_node E a (oput a (set_oword w nd) (oput p x s)) =
      Some (onext s, sep, s\<lparr>oheap := (oheap s)(p \<mapsto> x, a \<mapsto> set_oword w nd', onext s \<mapsto> r), onext := Suc (onext s)\<rparr>)" for w x
    by (subst split_node_nsplit[where nd = "set_oword w nd" and r = r and sep = sep and nd' = "set_oword w nd'"])
       (use nsplit_set_oword[OF sp, of w] ne in \<open>auto simp: oput_def\<close>)
  have "split_full E a (oword nd) (Some (p, oi_lock n)) s =
      link_split E sep a (onext s) (Some (p, oi_lock n))
        (s\<lparr>oheap := (oheap s)(p \<mapsto> OInner (n\<lparr>oi_lock := oi_lock n + 2\<rparr>), a \<mapsto> set_oword (oword nd + 2) nd', onext s \<mapsto> r),
           onext := Suc (onext s)\<rparr>)"
    by (simp add: split_full_def upgrade_parent_def up ua sn)
  then show ?thesis
    using ne nsplit_word[OF sp]
    by (simp add: link_split_def unlock_parent_def unlock_node_def oput_def
        writeUnlock_def bump_def oinner_insert_lock oinner_insert_word add.assoc fun_upd_twist)
qed

definition root_node :: "('k, 'v) oenv \<Rightarrow> addr \<Rightarrow> 'k \<Rightarrow> addr \<Rightarrow> addr \<Rightarrow> 'k oinner" where
  "root_node E a k l r =
     (let n = oraw_inner E a
      in n\<lparr>oi_lock := opt_init, oi_count := 1, oi_keys := (oi_keys n)[0 := k],
           oi_children := (oi_children n)[0 := Some l, 1 := Some r]\<rparr>)"

lemma split_full_root:
  assumes a: "oheap s a = Some nd" and ne: "onext s \<noteq> a" "Suc (onext s) \<noteq> a" and root: "oroot s = a"
    and sp: "nsplit E (onext s) nd = (r, sep, nd')"
  shows "split_full E a (oword nd) None s =
    Some (s\<lparr>oheap := (oheap s)(a \<mapsto> bump nd', onext s \<mapsto> r, Suc (onext s) \<mapsto> OInner (root_node E (Suc (onext s)) sep a (onext s))),
            onext := Suc (Suc (onext s)), oroot := Suc (onext s)\<rparr>)"
proof -
  have sn: "split_node E a (oput a (set_oword w nd) s) =
      Some (onext s, sep, s\<lparr>oheap := (oheap s)(a \<mapsto> set_oword w nd', onext s \<mapsto> r), onext := Suc (onext s)\<rparr>)" for w
    by (subst split_node_nsplit[where nd = "set_oword w nd" and r = r and sep = sep and nd' = "set_oword w nd'"])
       (use nsplit_set_oword[OF sp, of w] in \<open>auto simp: oput_def\<close>)
  have rt: "oroot (oput a x s) = a" for x using root by (simp add: oput_def)
  have "split_full E a (oword nd) None s =
      link_split E sep a (onext s) None
        (s\<lparr>oheap := (oheap s)(a \<mapsto> set_oword (oword nd + 2) nd', onext s \<mapsto> r), onext := Suc (onext s)\<rparr>)"
    by (simp add: split_full_def upgrade_parent_def upgrade_node_ok[OF a] sn rt)
  then show ?thesis
    using ne nsplit_word[OF sp]
    by (simp add: link_split_def unlock_parent_def unlock_node_def
        oput_def onew_def makeRoot_def root_node_def oinner_new_def Let_def writeUnlock_def bump_def add.assoc fun_upd_twist)
qed

section \<open>Full nodes on the path of a key\<close>

primrec nfull :: "('k, 'v) onode \<Rightarrow> bool" where
  "nfull (OLeaf l) = oleaf_isFull l"
| "nfull (OInner n) = oinner_isFull n"

fun full_count :: "'k::linorder \<Rightarrow> ('k, 'v) otree \<Rightarrow> nat" where
  "full_count k (GLeaf a l) = (if oleaf_isFull l then 1 else 0)"
| "full_count k (GInner a n ts) =
     (if oinner_isFull n then 1 else 0) + map (full_count k) ts ! rank k (oinner_keys n)"

fun full_depth :: "'k::linorder \<Rightarrow> ('k, 'v) otree \<Rightarrow> nat" where
  "full_depth k (GLeaf a l) = 0"
| "full_depth k (GInner a n ts) = map (\<lambda>t. full_count k t + full_depth k t) ts ! rank k (oinner_keys n)"

definition fewer_full :: "'k::linorder \<Rightarrow> ('k, 'v) otree \<Rightarrow> ('k, 'v) otree \<Rightarrow> bool" where
  "fewer_full k t' t \<longleftrightarrow> full_count k t' < full_count k t \<or>
     full_count k t' = full_count k t \<and> full_depth k t' < full_depth k t"

section \<open>The two halves of a node\<close>

lemma rank_middle:
  assumes "sorted_wrt (<) (xs @ m # ys)"
  shows "rank x (xs @ m # ys) = (if x \<le> m then rank x xs else Suc (length xs + rank x ys))"
proof (cases "x \<le> m")
  case True
  then have "rank x ys = 0" using assms by (intro rank_eq_0) (force simp: sorted_wrt_append)
  then show ?thesis using True by simp
next
  case False
  then have "rank x xs = length xs" using assms by (intro rank_eq_length) (force simp: sorted_wrt_append)
  then show ?thesis using False by simp
qed

lemma route_middle:
  assumes "sorted_wrt (<) (xs @ m # ys)" "length ts1 = Suc (length xs)"
  shows "map f (ts1 @ ts2) ! rank x (xs @ m # ys) =
    (if x \<le> m then map f ts1 ! rank x xs else map f ts2 ! rank x ys)"
proof -
  have "rank x xs < Suc (length xs)" by (simp add: less_Suc_eq_le)
  then show ?thesis using rank_middle[OF assms(1), of x] assms(2) by (simp add: nth_append del: rank_append rank_Cons)
qed

text \<open>The children after the child \<open>j\<close> was replaced by two, with the separator \<open>m\<close> between them.\<close>

lemma nth_replace2:
  "j < length ts \<Longrightarrow> i \<le> length ts \<Longrightarrow> insert_at (Suc j) u2 (ts[j := u1]) ! i =
     (if i < j then ts ! i else if i = j then u1 else if i = Suc j then u2 else ts ! (i - 1))"
  by (auto simp: nth_insert_at nth_list_update)

lemma ranks_insert:
  assumes "length ts = Suc (length ks)" "rank m ks = j" and rk: "\<forall>i<length ts. \<forall>x\<in>K (ts ! i). rank x ks = i"
    and u: "K u1 \<subseteq> K (ts ! j) \<inter> {..m}" "K u2 \<subseteq> K (ts ! j) \<inter> {m<..}"
  shows "\<forall>i<length (insert_at (Suc j) u2 (ts[j := u1])). \<forall>x\<in>K (insert_at (Suc j) u2 (ts[j := u1]) ! i).
    rank x (insert_at j m ks) = i"
proof (intro allI impI ballI)
  fix i x assume i: "i < length (insert_at (Suc j) u2 (ts[j := u1]))" and x: "x \<in> K (insert_at (Suc j) u2 (ts[j := u1]) ! i)"
  have j: "j < length ts" using assms(1,2) rank_le[of m ks] by simp
  have il: "i \<le> length ts" using i j by simp
  note nth = nth_replace2[OF j il, of u2 u1] and r = rank_insert_at[of x j m ks]
  consider "i < j" | "i = j" | "i = Suc j" | "Suc j < i" by linarith
  then show "rank x (insert_at j m ks) = i"
  proof cases
    case 1
    then have "rank x ks = i" using rk x nth j by simp
    then show ?thesis using rank_cmp[of x ks m] assms(2) 1 r by auto
  next
    case 4
    then have "rank x ks = i - 1" using rk x nth il by auto
    then show ?thesis using rank_cmp[of m ks x] assms(2) 4 r by auto
  qed (use u rk j x nth r in auto)
qed

lemma route_insert:
  assumes "length ts = Suc (length ks)" "rank m ks = j"
  shows "map f (insert_at (Suc j) u2 (ts[j := u1])) ! rank x (insert_at j m ks) =
    (if rank x ks = j then f (if x \<le> m then u1 else u2) else map f ts ! rank x ks)"
proof -
  have r: "rank x ks < length ts" "j < length ts" using assms rank_le[of m ks] by (auto simp: less_Suc_eq_le)
  have r': "rank x (insert_at j m ks) \<le> length ts" using rank_insert_at[of x j m ks] r by simp
  show ?thesis
    using r r' nth_replace2[OF r(2) r', of u2 u1] rank_insert_at[of x j m ks] rank_cmp[of x ks m] rank_cmp[of m ks x] assms(2)
    by (auto simp: not_le not_less)
qed

text \<open>What the halves \<open>t1\<close> and \<open>t2\<close> of \<open>t\<close>, separated by \<open>sep\<close>, have to do with \<open>t\<close>.\<close>

definition halves :: "('k::linorder, 'v) otree \<Rightarrow> ('k, 'v) otree \<Rightarrow> 'k \<Rightarrow> ('k, 'v) otree \<Rightarrow> bool" where
  "halves t t1 sep t2 \<longleftrightarrow>
     tl (cells t1) @ tl (cells t2) = tl (cells t) \<and> gkeys t1 \<union> gkeys t2 \<subseteq> gkeys t \<and> sep \<in> gkeys t \<and>
     (\<exists>y\<in>gkeys t. sep < y) \<and> (\<forall>x\<in>gkeys t1. x \<le> sep) \<and> (\<forall>x\<in>gkeys t2. sep < x) \<and>
     (\<forall>x. gmap t x = gmap (if x \<le> sep then t1 else t2) x) \<and>
     (\<forall>x. full_count x t = Suc (full_count x (if x \<le> sep then t1 else t2))) \<and>
     (\<forall>x. full_depth x t = full_depth x (if x \<le> sep then t1 else t2))"

locale olc_env =
  fixes E :: "('k::linorder, 'v) oenv" and cl ci :: nat
  assumes raw_leaf: "length (ol_keys (oraw_leaf E a)) = cl" "length (ol_payloads (oraw_leaf E a)) = cl"
    and raw_inner: "length (oi_keys (oraw_inner E a)) = ci" "length (oi_children (oraw_inner E a)) = ci"
    and caps: "2 \<le> cl" "6 \<le> ci"
begin

lemma leaf_halves:
  assumes ok: "gok cl ci d (GLeaf a l)" and full: "oleaf_isFull l" and sp: "oleaf_split (oraw_leaf E b) l = (r, sep, l')"
  shows "gok cl ci d (GLeaf a (l'\<lparr>ol_lock := ol_lock l + 4\<rparr>))" "gok cl ci d (GLeaf b r)" "\<not> oleaf_isFull l'" "\<not> oleaf_isFull r"
    "halves (GLeaf a l) (GLeaf a (l'\<lparr>ol_lock := ol_lock l + 4\<rparr>)) sep (GLeaf b r)"
proof -
  have inv: "oleaf_inv l" and len: "length (ol_keys l) = cl" using ok by auto
  have c: "2 \<le> ol_count l" using full caps len by (simp add: oleaf_isFull_def)
  note S = oleaf_split_spec[OF inv c _ _ sp]
  have raw: "length (ol_keys (oraw_leaf E b)) = length (ol_keys l)" "length (ol_payloads (oraw_leaf E b)) = length (ol_keys l)"
    using raw_leaf len by simp_all
  note S = S[OF raw]
  let ?l = "l'\<lparr>ol_lock := ol_lock l + 4\<rparr>"
  have same: "oleaf_keys ?l = oleaf_keys l'" "oleaf_vals ?l = oleaf_vals l'" "oleaf_inv ?l = oleaf_inv l'"
    "oleaf_map ?l = oleaf_map l'" "oleaf_isFull ?l = oleaf_isFull l'"
    by (simp_all add: oleaf_keys_def oleaf_vals_def oleaf_inv_def oleaf_map_def oleaf_isFull_def)
  have free: "wfree (ol_lock l + 4)" using ok wfree_add4 by simp
  show "gok cl ci d (GLeaf a ?l)" using ok S(1,12) same len free by simp
  show "gok cl ci d (GLeaf b r)" using ok S(2,9,13) len by (simp add: wfree_def opt_init_def isLocked_def isObsolete_def)
  show nf: "\<not> oleaf_isFull l'" "\<not> oleaf_isFull r" by (rule S(10), rule S(11))
  have s: "sorted_wrt (<) (oleaf_keys l' @ oleaf_keys r)" using oleaf_lens(3)[OF inv] S(3) by simp
  have sep: "sep \<in> set (oleaf_keys l')" "\<And>x. x \<in> set (oleaf_keys l') \<Longrightarrow> x \<le> sep" "\<And>x. x \<in> set (oleaf_keys r) \<Longrightarrow> sep < x"
  proof -
    show i: "sep \<in> set (oleaf_keys l')" using S(5,7) by simp
    show "x \<le> sep" if "x \<in> set (oleaf_keys l')" for x
      using le_last[of "oleaf_keys l'" x] s that S(7) by (simp add: sorted_wrt_append)
    show "sep < x" if "x \<in> set (oleaf_keys r)" for x using s i that by (simp add: sorted_wrt_append)
  qed
  have map: "oleaf_map l x = oleaf_map (if x \<le> sep then l' else r) x" for x
  proof -
    have "zip (oleaf_keys l) (oleaf_vals l) = zip (oleaf_keys l') (oleaf_vals l') @ zip (oleaf_keys r) (oleaf_vals r)"
      using S(3,4) oleaf_lens(1,2)[OF S(1)] by (metis zip_append)
    then have "oleaf_map l x = (oleaf_map r ++ oleaf_map l') x" by (simp add: oleaf_map_def)
    moreover have "oleaf_map r x = None" if "x \<le> sep"
      using sep(3) that oleaf_lens(1,2)[OF S(2)] by (force simp: oleaf_map_def map_of_zip_is_None)
    moreover have "oleaf_map l' x = None" if "\<not> x \<le> sep"
      using sep(2) that oleaf_lens(1,2)[OF S(1)] by (force simp: oleaf_map_def map_of_zip_is_None)
    ultimately show ?thesis by (simp add: map_add_def split: option.splits)
  qed
  have ks: "set (oleaf_keys l) = set (oleaf_keys l') \<union> set (oleaf_keys r)" using S(3) by (metis set_append)
  have "hd (oleaf_keys r) \<in> set (oleaf_keys r)" using S(6) by simp
  then show "halves (GLeaf a l) (GLeaf a ?l) sep (GLeaf b r)"
    unfolding halves_def using sep map nf full ks by (auto simp: same)
qed

lemma inner_halves:
  assumes ok: "gok cl ci d (GInner a n ts)" and full: "oinner_isFull n" and sp: "oinner_split (oraw_inner E b) n = (r, sep, n')"
    and ts: "ts1 = take (Suc (oi_count n')) ts" "ts2 = drop (Suc (oi_count n')) ts"
  defines "m \<equiv> n'\<lparr>oi_lock := oi_lock n + 4\<rparr>"
  shows "gok cl ci d (GInner a m ts1)" "gok cl ci d (GInner b r ts2)" "\<not> oinner_isFull m" "\<not> oinner_isFull r"
    "halves (GInner a n ts) (GInner a m ts1) sep (GInner b r ts2)"
proof -
  have inv: "oinner_inv n" and len: "length (oi_keys n) = ci" using ok by auto
  have raw: "length (oi_keys (oraw_inner E b)) = length (oi_keys n)" "length (oi_children (oraw_inner E b)) = length (oi_keys n)"
    using raw_inner len by simp_all
  note S = oinner_split_spec[OF inv full _ raw sp, unfolded len, OF caps(2)]
  have same: "oinner_keys m = oinner_keys n'" "oinner_kids m = oinner_kids n'" "oinner_inv m = oinner_inv n'"
    "oinner_isFull m = oinner_isFull n'" "length (oi_keys m) = length (oi_keys n')"
    by (simp_all add: m_def oinner_keys_def oinner_kids_def oinner_inv_def oinner_isFull_def)
  have lock: "wfree (oi_lock m)" "wfree (oi_lock r)"
    using ok wfree_add4 S(6) by (simp_all add: m_def wfree_def opt_init_def isLocked_def isObsolete_def)
  note L = oinner_lens[OF S(1)] oinner_lens[OF S(2)]
  have tss: "ts = ts1 @ ts2" using ts by simp
  have lts: "length ts = Suc (oi_count n')+ Suc (oi_count r)"
    using kids_length[OF ok] S(3) L by simp
  have l1: "length ts1 = Suc (length (oinner_keys n'))" and l2: "length ts2 = Suc (length (oinner_keys r))"
    using ts lts L by simp_all
  have kids: "oinner_kids n' = map (\<lambda>t. Some (gaddr t)) ts1" "oinner_kids r = map (\<lambda>t. Some (gaddr t)) ts2"
  proof -
    have "oinner_kids n' @ oinner_kids r = map (\<lambda>t. Some (gaddr t)) ts1 @ map (\<lambda>t. Some (gaddr t)) ts2"
      using ok S(4) tss by simp
    moreover have "length (oinner_kids n') = length (map (\<lambda>t. Some (gaddr t)) ts1)" using l1 L by simp
    ultimately show "oinner_kids n' = map (\<lambda>t. Some (gaddr t)) ts1" "oinner_kids r = map (\<lambda>t. Some (gaddr t)) ts2"
      by simp_all
  qed
  have s: "sorted_wrt (<) (oinner_keys n' @ sep # oinner_keys r)" using oinner_lens(3)[OF inv] S(3) by simp
  note R = rank_middle[OF s, folded S(3)]
  have g1: "x \<le> sep \<and> rank x (oinner_keys n') = j" if "j < length ts1" "x \<in> gkeys (ts1 ! j)" for j x
  proof -
    have "rank x (oinner_keys n) = j" using ok that tss by (auto simp: nth_append)
    then show ?thesis using R[of x] that(1) l1 by (auto split: if_splits)
  qed
  have g2: "sep < x \<and> rank x (oinner_keys r) = j" if j: "j < length ts2" "x \<in> gkeys (ts2 ! j)" for j x
  proof -
    have "ts ! (length ts1 + j) = ts2 ! j" by (simp add: tss)
    then have "rank x (oinner_keys n) = length ts1 + j" using ok that tss by auto
    moreover from this have "\<not> x \<le> sep" using R[of x] l1 rank_le[of x "oinner_keys n'"] by (metis Suc_n_not_le_n add_leD1)
    ultimately show ?thesis using R[of x] l1 by simp
  qed
  have oks: "\<forall>t\<in>set ts1. gok cl ci (d - 1) t" "\<forall>t\<in>set ts2. gok cl ci (d - 1) t" "0 < d" using ok tss by auto
  show "gok cl ci d (GInner a m ts1)" using S(1,9) same lock(1) kids(1) oks g1 len by simp
  show "gok cl ci d (GInner b r ts2)" using S(2,10) lock(2) kids(2) oks g2 len by simp
  show nf: "\<not> oinner_isFull m" "\<not> oinner_isFull r" using S(7,8) same by simp_all
  note route = route_middle[OF s l1, of _ ts2, unfolded map_append, folded S(3)]
  have ks: "set (oinner_keys n) = set (oinner_keys n') \<union> {sep} \<union> set (oinner_keys r)" using S(3) by simp
  have b: "\<And>x. x \<in> set (oinner_keys n') \<Longrightarrow> x \<le> sep" "\<And>x. x \<in> set (oinner_keys r) \<Longrightarrow> sep < x"
    using s by (auto simp: sorted_wrt_append)
  have "oinner_keys r \<noteq> []" using S(2) L(4) by (auto simp: oinner_inv_def)
  then have "hd (oinner_keys r) \<in> set (oinner_keys r)" by simp
  then have ex: "\<exists>y\<in>gkeys (GInner a n ts). sep < y" using b(2) ks by auto
  have gk: "x \<le> sep" if "t \<in> set ts1" "x \<in> gkeys t" for t x using g1 that by (metis in_set_conv_nth)
  have gk': "sep < x" if "t \<in> set ts2" "x \<in> gkeys t" for t x using g2 that by (metis in_set_conv_nth)
  show "halves (GInner a n ts) (GInner a m ts1) sep (GInner b r ts2)"
    unfolding halves_def
  proof (intro conjI ex)
    show "gkeys (GInner a m ts1) \<union> gkeys (GInner b r ts2) \<subseteq> gkeys (GInner a n ts)" using ks by (auto simp: tss same)
  qed (use b gk gk' ks nf full in \<open>auto simp: route same tss\<close>)
qed

lemma node_halves:
  assumes ok: "gok cl ci d t" and full: "nfull (gnode t)" and sp: "nsplit E b (gnode t) = (r, sep, nd')"
  shows "\<exists>t1 t2. gnode t1 = bump nd' \<and> gaddr t1 = gaddr t \<and> gnode t2 = r \<and> gaddr t2 = b \<and> gok cl ci d t1 \<and> gok cl ci d t2 \<and>
    \<not> nfull (gnode t1) \<and> \<not> nfull (gnode t2) \<and> halves t t1 sep t2"
proof (cases t)
  case (GLeaf a l)
  obtain r' l' where s: "oleaf_split (oraw_leaf E b) l = (r', sep, l')" "r = OLeaf r'" "nd' = OLeaf l'"
    using sp GLeaf by (auto split: prod.splits)
  have w: "ol_lock l' = ol_lock l" using s(1) by (auto simp: oleaf_split_def Let_def)
  have f: "oleaf_isFull l" using full GLeaf by simp
  note H = leaf_halves[OF ok[unfolded GLeaf] f s(1)]
  show ?thesis
    using H GLeaf s(2,3) w
    by (intro exI[of _ "GLeaf a (l'\<lparr>ol_lock := ol_lock l + 4\<rparr>)"] exI[of _ "GLeaf b r'"]) (simp add: bump_def oleaf_isFull_def)
next
  case (GInner a n ts)
  obtain r' n' where s: "oinner_split (oraw_inner E b) n = (r', sep, n')" "r = OInner r'" "nd' = OInner n'"
    using sp GInner by (auto split: prod.splits)
  have w: "oi_lock n' = oi_lock n" using s(1) by (auto simp: oinner_split_def Let_def)
  have f: "oinner_isFull n" using full GInner by simp
  note H = inner_halves[OF ok[unfolded GInner] f s(1) refl refl]
  show ?thesis
    using H GInner s(2,3) w
    by (intro exI[of _ "GInner a (n'\<lparr>oi_lock := oi_lock n + 4\<rparr>) (take (Suc (oi_count n')) ts)"]
        exI[of _ "GInner b r' (drop (Suc (oi_count n')) ts)"]) (simp add: bump_def)
qed

text \<open>The parent after the split of its child \<open>j\<close>.\<close>

lemma parent_split:
  assumes ok: "gok cl ci d (GInner p n ts)" and j: "j < length ts" and room: "\<not> oinner_isFull n"
    and t1: "gaddr t1 = gaddr (ts ! j)" "gok cl ci (d - 1) t1" and t2: "gaddr t2 = b" "gok cl ci (d - 1) t2"
    and h: "halves (ts ! j) t1 sep t2"
  defines "n' \<equiv> (oinner_insert sep (Some b) n)\<lparr>oi_lock := oi_lock n + 4\<rparr>" and "ts' \<equiv> insert_at (Suc j) t2 (ts[j := t1])"
  shows "gok cl ci d (GInner p n' ts')" "oinner_keys n' = insert_at j sep (oinner_keys n)" "rank sep (oinner_keys n) = j"
    "gmap (GInner p n' ts') = gmap (GInner p n ts)" "gkeys (GInner p n' ts') \<subseteq> gkeys (GInner p n ts)"
proof -
  let ?ks = "oinner_keys n" and ?n = "oinner_insert sep (Some b) n"
  have inv: "oinner_inv n" and kids: "oinner_kids n = map (\<lambda>t. Some (gaddr t)) ts" using ok by auto
  note s = oinner_lens(3)[OF inv] and lts = kids_length[OF ok]
  obtain y where y: "sep \<in> gkeys (ts ! j)" "y \<in> gkeys (ts ! j)" "sep < y" using h by (auto simp: halves_def)
  have rk: "rank sep ?ks = j" "rank y ?ks = j" using ok y j by auto
  then show "rank sep ?ks = j" by simp
  note I = oinner_insert_spec[OF inv room rank_between[OF s rk y(3)] rk(1)[symmetric], of "Some b"]
  have same: "oinner_keys n' = oinner_keys ?n" "oinner_kids n' = oinner_kids ?n"
    "oinner_inv n' = oinner_inv ?n" "length (oi_keys n') = length (oi_keys ?n)"
    by (simp_all add: n'_def oinner_keys_def oinner_kids_def oinner_inv_def)
  show ks': "oinner_keys n' = insert_at j sep ?ks" using I(2) same by simp
  have H: "gkeys t1 \<subseteq> gkeys (ts ! j) \<inter> {..sep}" "gkeys t2 \<subseteq> gkeys (ts ! j) \<inter> {sep<..}" using h by (auto simp: halves_def)
  have rks: "\<forall>i<length ts. \<forall>x\<in>gkeys (ts ! i). rank x ?ks = i" using ok by simp
  note ranks = ranks_insert[OF lts rk(1) rks H, folded ts'_def ks']
  have set': "set ts' \<subseteq> insert t2 (insert t1 (set ts))" using set_update_subset_insert[of ts j t1] by (auto simp: ts'_def)
  have "map (\<lambda>t. Some (gaddr t)) (ts[j := t1]) = map (\<lambda>t. Some (gaddr t)) ts"
    using t1(1) j by (simp add: map_update list_update_same_conv)
  then have kids': "oinner_kids n' = map (\<lambda>t. Some (gaddr t)) ts'"
    using I(3) same kids t2(1) by (simp add: ts'_def map_insert_at)
  have free: "wfree (oi_lock n')" using ok wfree_add4 by (simp add: n'_def)
  show "gok cl ci d (GInner p n' ts')"
    using ok I(1,5) same kids' free ranks set' t1(2) t2(2) by auto
  show "gmap (GInner p n' ts') = gmap (GInner p n ts)"
    using h j
    by (intro ext) (simp add: halves_def route_insert[OF lts rk(1), where ?u1.0 = t1 and ?u2.0 = t2, folded ts'_def ks'])
  have "gkeys t1 \<union> gkeys t2 \<subseteq> gkeys (ts ! j)" "sep \<in> gkeys (ts ! j)" "ts ! j \<in> set ts" using h j by (auto simp: halves_def)
  then show "gkeys (GInner p n' ts') \<subseteq> gkeys (GInner p n ts)" using set' ks' by (auto; blast)
qed

end

section \<open>One attempt\<close>

text \<open>
  What an attempt on the subtree \<open>t\<close> does: it ends with a subtree \<open>t'\<close> at the same address that
  holds the new pair, or that holds the same pairs and has fewer full nodes on the path of the key.
\<close>

definition attempt_post ::
  "'k::linorder \<Rightarrow> 'v \<Rightarrow> ('k, 'v) btree \<Rightarrow> ('k, 'v) otree \<Rightarrow> bool \<Rightarrow> ('k, 'v) btree \<Rightarrow> ('k, 'v) otree \<Rightarrow> bool" where
  "attempt_post k v s t ok s' t' \<longleftrightarrow>
     gaddr t' = gaddr t \<and> oroot s' = oroot s \<and> onext s \<le> onext s' \<and> stored (oheap s') t' \<and> distinct (map fst (cells t')) \<and>
     (\<forall>a\<in>gaddrs t'. a \<in> gaddrs t \<or> onext s \<le> a \<and> a < onext s') \<and> (\<forall>a. a \<notin> gaddrs t' \<longrightarrow> oheap s' a = oheap s a) \<and>
     gkeys t' \<subseteq> insert k (gkeys t) \<and> (if ok then gmap t' = (gmap t)(k \<mapsto> v) else gmap t' = gmap t \<and> fewer_full k t' t)"

lemma cells_split: "cells t = (gaddr t, gnode t) # tl (cells t)"
  by (cases t) auto

lemma oleaf_insert_lock: "oleaf_insert k v (l\<lparr>ol_lock := w\<rparr>) = (oleaf_insert k v l)\<lparr>ol_lock := w\<rparr>"
  by (simp add: oleaf_insert_def Let_def)

lemma oleaf_insert_word: "ol_lock (oleaf_insert k v l) = ol_lock l"
  by (simp add: oleaf_insert_def Let_def)

lemma insert_leaf_state:
  assumes a: "oheap s a = Some (OLeaf l)" and p: "check_parent parent s = Some False" "\<And>q w. parent = Some (q, w) \<Longrightarrow> q \<noteq> a"
  shows "insert_leaf k v a (ol_lock l) parent s = Some (True, oput a (OLeaf ((oleaf_insert k v l)\<lparr>ol_lock := ol_lock l + 4\<rparr>)) s)"
proof -
  have "check_parent parent (oput a x s) = Some False" for x
    using p by (auto simp: check_parent_def check_node_def oput_def split: option.splits)
  then show ?thesis
    using upgrade_node_ok[OF a]
    by (simp add: insert_leaf_def oleaf_at_def unlock_node_def oput_def oleaf_insert_lock oleaf_insert_word writeUnlock_def add.assoc)
qed

context olc_env begin

lemma attempt_leaf:
  assumes ok: "gok cl ci d (GLeaf a l)" and st: "stored (oheap s) (GLeaf a l)" and room: "\<not> oleaf_isFull l"
    and p: "check_parent parent s = Some False" "\<And>q w. parent = Some (q, w) \<Longrightarrow> q \<noteq> a"
  shows "\<exists>s' t'. insert_from E k v a (ol_lock l) parent s = Some (True, s') \<and> gok cl ci d t' \<and> attempt_post k v s (GLeaf a l) True s' t'"
proof -
  have a: "oheap s a = Some (OLeaf l)" using stored_node[OF st] by simp
  let ?l = "(oleaf_insert k v l)\<lparr>ol_lock := ol_lock l + 4\<rparr>"
  have inv: "oleaf_inv l" and free: "wfree (ol_lock l + 4)" using ok wfree_add4 by simp_all
  note I = oleaf_insert_spec[OF inv room, of k v]
  have same: "oleaf_inv ?l" "oleaf_map ?l = (oleaf_map l)(k \<mapsto> v)" "set (oleaf_keys ?l) = insert k (set (oleaf_keys l))"
    using I(1-3) by (simp_all add: oleaf_inv_def oleaf_map_def oleaf_keys_def oleaf_vals_def)
  have m: "gmap (GLeaf a x) = oleaf_map x" for x :: "('k, 'v) oleaf" by (rule ext) simp
  have "gok cl ci d (GLeaf a ?l)" using ok same(1) I(5) free by simp
  moreover have "attempt_post k v s (GLeaf a l) True (oput a (OLeaf ?l) s) (GLeaf a ?l)"
    using same by (auto simp: attempt_post_def oput_def stored_def m)
  moreover have "insert_from E k v a (ol_lock l) parent s = Some (True, oput a (OLeaf ?l) s)"
    using a room by (subst insert_from.simps) (simp add: insert_leaf_state[OF a p])
  ultimately show ?thesis by blast
qed

text \<open>The split of a full child.\<close>

lemma attempt_split:
  assumes ok: "gok cl ci d (GInner p n ts)" and st: "stored (oheap s) (GInner p n ts)" and room: "\<not> oinner_isFull n"
    and dist: "distinct (map fst (cells (GInner p n ts)))" and fresh: "\<forall>a\<in>gaddrs (GInner p n ts). a < onext s"
    and j: "j = rank k (oinner_keys n)" and full: "nfull (gnode (ts ! j))"
  shows "\<exists>s' t'. split_full E (gaddr (ts ! j)) (oword (gnode (ts ! j))) (Some (p, oi_lock n)) s = Some s' \<and>
    gok cl ci d t' \<and> attempt_post k v s (GInner p n ts) False s' t'"
proof -
  note K = kid_at[OF ok j]
  let ?c = "ts ! j" and ?b = "onext s"
  obtain r sep nd' where sp: "nsplit E ?b (gnode ?c) = (r, sep, nd')" by (metis surj_pair)
  obtain t1 t2 where t1: "gnode t1 = bump nd'" "gaddr t1 = gaddr ?c" "gok cl ci (d - 1) t1" "\<not> nfull (gnode t1)"
    and t2: "gnode t2 = r" "gaddr t2 = ?b" "gok cl ci (d - 1) t2" and h: "halves ?c t1 sep t2"
    using node_halves[OF K(4) full sp] by blast
  define n' where "n' = (oinner_insert sep (Some ?b) n)\<lparr>oi_lock := oi_lock n + 4\<rparr>"
  define ts' where "ts' = insert_at (Suc j) t2 (ts[j := t1])"
  note P = parent_split[OF ok K(1) room t1(2,3) t2(2,3) h, folded n'_def ts'_def]
  have hc: "oheap s (gaddr ?c) = Some (gnode ?c)" using stored_node[OF stored_kid[OF st K(6)]] .
  have hp: "oheap s p = Some (OInner n)" using stored_node[OF st] by simp
  have ts: "ts = take j ts @ ?c # drop (Suc j) ts" using id_take_nth_drop[OF K(1)] .
  have ts'2: "ts' = take j ts @ t1 # t2 # drop (Suc j) ts"
    using K(1) by (simp add: ts'_def insert_at_def upd_conv_take_nth_drop take_Cons' drop_Cons')
  define X where "X = concat (map cells (take j ts))"
  define Y where "Y = concat (map cells (drop (Suc j) ts))"
  define C1 where "C1 = tl (cells t1)"
  define C2 where "C2 = tl (cells t2)"
  have cc: "cells ?c = (gaddr ?c, gnode ?c) # C1 @ C2" using h cells_split[of ?c] by (simp add: halves_def C1_def C2_def)
  have cold: "cells (GInner p n ts) = (p, OInner n) # X @ ((gaddr ?c, gnode ?c) # C1 @ C2) @ Y"
    by (subst ts) (simp add: X_def Y_def cc)
  have cnew: "cells (GInner p n' ts') = (p, OInner n') # X @ ((gaddr ?c, bump nd') # C1) @ ((?b, r) # C2) @ Y"
    using cells_split[of t1] cells_split[of t2] t1 t2 by (simp add: ts'2 X_def Y_def C1_def C2_def)
  define h' where "h' = (oheap s)(gaddr ?c \<mapsto> bump nd', ?b \<mapsto> r, p \<mapsto> OInner n')"
  define s' where "s' = s\<lparr>oheap := h', onext := Suc ?b\<rparr>"
  have nb: "?b \<notin> gaddrs (GInner p n ts)" using fresh by blast
  have ne: "p \<noteq> gaddr ?c" "?b \<noteq> gaddr ?c" "?b \<noteq> p" using dist nb unfolding cold by auto
  have run: "split_full E (gaddr ?c) (oword (gnode ?c)) (Some (p, oi_lock n)) s = Some s'"
    using split_full_kid[OF hp hc ne sp] by (simp add: s'_def h'_def n'_def bump_def oinner_insert_word)
  define Z where "Z = fst ` set (X @ C1 @ C2 @ Y)"
  have "p \<notin> Z" "gaddr ?c \<notin> Z" "?b \<notin> Z"
    using dist nb unfolding cold Z_def image_set map_append list.map set_append by (simp_all add: image_Un)
  then have frame: "x \<in> Z \<Longrightarrow> h' x = oheap s x" for x by (auto simp: h'_def)
  have frame: "h' x = oheap s x" if "(x, y) \<in> set (X @ C1 @ C2 @ Y)" for x y
    using that unfolding Z_def by (intro frame) (metis Z_def fst_conv image_eqI)
  have "\<forall>(x, y)\<in>set (X @ C1 @ C2 @ Y). h' x = Some y"
    using st frame unfolding stored_def cold by fastforce
  moreover have "h' p = Some (OInner n')" "h' (gaddr ?c) = Some (bump nd')" "h' ?b = Some r" using ne by (simp_all add: h'_def)
  ultimately have st': "stored h' (GInner p n' ts')" unfolding stored_def cnew by auto
  have d': "distinct (map fst (cells (GInner p n' ts')))" using dist nb unfolding cold cnew by auto
  have addrs: "gaddrs (GInner p n' ts') = insert ?b (gaddrs (GInner p n ts))" unfolding cnew cold by auto
  then have out: "h' x = oheap s x" if "x \<notin> gaddrs (GInner p n' ts')" for x
    using that unfolding cnew by (auto simp: h'_def)
  have route: "map f ts' ! rank k (oinner_keys n') = f (if k \<le> sep then t1 else t2)" for f :: "('k, 'v) otree \<Rightarrow> nat"
    using route_insert[OF kids_length[OF ok] P(3), of f t2 t1 k] j by (simp add: ts'_def P(2))
  have "fewer_full k (GInner p n' ts') (GInner p n ts)"
    using room h j K(1) by (simp add: fewer_full_def route halves_def)
  then have rest: "attempt_post k v s (GInner p n ts) False s' (GInner p n' ts')"
    using st' d' addrs out P(4,5) unfolding attempt_post_def by (auto simp: s'_def)
  show ?thesis using run P(1) rest by blast
qed

text \<open>The effect of an attempt on a child is one on its parent.\<close>

lemma attempt_lift:
  assumes ok: "gok cl ci d (GInner p n ts)" and st: "stored (oheap s) (GInner p n ts)" and room: "\<not> oinner_isFull n"
    and dist: "distinct (map fst (cells (GInner p n ts)))" and fresh: "\<forall>a\<in>gaddrs (GInner p n ts). a < onext s"
    and j: "j = rank k (oinner_keys n)" and c': "gok cl ci (d - 1) c'" and post: "attempt_post k v s (ts ! j) b s' c'"
  shows "gok cl ci d (GInner p n (ts[j := c']))" "attempt_post k v s (GInner p n ts) b s' (GInner p n (ts[j := c']))"
proof -
  note K = kid_at[OF ok j]
  let ?c = "ts ! j" and ?t = "GInner p n (ts[j := c'])"
  have pa: "gaddr c' = gaddr ?c" and pst: "stored (oheap s') c'" and pd: "distinct (map fst (cells c'))"
    and pad: "\<And>a. a \<in> gaddrs c' \<Longrightarrow> a \<in> gaddrs ?c \<or> onext s \<le> a \<and> a < onext s'"
    and pfr: "\<And>a. a \<notin> gaddrs c' \<Longrightarrow> oheap s' a = oheap s a" and pk: "gkeys c' \<subseteq> insert k (gkeys ?c)"
    and proot: "oroot s' = oroot s" "onext s \<le> onext s'"
    using post unfolding attempt_post_def by blast+
  have kids: "map (\<lambda>t. Some (gaddr t)) (ts[j := c']) = map (\<lambda>t. Some (gaddr t)) ts"
    using pa K(1) by (simp add: map_update list_update_same_conv)
  have rk: "rank x (oinner_keys n) = i" if "i < length ts" "x \<in> gkeys (ts[j := c'] ! i)" for i x
    using ok that pk K(1) j by (cases "i = j") auto
  have set': "set (ts[j := c']) \<subseteq> insert c' (set ts)" by (rule set_update_subset_insert)
  show "gok cl ci d ?t" using ok kids rk set' c' by auto
  define X where "X = concat (map cells (take j ts))"
  define Y where "Y = concat (map cells (drop (Suc j) ts))"
  have cold: "cells (GInner p n ts) = (p, OInner n) # X @ cells ?c @ Y"
    by (subst id_take_nth_drop[OF K(1)]) (simp add: X_def Y_def)
  have cnew: "cells ?t = (p, OInner n) # X @ cells c' @ Y" using K(1) by (simp add: upd_conv_take_nth_drop X_def Y_def)
  define Z where "Z = fst ` set ((p, OInner n) # X @ Y)"
  have Zold: "a \<notin> gaddrs ?c \<and> a < onext s" if "a \<in> Z" for a
    using that dist fresh unfolding cold Z_def by (auto simp: image_Un)
  then have Z: "a \<notin> gaddrs c'" if "a \<in> Z" for a using pad[of a] that by (meson leD)
  have "\<forall>(a, nd)\<in>set ((p, OInner n) # X @ Y). oheap s' a = Some nd"
  proof clarify
    fix a nd assume a: "(a, nd) \<in> set ((p, OInner n) # X @ Y)"
    then have "a \<in> Z" unfolding Z_def by (metis fst_conv image_eqI)
    then have "oheap s' a = oheap s a" using Z pfr by blast
    then show "oheap s' a = Some nd" using st a unfolding stored_def cold by auto
  qed
  then have st': "stored (oheap s') ?t" using pst unfolding stored_def cnew by auto
  have "fst ` set (cells c') \<inter> Z = {}" using Z by blast
  then have d': "distinct (map fst (cells ?t))" using dist pd unfolding cold cnew Z_def by (auto simp: image_Un)
  have ad: "a \<in> gaddrs (GInner p n ts) \<or> onext s \<le> a \<and> a < onext s'" if "a \<in> gaddrs ?t" for a
    using that pad[of a] unfolding cold cnew by (auto simp: image_Un)
  have fr: "oheap s' a = oheap s a" if "a \<notin> gaddrs ?t" for a
    using that pfr[of a] unfolding cnew by (auto simp: image_Un)
  have ks: "gkeys ?t \<subseteq> insert k (gkeys (GInner p n ts))" using set' pk K(6) by (auto; blast)
  have pm: "gmap c' x = (if b \<and> x = k then Some v else gmap ?c x)" for x using post by (auto simp: attempt_post_def split: if_splits)
  have m: "gmap ?t x = (if b \<and> x = k then Some v else gmap (GInner p n ts) x)" for x
  proof -
    have "rank x (oinner_keys n) < length ts" using kids_length[OF ok] by (simp add: less_Suc_eq_le)
    then show ?thesis using pm[of x] j by (cases "rank x (oinner_keys n) = j") auto
  qed
  have gm: "gmap ?t = (if b then (gmap (GInner p n ts))(k \<mapsto> v) else gmap (GInner p n ts))"
    by (intro ext) (simp only: m, simp)
  have "fewer_full k ?t (GInner p n ts)" if "fewer_full k c' ?c"
    using that room K(1) j by (auto simp: fewer_full_def)
  then have "if b then gmap ?t = (gmap (GInner p n ts))(k \<mapsto> v) else gmap ?t = gmap (GInner p n ts) \<and> fewer_full k ?t (GInner p n ts)"
    using gm post by (simp add: attempt_post_def split: if_splits)
  then show "attempt_post k v s (GInner p n ts) b s' ?t"
    unfolding attempt_post_def using st' d' ad fr ks proot by (metis gaddr.simps(2))
qed

lemma insert_from_full:
  assumes "oheap s a = Some nd" "nfull nd"
  shows "insert_from E k v a w parent s = map_option (Pair False) (split_full E a w parent s)"
  using assms by (subst insert_from.simps) (cases nd; cases "split_full E a w parent s"; simp)

lemma insert_from_spec:
  assumes "gok cl ci d t" "stored (oheap s) t" "\<not> nfull (gnode t)" "distinct (map fst (cells t))" "\<forall>a\<in>gaddrs t. a < onext s"
    "check_parent parent s = Some False" "\<And>q w. parent = Some (q, w) \<Longrightarrow> q \<notin> gaddrs t"
  shows "\<exists>b s' t'. insert_from E k v (gaddr t) (oword (gnode t)) parent s = Some (b, s') \<and> gok cl ci d t' \<and> attempt_post k v s t b s' t'"
  using assms
proof (induction t arbitrary: d parent)
  case (GLeaf a l)
  have np: "\<And>q w. parent = Some (q, w) \<Longrightarrow> q \<noteq> a" using GLeaf.prems(7) by fastforce
  have "\<not> oleaf_isFull l" using GLeaf.prems(3) by simp
  then have "\<exists>s' t'. insert_from E k v a (ol_lock l) parent s = Some (True, s') \<and> gok cl ci d t' \<and>
      attempt_post k v s (GLeaf a l) True s' t'"
    by (rule attempt_leaf[OF GLeaf.prems(1,2) _ GLeaf.prems(6)]) (rule np)
  then show ?case unfolding gaddr.simps gnode.simps oword.simps by blast
next
  case (GInner p n ts)
  define j where "j = rank k (oinner_keys n)"
  let ?c = "ts ! j"
  note K = kid_at[OF GInner.prems(1) j_def]
  have st: "stored (oheap s) ?c" using stored_kid[OF GInner.prems(2) K(6)] .
  have hp: "oheap s p = Some (OInner n)" and cp: "check_node p (oi_lock n) s = Some False"
    using stored_node[OF GInner.prems(2)] check_ok[OF GInner.prems(2)] by simp_all
  have cp': "check_parent (Some (p, oi_lock n)) s = Some False" using cp by (simp add: check_parent_def)
  have room: "\<not> oinner_isFull n" using GInner.prems(3) by simp
  have run: "insert_from E k v p (oi_lock n) parent s = insert_from E k v (gaddr ?c) (oword (gnode ?c)) (Some (p, oi_lock n)) s"
    using hp room by (subst insert_from.simps) (simp add: GInner.prems(6) K(2,3) cp read_ok[OF K(4) st])
  show ?case
  proof (cases "nfull (gnode ?c)")
    case True
    from attempt_split[OF GInner.prems(1,2) room GInner.prems(4,5) j_def True, of v] obtain s' t'
      where s': "split_full E (gaddr ?c) (oword (gnode ?c)) (Some (p, oi_lock n)) s = Some s'"
        "gok cl ci d t'" "attempt_post k v s (GInner p n ts) False s' t'" by blast
    have "insert_from E k v p (oi_lock n) parent s = Some (False, s')"
      using run insert_from_full[OF stored_node[OF st] True] s'(1) by simp
    then show ?thesis using s'(2,3) unfolding gaddr.simps gnode.simps oword.simps by blast
  next
    case False
    have sub: "set (cells ?c) \<subseteq> set (cells (GInner p n ts))" using K(6) by auto
    have dc: "distinct (map fst (cells ?c))" and pc: "p \<notin> gaddrs ?c"
      using GInner.prems(4) K(6) by (auto simp: distinct_concat_iff map_concat)
    have "\<exists>b s' t'. insert_from E k v (gaddr ?c) (oword (gnode ?c)) (Some (p, oi_lock n)) s = Some (b, s') \<and>
        gok cl ci (d - 1) t' \<and> attempt_post k v s ?c b s' t'"
      using GInner.IH[OF K(6) K(4) st False dc _ cp'] GInner.prems(5) sub pc by blast
    then obtain b s' c' where c': "insert_from E k v p (oi_lock n) parent s = Some (b, s')"
        "gok cl ci (d - 1) c'" "attempt_post k v s ?c b s' c'" unfolding run by blast
    from attempt_lift[OF GInner.prems(1,2) room GInner.prems(4,5) j_def c'(2,3)] c'(1) show ?thesis
      unfolding gaddr.simps gnode.simps oword.simps by blast
  qed
qed

section \<open>The whole insertion\<close>

lemma root_node_facts:
  "oinner_keys (root_node E a k l r) = [k]" "oinner_kids (root_node E a k l r) = [Some l, Some r]"
  "oinner_inv (root_node E a k l r)" "length (oi_keys (root_node E a k l r)) = ci" "wfree (oi_lock (root_node E a k l r))"
  "\<not> oinner_isFull (root_node E a k l r)"
proof -
  obtain x xs where x: "oi_keys (oraw_inner E a) = x # xs" using raw_inner(1)[of a] caps by (cases "oi_keys (oraw_inner E a)") auto
  obtain y z zs where y: "oi_children (oraw_inner E a) = y # z # zs"
    using raw_inner(2)[of a] caps by (cases "oi_children (oraw_inner E a)"; cases "tl (oi_children (oraw_inner E a))") auto
  show "oinner_keys (root_node E a k l r) = [k]" "oinner_kids (root_node E a k l r) = [Some l, Some r]"
    by (simp_all add: root_node_def oinner_keys_def oinner_kids_def Let_def x y)
  show "oinner_inv (root_node E a k l r)" "length (oi_keys (root_node E a k l r)) = ci" "\<not> oinner_isFull (root_node E a k l r)"
    using raw_inner[of a] caps x by (simp_all add: root_node_def oinner_inv_def oinner_isFull_def Let_def)
  show "wfree (oi_lock (root_node E a k l r))"
    by (simp add: root_node_def Let_def wfree_def opt_init_def isLocked_def isObsolete_def)
qed

lemma root_split:
  assumes ok: "btree_ok cl ci s t" and full: "nfull (gnode t)"
  shows "\<exists>s' t'. split_full E (gaddr t) (oword (gnode t)) None s = Some s' \<and> btree_ok cl ci s' t' \<and>
    gmap t' = gmap t \<and> fewer_full k t' t"
proof -
  obtain d where o: "oroot s = gaddr t" "stored (oheap s) t" "distinct (map fst (cells t))" "gok cl ci d t"
    "\<And>a. onext s \<le> a \<Longrightarrow> a \<notin> gaddrs t" using ok unfolding btree_ok_def by blast
  let ?b = "onext s" and ?a = "gaddr t"
  obtain r sep nd' where sp: "nsplit E ?b (gnode t) = (r, sep, nd')" by (metis surj_pair)
  obtain t1 t2 where t1: "gnode t1 = bump nd'" "gaddr t1 = ?a" "gok cl ci d t1"
    and t2: "gnode t2 = r" "gaddr t2 = ?b" "gok cl ci d t2" and h: "halves t t1 sep t2"
    using node_halves[OF o(4) full sp] by blast
  define n where "n = root_node E (Suc ?b) sep ?a ?b"
  note N = root_node_facts[of "Suc ?b" sep ?a ?b, folded n_def]
  define t' where "t' = GInner (Suc ?b) n [t1, t2]"
  define s' where "s' = s\<lparr>oheap := (oheap s)(?a \<mapsto> bump nd', ?b \<mapsto> r, Suc ?b \<mapsto> OInner n), onext := Suc (Suc ?b), oroot := Suc ?b\<rparr>"
  have nb: "?b \<notin> gaddrs t" "Suc ?b \<notin> gaddrs t" using o(5) by simp_all
  have "?a \<in> gaddrs t" using gaddr_in by force
  then have ne: "?b \<noteq> ?a" "Suc ?b \<noteq> ?a" using nb by metis+
  have run: "split_full E ?a (oword (gnode t)) None s = Some s'"
    using split_full_root[OF stored_node[OF o(2)] ne o(1) sp] by (simp add: s'_def n_def)
  define C where "C = tl (cells t)"
  have cold: "cells t = (?a, gnode t) # C" using cells_split by (simp add: C_def)
  have hC: "tl (cells t1) @ tl (cells t2) = C" using h by (simp add: halves_def C_def)
  have cnew: "cells t' = (Suc ?b, OInner n) # ((?a, bump nd') # tl (cells t1)) @ ((?b, r) # tl (cells t2))"
    using cells_split[of t1] cells_split[of t2] t1 t2 by (simp add: t'_def)
  have setC: "set (cells t') = {(Suc ?b, OInner n), (?a, bump nd'), (?b, r)} \<union> set C" unfolding cnew hC[symmetric] by auto
  have nC: "?a \<notin> fst ` set C" "?b \<notin> fst ` set C" "Suc ?b \<notin> fst ` set C" using o(3) nb unfolding cold by simp_all
  have "\<forall>(x, y)\<in>set C. oheap s' x = Some y"
  proof clarify
    fix x y assume xy: "(x, y) \<in> set C"
    then have "x \<in> fst ` set C" by (metis fst_conv image_eqI)
    then have "x \<noteq> ?a" "x \<noteq> ?b" "x \<noteq> Suc ?b" using nC by metis+
    then have "oheap s' x = oheap s x" by (simp add: s'_def)
    then show "oheap s' x = Some y" using o(2) xy unfolding stored_def cold by auto
  qed
  moreover have "oheap s' ?a = Some (bump nd')" "oheap s' ?b = Some r" "oheap s' (Suc ?b) = Some (OInner n)"
    using ne by (simp_all add: s'_def)
  ultimately have st: "stored (oheap s') t'" unfolding stored_def setC by auto
  have "distinct (map fst (tl (cells t1) @ tl (cells t2)))" using o(3) unfolding hC cold by simp
  moreover have "fst ` set C = fst ` set (tl (cells t1)) \<union> fst ` set (tl (cells t2))" unfolding hC[symmetric] by auto
  ultimately have dist: "distinct (map fst (cells t'))" unfolding cnew using ne nC by auto
  have ks: "\<And>x. x \<in> gkeys t1 \<Longrightarrow> x \<le> sep" "\<And>x. x \<in> gkeys t2 \<Longrightarrow> sep < x" using h by (auto simp: halves_def)
  have g: "gok cl ci (Suc d) t'"
    using N t1(2,3) t2(2,3) ks by (auto simp: t'_def nth_Cons' less_Suc_eq not_less)
  have fr: "x \<notin> gaddrs t'" if "onext s' \<le> x" for x
  proof -
    have "gaddrs t' = insert (Suc ?b) (insert ?b (gaddrs t))" unfolding setC cold by auto
    moreover have "x \<notin> gaddrs t" using o(5)[of x] that by (simp add: s'_def)
    ultimately show ?thesis using that by (auto simp: s'_def)
  qed
  have "btree_ok cl ci s' t'"
    unfolding btree_ok_def using st dist g fr by (auto simp: s'_def t'_def)
  moreover have "gmap t' = gmap t" using h by (intro ext) (auto simp: t'_def N halves_def)
  moreover have "fewer_full k t' t" using h N(6) by (auto simp: fewer_full_def t'_def N(1) halves_def)
  ultimately show ?thesis using run by blast
qed

lemma insert_round:
  assumes ok: "btree_ok cl ci s t"
  shows "\<exists>b s' t'. insert_from E k v (oroot s) (oword (gnode t)) None s = Some (b, s') \<and> btree_ok cl ci s' t' \<and>
    (if b then gmap t' = (gmap t)(k \<mapsto> v) else gmap t' = gmap t \<and> fewer_full k t' t)"
proof -
  obtain d where o: "oroot s = gaddr t" "stored (oheap s) t" "distinct (map fst (cells t))" "gok cl ci d t"
    "\<And>a. onext s \<le> a \<Longrightarrow> a \<notin> gaddrs t" using ok unfolding btree_ok_def by blast
  show ?thesis
  proof (cases "nfull (gnode t)")
    case True
    from root_split[OF ok True, of k] obtain s' t' where s': "split_full E (gaddr t) (oword (gnode t)) None s = Some s'"
        "btree_ok cl ci s' t'" "gmap t' = gmap t" "fewer_full k t' t" by blast
    have "insert_from E k v (oroot s) (oword (gnode t)) None s = Some (False, s')"
      using insert_from_full[OF stored_node[OF o(2)] True] s'(1) o(1) by simp
    then show ?thesis using s' by auto
  next
    case False
    have "\<forall>a\<in>gaddrs t. a < onext s" using o(5) by (meson leI)
    from insert_from_spec[OF o(4,2) False o(3) this, of None k v] obtain b s' t'
      where s': "insert_from E k v (oroot s) (oword (gnode t)) None s = Some (b, s')" "gok cl ci d t'" "attempt_post k v s t b s' t'"
      by (auto simp: check_parent_def o(1))
    have "a \<notin> gaddrs t'" if "onext s' \<le> a" for a
      using s'(3) o(5)[of a] that unfolding attempt_post_def by (meson dual_order.trans leD)
    then have "btree_ok cl ci s' t'" using s'(2,3) o(1) unfolding btree_ok_def attempt_post_def by auto
    then show ?thesis using s' unfolding attempt_post_def by blast
  qed
qed

lemma olc_insert_spec:
  assumes "btree_ok cl ci s t"
  shows "\<exists>s' t'. olc_insert E k v s = Some s' \<and> btree_ok cl ci s' t' \<and> gmap t' = (gmap t)(k \<mapsto> v)"
  using assms
proof (induction "(full_count k t, full_depth k t)" arbitrary: s t rule: wf_induct_rule[OF wf_lex_prod[OF wf_less_than wf_less_than]])
  case 1
  obtain d where o: "oroot s = gaddr t" "stored (oheap s) t" "gok cl ci d t" using 1(2) unfolding btree_ok_def by blast
  obtain b s1 t1 where r: "insert_from E k v (oroot s) (oword (gnode t)) None s = Some (b, s1)" "btree_ok cl ci s1 t1"
    "if b then gmap t1 = (gmap t)(k \<mapsto> v) else gmap t1 = gmap t \<and> fewer_full k t1 t" using insert_round[OF 1(2)] by blast
  have run: "olc_insert E k v s = (if b then Some s1 else olc_insert E k v s1)"
    by (subst olc_insert.simps) (use r(1) o(1) read_ok[OF o(3,2)] in simp)
  show ?case
  proof (cases b)
    case False
    then have "((full_count k t1, full_depth k t1), full_count k t, full_depth k t) \<in> less_than <*lex*> less_than"
      using r(3) by (simp add: fewer_full_def)
    from 1(1)[OF this r(2)] False r(3) run show ?thesis by simp
  qed (use r run in auto)
qed

lemma btree_new_ok: "btree_ok cl ci (btree_new E) (GLeaf 0 (oleaf_new (oraw_leaf E 0)))" (is ?ok)
  "gmap (GLeaf 0 (oleaf_new (oraw_leaf E 0))) = Map.empty"
proof -
  show ?ok
    using raw_leaf[of 0] caps
    by (auto simp: btree_ok_def btree_new_def stored_def oleaf_new_def oleaf_inv_def wfree_def opt_init_def isLocked_def isObsolete_def)
  show "gmap (GLeaf 0 (oleaf_new (oraw_leaf E 0))) = Map.empty"
    by (intro ext) (simp add: oleaf_map_def oleaf_new_def oleaf_keys_def)
qed

end

end
