(* ===== verification/OlcMap.thy ===== *)
theory OlcMap
  imports OlcInsert MapSpec
begin

text \<open>
  The tree of \<open>BTreeOLC.h\<close> as an implementation of the interface \<open>unbounded_store\<close>, for keys and
  payloads of eight bytes, whatever the memory that \<open>new\<close> returns contains.
\<close>

definition oenv_of ::
  "nat \<Rightarrow> nat \<Rightarrow> (addr \<Rightarrow> nat \<Rightarrow> 'k) \<Rightarrow> (addr \<Rightarrow> nat \<Rightarrow> 'v) \<Rightarrow> (addr \<Rightarrow> nat \<Rightarrow> ptr) \<Rightarrow> ('k, 'v) oenv" where
  "oenv_of key_size payload_size gk gv gp =
     (let cl = maxEntries key_size payload_size; ci = maxEntries key_size 8
      in \<lparr>oraw_leaf = (\<lambda>a. \<lparr>ol_lock = 0, ol_count = 0, ol_keys = map (gk a) [0..<cl], ol_payloads = map (gv a) [0..<cl]\<rparr>),
          oraw_inner = (\<lambda>a. \<lparr>oi_lock = 0, oi_count = 0, oi_children = map (gp a) [0..<ci], oi_keys = map (gk a) [0..<ci]\<rparr>)\<rparr>)"

interpretation olc8: olc_env "oenv_of 8 8 gk gv gp" "maxEntries 8 8" "maxEntries 8 8" for gk gv gp
  by unfold_locales (simp_all add: oenv_of_def Let_def maxEntries_def pageSize_def sizeof_NodeBase_def)

definition olc_find :: "bool \<Rightarrow> 'k::linorder \<Rightarrow> ('k, 'v) btree \<Rightarrow> 'v option option" where
  "olc_find u k s = map_option snd (olc_lookup u k s)"

definition olc_rel :: "nat \<Rightarrow> nat \<Rightarrow> ('k::linorder, 'v) btree \<Rightarrow> ('k \<Rightarrow> 'v option) \<Rightarrow> bool" where
  "olc_rel cl ci s m \<longleftrightarrow> (\<exists>t. btree_ok cl ci s t \<and> gmap t = m)"

sublocale olc_env \<subseteq> ob: unbounded_store "olc_find u" "olc_insert E" "\<lambda>_. True" "olc_rel cl ci" for u
proof unfold_locales
  fix s :: "('k, 'v) btree" and m k v
  assume "olc_rel cl ci s m"
  then obtain t where t: "btree_ok cl ci s t" "gmap t = m" by (auto simp: olc_rel_def)
  show "olc_find u k s = Some (m k)"
    using olc_lookup_spec[OF t(1), of u k] t(2) by (simp add: olc_find_def split: option.splits)
  show "\<exists>s'. olc_insert E k v s = Some s' \<and> olc_rel cl ci s' (m(k \<mapsto> v))"
    using olc_insert_spec[OF t(1), of k v] t(2) by (auto simp: olc_rel_def)
qed simp

context olc_env begin

lemma btree_new_rel: "olc_rel cl ci (btree_new E) Map.empty"
  using btree_new_ok unfolding olc_rel_def by blast

lemma put_all_from_new:
  "\<exists>s. put_all (olc_insert E) kvs (btree_new E) = Some s \<and>
     (\<forall>k. olc_lookup u k s = Some (case map_of (rev kvs) k of Some v \<Rightarrow> (True, Some v) | None \<Rightarrow> (u, None)))"
proof -
  obtain s where s: "put_all (olc_insert E) kvs (btree_new E) = Some s" "olc_rel cl ci s (Map.empty ++ map_of (rev kvs))"
    using ob.put_all_refines[OF btree_new_rel] by blast
  then obtain t where t: "btree_ok cl ci s t" "gmap t = map_of (rev kvs)" by (auto simp: olc_rel_def)
  show ?thesis using s(1) olc_lookup_spec[OF t(1), of u] t(2) by auto
qed

end

end
