(* ===== verification/BLatch.thy ===== *)
theory BLatch
  imports Prelude "HOL-Library.Multiset"
begin

text \<open>
  The reader/writer latches of \<open>src/BLinkTree/latch.h\<close>. \<open>RSpinSharedLatch\<close> keeps a writer bit
  and the number of readers in one word; a reader first counts itself and steps back if it then
  sees a writer. \<open>StandardSharedMutex\<close> wraps \<open>std::shared_mutex\<close>, which is modelled by the number of
  its readers and whether it has a writer. The tree is written against \<open>latch_ops\<close>; what it
  relies on is the locale \<open>latch\<close>.
\<close>

unbundle bit_operations_syntax

section \<open>RSpinSharedLatch\<close>

definition w_latched :: "u64 \<Rightarrow> bool" where "w_latched flag = (drop_bit 63 flag = 1)"

definition reader_cnt :: "u64 \<Rightarrow> u64" where "reader_cnt flag = flag AND NOT (push_bit 63 1)"

definition none_latched :: "u64 \<Rightarrow> bool" where "none_latched flag = (flag = 0)"

definition w_latch :: u64 where "w_latch = push_bit 63 1"

text \<open>One round of \<open>latch_shared\<close>: the increment, which tells whether there is a writer, and the step back.\<close>

definition enter_shared :: "u64 \<Rightarrow> u64 \<times> bool" where
  "enter_shared flag = (flag + 1, \<not> w_latched flag)"

definition leave_shared :: "u64 \<Rightarrow> u64" where
  "leave_shared flag = flag - 1"

text \<open>The whole operations; \<open>None\<close> where the caller goes on waiting.\<close>

definition rspin_latch_shared :: "u64 \<Rightarrow> u64 option" where
  "rspin_latch_shared flag = (case enter_shared flag of (flag, ok) \<Rightarrow> if ok then Some flag else None)"

definition rspin_unlatch_shared :: "u64 \<Rightarrow> u64" where
  "rspin_unlatch_shared flag = flag - 1"

definition rspin_latch_exclusive :: "u64 \<Rightarrow> u64 option" where
  "rspin_latch_exclusive flag = (if none_latched flag then Some w_latch else None)"

definition rspin_unlatch_exclusive :: "u64 \<Rightarrow> u64" where
  "rspin_unlatch_exclusive flag = flag - w_latch"

section \<open>Threads at a latch\<close>

text \<open>
  What a thread does at the latch: nothing, it steps back after it met a writer, it reads or it
  writes. A state is the word and what each thread does; every step is one atomic instruction.
\<close>

datatype latch_user = Away | Backoff | Shared | Exclusive

type_synonym latch_state = "u64 \<times> latch_user list"

inductive latch_step :: "latch_state \<Rightarrow> latch_state \<Rightarrow> bool" where
  enter: "i < length us \<Longrightarrow> us ! i = Away \<Longrightarrow> enter_shared flag = (flag', ok) \<Longrightarrow>
    latch_step (flag, us) (flag', us[i := (if ok then Shared else Backoff)])"
| step_back: "i < length us \<Longrightarrow> us ! i = Backoff \<Longrightarrow> latch_step (flag, us) (leave_shared flag, us[i := Away])"
| end_shared: "i < length us \<Longrightarrow> us ! i = Shared \<Longrightarrow> latch_step (flag, us) (rspin_unlatch_shared flag, us[i := Away])"
| begin_exclusive: "i < length us \<Longrightarrow> us ! i = Away \<Longrightarrow> rspin_latch_exclusive flag = Some flag' \<Longrightarrow>
    latch_step (flag, us) (flag', us[i := Exclusive])"
| end_exclusive: "i < length us \<Longrightarrow> us ! i = Exclusive \<Longrightarrow> latch_step (flag, us) (rspin_unlatch_exclusive flag, us[i := Away])"

inductive_cases latch_stepE: "latch_step (flag, us) st"

abbreviation latch_steps :: "latch_state \<Rightarrow> latch_state \<Rightarrow> bool" where
  "latch_steps \<equiv> latch_step\<^sup>*\<^sup>*"

definition users :: "latch_user \<Rightarrow> latch_user list \<Rightarrow> nat" where
  "users u us = count (mset us) u"

section \<open>Latch interface\<close>

record 'l latch_ops =
  l_init :: 'l
  l_shared :: "'l \<Rightarrow> 'l option"
  l_unshared :: "'l \<Rightarrow> 'l"
  l_exclusive :: "'l \<Rightarrow> 'l option"
  l_unexclusive :: "'l \<Rightarrow> 'l"

definition rspin_ops :: "u64 latch_ops" where
  "rspin_ops = \<lparr>l_init = 0, l_shared = rspin_latch_shared, l_unshared = rspin_unlatch_shared,
     l_exclusive = rspin_latch_exclusive, l_unexclusive = rspin_unlatch_exclusive\<rparr>"

text \<open>\<open>std::shared_mutex\<close>: the number of readers and whether there is a writer.\<close>

definition shared_mutex_ops :: "(nat \<times> bool) latch_ops" where
  "shared_mutex_ops =
     \<lparr>l_init = (0, False),
      l_shared = (\<lambda>(r, w). if w then None else Some (Suc r, w)), l_unshared = (\<lambda>(r, w). (r - 1, w)),
      l_exclusive = (\<lambda>(r, w). if w \<or> 0 < r then None else Some (r, True)), l_unexclusive = (\<lambda>(r, w). (r, False))\<rparr>"

text \<open>A latch that nobody holds can be taken either way, and giving it back frees it.\<close>

locale latch =
  fixes L :: "'l latch_ops"
  assumes shared_free: "\<exists>l. l_shared L (l_init L) = Some l \<and> l_unshared L l = l_init L"
    and exclusive_free: "\<exists>l. l_exclusive L (l_init L) = Some l \<and> l_unexclusive L l = l_init L"

interpretation rspin: latch rspin_ops
  by unfold_locales
    (simp_all add: rspin_ops_def rspin_latch_shared_def enter_shared_def w_latched_def rspin_unlatch_shared_def
      rspin_latch_exclusive_def rspin_unlatch_exclusive_def none_latched_def)

interpretation shm: latch shared_mutex_ops
  by unfold_locales (simp_all add: shared_mutex_ops_def)

section \<open>Exclusion\<close>

text \<open>The word counts the users of the latch.\<close>

definition latch_inv :: "latch_state \<Rightarrow> bool" where
  "latch_inv = (\<lambda>(flag, us). length us < 2 ^ 63 \<and>
     unat flag = users Exclusive us * 2 ^ 63 + users Shared us + users Backoff us \<and>
     users Exclusive us \<le> 1 \<and> (users Exclusive us = 1 \<longrightarrow> users Shared us = 0))"

lemma users_update:
  assumes "i < length us"
  shows "users u (us[i := v]) = users u us - (if us ! i = u then 1 else 0) + (if v = u then 1 else 0)"
  using assms by (simp add: users_def mset_update)

lemma users_pos: "i < length us \<Longrightarrow> us ! i = u \<Longrightarrow> 0 < users u us"
  using nth_mem[of i us] by (simp add: users_def)

lemma users_total: "users Exclusive us + users Shared us + users Backoff us + users Away us = length us"
proof (induction us)
  case (Cons u us)
  then show ?case by (cases u) (auto simp: users_def)
qed (simp add: users_def)

lemma div_eq_1_iff:
  assumes "(x :: nat) < 2 * c"
  shows "x div c = 1 \<longleftrightarrow> c \<le> x"
proof (cases "c \<le> x")
  case True
  then show ?thesis using assms by (simp add: le_div_geq)
qed simp

lemma w_latched_unat: "w_latched flag \<longleftrightarrow> 2 ^ 63 \<le> unat flag"
proof -
  have "unat (drop_bit 63 flag) = unat flag div 2 ^ 63" by (subst unat_drop_bit_eq) (rule drop_bit_eq_div)
  then have "drop_bit 63 flag = 1 \<longleftrightarrow> unat flag div 2 ^ 63 = 1" by (simp only: word_unat_eq_iff unsigned_1)
  moreover have "unat flag < 2 * 2 ^ 63" using unsigned_less[of flag, where 'a = nat] by simp
  then have "unat flag div 2 ^ 63 = 1 \<longleftrightarrow> 2 ^ 63 \<le> unat flag" by (rule div_eq_1_iff)
  ultimately show ?thesis unfolding w_latched_def by simp
qed

lemma unat_enter: "unat flag + 1 < 2 ^ 64 \<Longrightarrow> unat (flag + 1 :: u64) = unat flag + 1"
  by (subst unat_add_lem[THEN iffD1]) simp_all

lemma unat_leave: "0 < unat flag \<Longrightarrow> unat (flag - 1 :: u64) = unat flag - 1"
  by (subst unat_sub) (simp_all add: word_le_nat_alt)

lemma unat_w_latch: "unat w_latch = 2 ^ 63"
  by (simp add: w_latch_def)

lemma unat_release: "2 ^ 63 \<le> unat flag \<Longrightarrow> unat (flag - w_latch) = unat flag - 2 ^ 63"
  by (subst unat_sub) (simp_all only: word_le_nat_alt unat_w_latch)

lemma latch_inv_step:
  assumes inv: "latch_inv (flag, us)" and step: "latch_step (flag, us) st"
  shows "latch_inv st"
proof -
  have flag: "unat flag = users Exclusive us * 2 ^ 63 + users Shared us + users Backoff us" and w: "users Exclusive us \<le> 1"
    and x: "users Exclusive us = 1 \<longrightarrow> users Shared us = 0" and len: "length us < 2 ^ 63"
    using inv by (simp_all add: latch_inv_def)
  note total = users_total[of us]
  from step show ?thesis
  proof (cases rule: latch_stepE[consumes 1, case_names 1 2 3 4 5])
    case (1 i flag' ok)
    have "0 < users Away us" using users_pos[OF 1(2,3)] .
    then have "users Shared us + users Backoff us + 1 < 2 ^ 63" using total len by linarith
    then have bound: "w_latched flag \<longleftrightarrow> users Exclusive us = 1" "unat flag + 1 < 2 ^ 64" using flag w by (auto simp: w_latched_unat)
    have f: "flag' = flag + 1" "ok \<longleftrightarrow> \<not> w_latched flag" using 1(4) by (auto simp: enter_shared_def)
    show ?thesis
      using unat_enter[OF bound(2)] bound(1) flag w x len f users_update[OF 1(2)] 1(1,3)
      by (auto simp: latch_inv_def)
  next
    case (2 i)
    have p: "0 < users Backoff us" using users_pos[OF 2(2,3)] .
    then have "unat (flag - 1) = unat flag - 1" using flag by (intro unat_leave) simp
    then show ?thesis using p flag w x len users_update[OF 2(2)] 2(1,3) by (simp add: latch_inv_def leave_shared_def)
  next
    case (3 i)
    have p: "0 < users Shared us" using users_pos[OF 3(2,3)] .
    then have "unat (flag - 1) = unat flag - 1" using flag by (intro unat_leave) simp
    then show ?thesis using p flag w x len users_update[OF 3(2)] 3(1,3) by (simp add: latch_inv_def rspin_unlatch_shared_def)
  next
    case (4 i flag')
    then have z: "flag = 0" "flag' = w_latch" by (auto simp: rspin_latch_exclusive_def none_latched_def split: if_splits)
    then have "users Exclusive us = 0" "users Shared us = 0" "users Backoff us = 0" using flag by auto
    then show ?thesis using z len users_update[OF 4(2)] 4(1,3) unat_w_latch by (simp add: latch_inv_def)
  next
    case (5 i)
    have p: "0 < users Exclusive us" using users_pos[OF 5(2,3)] .
    then have "users Exclusive us = 1" "2 ^ 63 \<le> unat flag" using w flag by auto
    then show ?thesis
      using p flag w x len users_update[OF 5(2)] 5(1,3) unat_release by (simp add: latch_inv_def rspin_unlatch_exclusive_def)
  qed
qed

lemma latch_inv_steps: "latch_steps st st' \<Longrightarrow> latch_inv st \<Longrightarrow> latch_inv st'"
  by (induction rule: rtranclp_induct) (auto intro: latch_inv_step)

lemma latch_inv_init: "n < 2 ^ 63 \<Longrightarrow> latch_inv (0, replicate n Away)"
  by (simp add: latch_inv_def users_def)

lemma latch_exclusion:
  assumes "n < 2 ^ 63" "latch_steps (0, replicate n Away) (flag, us)" "i < length us" "j < length us" "us ! i = Exclusive"
  shows "us ! j \<noteq> Shared" "us ! j = Exclusive \<Longrightarrow> j = i"
proof -
  have inv: "latch_inv (flag, us)" using latch_inv_steps[OF assms(2) latch_inv_init[OF assms(1)]] .
  then have w: "users Exclusive us = 1" "users Shared us = 0" using users_pos[OF assms(3,5)] by (auto simp: latch_inv_def)
  show "us ! j \<noteq> Shared" using w(2) users_pos[OF assms(4), of Shared] by auto
  show "j = i" if "us ! j = Exclusive"
  proof (rule ccontr)
    assume "j \<noteq> i"
    then have "0 < users Exclusive (us[i := Away])" using assms(4) that by (intro users_pos[of j]) auto
    also have "users Exclusive (us[i := Away]) = 0" using users_update[OF assms(3), of Exclusive Away] w(1) assms(5) by simp
    finally show False by simp
  qed
qed

text \<open>A latch that nobody uses has the initial word again, so no count is ever lost.\<close>

lemma latch_quiescent:
  assumes "n < 2 ^ 63" "latch_steps (0, replicate n Away) (flag, us)" "\<forall>u\<in>set us. u = Away"
  shows "flag = 0"
proof -
  have inv: "latch_inv (flag, us)" using latch_inv_steps[OF assms(2) latch_inv_init[OF assms(1)]] .
  have "users u us = 0" if "u \<noteq> Away" for u using assms(3) that by (auto simp: users_def count_eq_zero_iff)
  then have "unat flag = 0" using inv by (simp add: latch_inv_def)
  then show ?thesis by (simp add: unat_eq_0)
qed

end
