(* ===== verification/BLinkNode.thy ===== *)
theory BLinkNode
  imports BLatch Complex_Main
begin

text \<open>
  The nodes of the B-link tree (\<open>BLinkNode\<close> of \<open>src/BLinkTree/b_link_node.h\<close>). The last key of a
  node is its upper bound, unless the node is the rightmost one of its level; only the rightmost
  inner node has a child after its last key. The union of the values of a leaf and of the children of
  an inner node is two fields. The shifting loops are recursive functions, the copies to a new
  node copies of array segments. A split threshold is a rational number.
\<close>

section \<open>Nodes\<close>

record ('k, 'v, 'l) blnode =
  b_leaf :: bool
  b_size :: nat
  b_cnt :: nat
  b_sibling :: ptr
  b_upper :: ptr
  b_keys :: "'k list"
  b_values :: "'v list"
  b_children :: "ptr list"
  b_latch :: 'l

definition bl_new :: "'l latch_ops \<Rightarrow> nat \<Rightarrow> bool \<Rightarrow> ('k::zero, 'v::zero, 'l) blnode" where
  "bl_new L node_size leaf =
     \<lparr>b_leaf = leaf, b_size = node_size, b_cnt = 0, b_sibling = None, b_upper = None, b_keys = replicate node_size 0,
      b_values = (if leaf then replicate node_size 0 else []),
      b_children = (if leaf then [] else replicate (node_size + 1) None), b_latch = l_init L\<rparr>"

definition high_key :: "('k, 'v, 'l) blnode \<Rightarrow> 'k" where
  "high_key n = b_keys n ! (b_cnt n - 1)"

text \<open>\<open>key\<close>, \<open>value\<close> and \<open>child\<close>, with their assertions.\<close>

definition bl_key :: "nat \<Rightarrow> ('k, 'v, 'l) blnode \<Rightarrow> 'k option" where
  "bl_key index n = (if index < b_cnt n then Some (b_keys n ! index) else None)"

definition bl_value :: "nat \<Rightarrow> ('k, 'v, 'l) blnode \<Rightarrow> 'v option" where
  "bl_value index n = (if index < b_cnt n then Some (b_values n ! index) else None)"

definition bl_child :: "nat \<Rightarrow> ('k, 'v, 'l) blnode \<Rightarrow> ptr" where
  "bl_child index n =
     (if \<not> b_leaf n \<and> (index < b_cnt n \<or> index = b_cnt n \<and> b_sibling n = None) then b_children n ! index else None)"

section \<open>Search in a node\<close>

function NodeScan_loop :: "'k::linorder list \<Rightarrow> 'k \<Rightarrow> nat \<Rightarrow> nat \<Rightarrow> nat" where
  "NodeScan_loop keys key low high =
     (if low < high
      then let mid = (low + high) div 2
           in if key < keys ! mid then NodeScan_loop keys key low mid
              else if key = keys ! mid then mid
              else NodeScan_loop keys key (mid + 1) high
      else high)"
  by pat_completeness auto
termination
  by (relation "measure (\<lambda>(keys, key, low, high). high - low)") (auto simp: Let_def)

declare NodeScan_loop.simps [simp del]

definition NodeScan :: "'k::linorder \<Rightarrow> ('k, 'v, 'l) blnode \<Rightarrow> nat" where
  "NodeScan key n =
     (if b_cnt n = 0 \<or> key > b_keys n ! (b_cnt n - 1) then b_cnt n
      else NodeScan_loop (b_keys n) key 0 (b_cnt n - 1))"

section \<open>Insertion into a node\<close>

text \<open>The loop that moves the elements from \<open>index\<close> on by one slot, from \<open>i\<close> downwards.\<close>

fun shift_up :: "nat \<Rightarrow> nat \<Rightarrow> 'a list \<Rightarrow> 'a list" where
  "shift_up index i xs = (if i > index then shift_up index (i - 1) (xs[i := xs ! (i - 1)]) else xs)"

declare shift_up.simps [simp del]

definition bl_safe :: "rat \<Rightarrow> ('k, 'v, 'l) blnode \<Rightarrow> bool" where
  "bl_safe split_threshold n \<longleftrightarrow> of_nat (b_cnt n + 1) / of_nat (b_size n) < split_threshold"

text \<open>
  \<open>LeafInsert\<close> and \<open>InnerInsert\<close> return the node and, after a split, the new node; \<open>a\<close> is the
  address that \<open>new\<close> would return.
\<close>

definition LeafInsert ::
  "'l latch_ops \<Rightarrow> addr \<Rightarrow> 'k::zero \<Rightarrow> 'v::zero \<Rightarrow> nat \<Rightarrow> rat \<Rightarrow> ('k, 'v, 'l) blnode \<Rightarrow>
   ('k, 'v, 'l) blnode \<times> ('k, 'v, 'l) blnode option" where
  "LeafInsert L a key val index leaf_split_threshold n =
     (if bl_safe leaf_split_threshold n
      then (n\<lparr>b_keys := (shift_up index (b_cnt n) (b_keys n))[index := key],
              b_values := (shift_up index (b_cnt n) (b_values n))[index := val], b_cnt := b_cnt n + 1\<rparr>, None)
      else
        let new = (bl_new L (b_size n) True)\<lparr>b_sibling := b_sibling n, b_upper := b_upper n\<rparr>;
            (n, new) =
              (if index \<le> b_cnt n div 2
               then let mid = b_cnt n div 2;
                        new = new\<lparr>b_keys := memcpy_at 0 mid (b_cnt n - mid) (b_keys n) (b_keys new),
                                  b_values := memcpy_at 0 mid (b_cnt n - mid) (b_values n) (b_values new),
                                  b_cnt := b_cnt n - mid\<rparr>
                    in (n\<lparr>b_keys := (shift_up index mid (b_keys n))[index := key],
                          b_values := (shift_up index mid (b_values n))[index := val], b_cnt := mid + 1\<rparr>, new)
               else let mid = b_cnt n div 2 + 1; i = index - mid;
                        keys = (memcpy_at 0 mid i (b_keys n) (b_keys new))[i := key];
                        vals = (memcpy_at 0 mid i (b_values n) (b_values new))[i := val];
                        new = new\<lparr>b_keys := memcpy_at (i + 1) index (b_cnt n - index) (b_keys n) keys,
                                  b_values := memcpy_at (i + 1) index (b_cnt n - index) (b_values n) vals,
                                  b_cnt := b_cnt n - mid + 1\<rparr>
                    in (n\<lparr>b_cnt := mid\<rparr>, new))
        in (n\<lparr>b_sibling := Some a\<rparr>, Some new))"

definition InnerInsert ::
  "'l latch_ops \<Rightarrow> addr \<Rightarrow> 'k::{linorder,zero} \<Rightarrow> addr \<Rightarrow> addr \<Rightarrow> rat \<Rightarrow> ('k, 'v::zero, 'l) blnode \<Rightarrow>
   ('k, 'v, 'l) blnode \<times> ('k, 'v, 'l) blnode option" where
  "InnerInsert L a left_key left_node right_node inner_split_threshold n =
     (let index = NodeScan left_key n
      in if bl_safe inner_split_threshold n
         then let keys = shift_up index (b_cnt n) (b_keys n);
                  children = shift_up (index + 1) (b_cnt n + 1) (b_children n);
                  children = (if b_cnt n = 0 then children[index := Some left_node] else children)
              in (n\<lparr>b_keys := keys[index := left_key], b_children := children[index + 1 := Some right_node],
                    b_cnt := b_cnt n + 1\<rparr>, None)
         else
           let new = (bl_new L (b_size n) False)\<lparr>b_sibling := b_sibling n, b_upper := b_upper n\<rparr>;
               (n, new) =
                 (if index \<le> b_cnt n div 2
                  then let mid = b_cnt n div 2;
                           new = new\<lparr>b_keys := memcpy_at 0 mid (b_cnt n - mid) (b_keys n) (b_keys new),
                                     b_children := memcpy_at 0 mid (b_cnt n - mid) (b_children n) (b_children new)\<rparr>;
                           new = new\<lparr>b_children := (b_children new)[b_cnt n - mid := b_children n ! b_cnt n],
                                     b_cnt := b_cnt n - mid\<rparr>;
                           keys = (shift_up index mid (b_keys n))[index := left_key];
                           children = shift_up (index + 1) (mid + 1) (b_children n)
                       in if index < mid
                          then (n\<lparr>b_keys := keys, b_children := children[index + 1 := Some right_node], b_cnt := mid + 1\<rparr>, new)
                          else (n\<lparr>b_keys := keys, b_children := children, b_cnt := mid + 1\<rparr>,
                                new\<lparr>b_children := (b_children new)[0 := Some right_node]\<rparr>)
                  else let mid = b_cnt n div 2 + 1; i = index - mid;
                           keys = (memcpy_at 0 mid i (b_keys n) (b_keys new))[i := left_key];
                           children = (memcpy_at 0 mid (i + 1) (b_children n) (b_children new))[i + 1 := Some right_node];
                           new = new\<lparr>b_keys := memcpy_at (i + 1) index (b_cnt n - index) (b_keys n) keys,
                                     b_children := memcpy_at (i + 2) (index + 1) (b_cnt n - index) (b_children n) children,
                                     b_cnt := b_cnt n - mid + 1\<rparr>
                       in (n\<lparr>b_cnt := mid\<rparr>, new))
           in (n\<lparr>b_sibling := Some a\<rparr>, Some new))"

section \<open>Correctness\<close>

lemma length_shift_up [simp]: "length (shift_up index i xs) = length xs"
  by (induction index i xs rule: shift_up.induct) (subst shift_up.simps, simp)

lemma nth_shift_up:
  "i < length xs \<Longrightarrow> j < length xs \<Longrightarrow>
   shift_up index i xs ! j = (if index < j \<and> j \<le> i then xs ! (j - 1) else xs ! j)"
  by (induction index i xs rule: shift_up.induct) (subst shift_up.simps, auto simp: nth_list_update)

lemma NodeScan_loop_rank:
  assumes "sorted_wrt (<) (take n keys)" "n \<le> length keys" "high < n" "low \<le> high"
    "low \<le> rank key (take n keys)" "rank key (take n keys) \<le> high"
  shows "NodeScan_loop keys key low high = rank key (take n keys)"
  using assms
proof (induction keys key low high rule: NodeScan_loop.induct)
  case (1 keys key low high)
  define mid where "mid = (low + high) div 2"
  let ?r = "rank key (take n keys)"
  show ?case
  proof (cases "low < high")
    case True
    then have m: "low \<le> mid" "mid < high" "mid < length (take n keys)" using 1(4,5) by (auto simp: mid_def)
    note r = less_rank_iff[OF 1(3) m(3), of key]
    have step: "NodeScan_loop keys key low high = (if key < keys ! mid then NodeScan_loop keys key low mid
        else if key = keys ! mid then mid else NodeScan_loop keys key (mid + 1) high)"
      using True by (subst NodeScan_loop.simps) (simp add: mid_def Let_def)
    consider "key < keys ! mid" | "key = keys ! mid" | "keys ! mid < key" by fastforce
    then show ?thesis
    proof cases
      case 1
      then have "?r \<le> mid" using r m by (simp add: not_less[symmetric] less_not_sym)
      then show ?thesis using 1 step "1.IH"(1)[OF True mid_def] "1.prems" m by simp
    next
      case 2
      have "mid \<le> ?r"
      proof (rule ccontr)
        assume "\<not> mid \<le> ?r"
        then have "keys ! ?r < keys ! mid" "?r < length (take n keys)"
          using "1.prems"(1) m by (auto simp: sorted_wrt_iff_nth_less)
        then show False using less_rank_iff[OF "1.prems"(1), of ?r key] 2 by simp
      qed
      moreover have "?r \<le> mid" using r 2 m by simp
      ultimately show ?thesis using 2 step by simp
    next
      case 3
      then have "mid + 1 \<le> ?r" using r m by simp
      then have "NodeScan_loop keys key (mid + 1) high = ?r" using 3 "1.IH"(2)[OF True mid_def] "1.prems" m by auto
      then show ?thesis using 3 step by auto
    qed
  qed (use "1.prems" in \<open>subst NodeScan_loop.simps; simp\<close>)
qed

text \<open>The keys, the values and the children that a node has.\<close>

definition bkeys :: "('k, 'v, 'l) blnode \<Rightarrow> 'k list" where "bkeys n = take (b_cnt n) (b_keys n)"
definition bvals :: "('k, 'v, 'l) blnode \<Rightarrow> 'v list" where "bvals n = take (b_cnt n) (b_values n)"
definition bkids :: "('k, 'v, 'l) blnode \<Rightarrow> ptr list" where
  "bkids n = take (if b_sibling n = None then b_cnt n + 1 else b_cnt n) (b_children n)"

definition bnode_inv :: "('k::linorder, 'v, 'l) blnode \<Rightarrow> bool" where
  "bnode_inv n \<longleftrightarrow> length (b_keys n) = b_size n \<and> b_cnt n < b_size n \<and> sorted_wrt (<) (bkeys n) \<and>
     (if b_leaf n then length (b_values n) = b_size n else length (b_children n) = b_size n + 1)"

lemma length_bkeys: "bnode_inv n \<Longrightarrow> length (bkeys n) = b_cnt n"
  by (simp add: bnode_inv_def bkeys_def)

lemma length_bvals: "bnode_inv n \<Longrightarrow> b_leaf n \<Longrightarrow> length (bvals n) = b_cnt n"
  by (simp add: bnode_inv_def bvals_def)

lemma NodeScan_rank:
  assumes inv: "bnode_inv n"
  shows "NodeScan key n = rank key (bkeys n)"
proof -
  have s: "sorted_wrt (<) (take (b_cnt n) (b_keys n))" and l: "b_cnt n \<le> length (b_keys n)"
    using inv by (auto simp: bnode_inv_def bkeys_def)
  show ?thesis
  proof (cases "b_cnt n = 0 \<or> key > b_keys n ! (b_cnt n - 1)")
    case True
    have "rank key (bkeys n) = b_cnt n"
    proof (cases "b_cnt n = 0")
      case F: False
      then have "x < key" if "x \<in> set (bkeys n)" for x
      proof -
        have "bkeys n \<noteq> []" using F length_bkeys[OF inv] by auto
        then have "last (bkeys n) = b_keys n ! (b_cnt n - 1)"
          using F l by (subst last_conv_nth) (simp_all add: bkeys_def)
        then show ?thesis using le_last[OF s, of x] that True F by (auto simp: bkeys_def)
      qed
      then have "rank key (bkeys n) = length (bkeys n)" by (rule rank_eq_length)
      then show ?thesis using length_bkeys[OF inv] by simp
    qed (simp add: bkeys_def)
    then show ?thesis using True by (simp add: NodeScan_def)
  next
    case False
    then have "rank key (take (b_cnt n) (b_keys n)) \<le> b_cnt n - 1"
      using less_rank_iff[OF s, of "b_cnt n - 1" key] l by simp
    then show ?thesis
      using False NodeScan_loop_rank[OF s l, of "b_cnt n - 1" 0 key] by (simp add: NodeScan_def bkeys_def)
  qed
qed

text \<open>The parts of an array that an insertion with a split leaves in the old node and puts into the new one.\<close>

lemma take_shift_insert:
  assumes "i \<le> m" "m \<le> c" "c < length xs"
  shows "take (Suc m) ((shift_up i c xs)[i := x]) = insert_at i x (take m xs)"
  using assms by (intro nth_equalityI) (auto simp: nth_insert_at nth_list_update nth_shift_up)

lemma insert_at_left: "i \<le> m \<Longrightarrow> m \<le> length xs \<Longrightarrow> insert_at i x (take m xs) @ drop m xs = insert_at i x xs"
  by (simp add: insert_at_def min_absorb1 drop_take) (metis append.assoc append_take_drop_id drop_drop drop_take le_add_diff_inverse2 take_drop)

lemma insert_at_right: "m \<le> i \<Longrightarrow> i \<le> length xs \<Longrightarrow> take m xs @ insert_at (i - m) x (drop m xs) = insert_at i x xs"
  by (simp add: insert_at_def) (metis append.assoc append_take_drop_id le_add_diff_inverse take_add)

lemma take_memcpy_drop:
  "m + k \<le> length src \<Longrightarrow> k \<le> length dst \<Longrightarrow> take k (memcpy_at 0 m k src dst) = take k (drop m src)"
  by (intro nth_equalityI) auto

lemma take_memcpy_insert:
  assumes "m \<le> i" "i \<le> c" "c \<le> length src" "c - m < length dst"
  shows "take (Suc (c - m)) (memcpy_at (Suc (i - m)) i (c - i) src ((memcpy_at 0 m (i - m) src dst)[i - m := x])) =
    insert_at (i - m) x (take (c - m) (drop m src))"
  using assms by (intro nth_equalityI) (auto simp: nth_insert_at nth_list_update add.commute)

lemma low_split:
  assumes "i \<le> m" "m \<le> c" "c < length xs" "c - m \<le> length ys"
  shows "take (Suc m) ((shift_up i m xs)[i := x]) @ take (c - m) (memcpy_at 0 m (c - m) xs ys) = insert_at i x (take c xs)"
  using assms take_shift_insert[of i m m xs x] take_memcpy_drop[of m "c - m" xs ys] insert_at_left[of i m "take c xs" x]
  by (simp add: min_def drop_take)

lemma high_split:
  assumes "m \<le> i" "i \<le> c" "c \<le> length xs" "c - m < length ys"
  shows "take m xs @ take (Suc (c - m)) (memcpy_at (Suc (i - m)) i (c - i) xs ((memcpy_at 0 m (i - m) xs ys)[i - m := x])) =
    insert_at i x (take c xs)"
  using assms take_memcpy_insert[OF assms, of x] insert_at_right[of m i "take c xs" x] by (simp add: min_def drop_take)

lemma safe_room:
  assumes "bl_safe thr n" "thr \<le> 1" "0 < b_size n"
  shows "b_cnt n + 1 < b_size n"
proof -
  have "(of_nat (b_cnt n + 1) :: rat) / of_nat (b_size n) < 1" using assms(1,2) unfolding bl_safe_def by linarith
  then have "(of_nat (b_cnt n + 1) :: rat) < of_nat (b_size n)" using assms(3) by (simp only: divide_less_eq_1_pos of_nat_0_less_iff)
  then show ?thesis using of_nat_less_iff by blast
qed

text \<open>What does not change in a node, and what a node is like that was made by a split.\<close>

definition same_node :: "('k, 'v, 'l) blnode \<Rightarrow> ('k, 'v, 'l) blnode \<Rightarrow> bool" where
  "same_node n' n \<longleftrightarrow> b_leaf n' = b_leaf n \<and> b_size n' = b_size n \<and> b_upper n' = b_upper n \<and> b_latch n' = b_latch n"

definition split_node_of :: "'l latch_ops \<Rightarrow> addr \<Rightarrow> ('k, 'v, 'l) blnode \<Rightarrow> ('k, 'v, 'l) blnode \<Rightarrow> ('k, 'v, 'l) blnode \<Rightarrow> bool" where
  "split_node_of L a n n' r \<longleftrightarrow> b_sibling n' = Some a \<and> b_sibling r = b_sibling n \<and> b_leaf r = b_leaf n \<and> b_size r = b_size n \<and>
     b_upper r = b_upper n \<and> b_latch r = l_init L \<and> bkeys n' \<noteq> [] \<and> bkeys r \<noteq> []"

lemma LeafInsert_safe:
  assumes inv: "bnode_inv n" "b_leaf n" and thr: "thr \<le> 1" "bl_safe thr n"
    and index: "index = rank key (bkeys n)" "key \<notin> set (bkeys n)"
  obtains n' where "LeafInsert L a key val index thr n = (n', None)" "bnode_inv n'" "same_node n' n" "b_sibling n' = b_sibling n"
    "bkeys n' = insert_at index key (bkeys n)" "bvals n' = insert_at index val (bvals n)"
proof -
  let ?c = "b_cnt n"
  let ?n = "n\<lparr>b_keys := (shift_up index ?c (b_keys n))[index := key], b_values := (shift_up index ?c (b_values n))[index := val], b_cnt := ?c + 1\<rparr>"
  have room: "?c + 1 < b_size n" using safe_room[OF thr(2,1)] inv by (simp add: bnode_inv_def)
  have il: "index \<le> ?c" using index(1) rank_le[of key "bkeys n"] length_bkeys[OF inv(1)] by simp
  have len: "length (b_keys n) = b_size n" "length (b_values n) = b_size n" using inv by (simp_all add: bnode_inv_def)
  have k: "bkeys ?n = insert_at index key (bkeys n)" "bvals ?n = insert_at index val (bvals n)"
    using il len room by (simp_all add: bkeys_def bvals_def take_shift_insert)
  have "sorted_wrt (<) (bkeys ?n)" using k(1) sorted_insert_at[of "bkeys n" key] index inv(1) by (simp add: bnode_inv_def)
  then have "bnode_inv ?n" using inv len room by (simp add: bnode_inv_def)
  then show thesis using that[of ?n] k thr(2) inv(2) by (simp add: LeafInsert_def same_node_def)
qed

lemma split_parts:
  assumes inv: "bnode_inv n" and s: "same_node n' n" "b_leaf r = b_leaf n" "b_size r = b_size n"
    and keys: "bkeys n' @ bkeys r = insert_at (rank key (bkeys n)) key (bkeys n)" "key \<notin> set (bkeys n)"
    and cnt: "b_cnt n' \<noteq> 0" "b_cnt n' < b_size n" "b_cnt r \<noteq> 0" "b_cnt r < b_size n"
    and lens: "length (b_keys n') = b_size n" "length (b_keys r) = b_size n"
      "if b_leaf n then length (b_values n') = b_size n \<and> length (b_values r) = b_size n
       else length (b_children n') = b_size n + 1 \<and> length (b_children r) = b_size n + 1"
  shows "bnode_inv n'" "bnode_inv r" "bkeys n' \<noteq> []" "bkeys r \<noteq> []"
proof -
  have "sorted_wrt (<) (bkeys n' @ bkeys r)" using keys sorted_insert_at[of "bkeys n" key] inv by (simp add: bnode_inv_def)
  then show "bnode_inv n'" "bnode_inv r" using s cnt lens by (auto simp: bnode_inv_def same_node_def sorted_wrt_append)
  then show "bkeys n' \<noteq> []" "bkeys r \<noteq> []" using length_bkeys cnt by (metis list.size(3))+
qed

lemma LeafInsert_split:
  assumes inv: "bnode_inv n" "b_leaf n" and thr: "\<not> bl_safe thr n" "0 < b_cnt n"
    and index: "index = rank key (bkeys n)" "key \<notin> set (bkeys n)"
  obtains n' r where "LeafInsert L a key val index thr n = (n', Some r)" "bnode_inv n'" "bnode_inv r" "same_node n' n"
    "split_node_of L a n n' r" "bkeys n' @ bkeys r = insert_at index key (bkeys n)"
    "bvals n' @ bvals r = insert_at index val (bvals n)"
proof -
  let ?c = "b_cnt n"
  have il: "index \<le> ?c" using index(1) rank_le[of key "bkeys n"] length_bkeys[OF inv(1)] by simp
  have len: "length (b_keys n) = b_size n" "length (b_values n) = b_size n" and c: "?c < b_size n"
    using inv by (simp_all add: bnode_inv_def)
  obtain n' r where run: "LeafInsert L a key val index thr n = (n', Some r)" and m: "same_node n' n"
      "b_sibling n' = Some a" "b_sibling r = b_sibling n" "b_leaf r" "b_size r = b_size n" "b_upper r = b_upper n" "b_latch r = l_init L"
    and k: "bkeys n' @ bkeys r = insert_at index key (bkeys n)" "bvals n' @ bvals r = insert_at index val (bvals n)"
    and cnt: "b_cnt n' \<noteq> 0" "b_cnt n' < b_size n" "b_cnt r \<noteq> 0" "b_cnt r < b_size n"
    and lens: "length (b_keys n') = b_size n" "length (b_keys r) = b_size n" "length (b_values n') = b_size n" "length (b_values r) = b_size n"
  proof (cases "index \<le> ?c div 2")
    case True
    define mid where "mid = ?c div 2"
    have mid: "index \<le> mid" "mid < ?c" using True thr(2) by (auto simp: mid_def)
    show ?thesis
      by (rule that[of
            "n\<lparr>b_keys := (shift_up index mid (b_keys n))[index := key], b_values := (shift_up index mid (b_values n))[index := val],
               b_cnt := mid + 1, b_sibling := Some a\<rparr>"
            "(bl_new L (b_size n) True)\<lparr>b_sibling := b_sibling n, b_upper := b_upper n,
               b_keys := memcpy_at 0 mid (?c - mid) (b_keys n) (replicate (b_size n) 0),
               b_values := memcpy_at 0 mid (?c - mid) (b_values n) (replicate (b_size n) 0), b_cnt := ?c - mid\<rparr>"])
        (use True thr mid c len inv(2) in \<open>simp_all add: LeafInsert_def Let_def mid_def[symmetric] bl_new_def same_node_def
           bkeys_def bvals_def low_split\<close>)
  next
    case False
    define mid where "mid = ?c div 2 + 1"
    have mid: "mid \<le> index" "mid \<le> ?c" "0 < mid" using False il by (auto simp: mid_def)
    have d: "Suc (?c div 2) = mid" by (simp add: mid_def)
    show ?thesis
      by (rule that[of "n\<lparr>b_cnt := mid, b_sibling := Some a\<rparr>"
            "(bl_new L (b_size n) True)\<lparr>b_sibling := b_sibling n, b_upper := b_upper n,
               b_keys := memcpy_at (index - mid + 1) index (?c - index) (b_keys n)
                 ((memcpy_at 0 mid (index - mid) (b_keys n) (replicate (b_size n) 0))[index - mid := key]),
               b_values := memcpy_at (index - mid + 1) index (?c - index) (b_values n)
                 ((memcpy_at 0 mid (index - mid) (b_values n) (replicate (b_size n) 0))[index - mid := val]), b_cnt := ?c - mid + 1\<rparr>"])
        (use False thr mid c len inv(2) il in \<open>simp_all add: LeafInsert_def Let_def d bl_new_def same_node_def
           bkeys_def bvals_def high_split\<close>)
  qed
  note P = split_parts[OF inv(1) m(1) _ m(5) k(1)[unfolded index(1)] index(2) cnt lens(1,2)]
  have P: "bnode_inv n'" "bnode_inv r" "bkeys n' \<noteq> []" "bkeys r \<noteq> []" using P m(4) inv(2) lens(3,4) by simp_all
  have "split_node_of L a n n' r" using m P inv(2) by (simp add: split_node_of_def)
  then show thesis using that[OF run P(1,2) m(1) _ k] by simp
qed

lemma memcpy_snoc: "k < length dst \<Longrightarrow> (memcpy_at 0 m k src dst)[k := src ! (m + k)] = memcpy_at 0 m (Suc k) src dst"
  by (intro nth_equalityI) (auto simp: nth_list_update less_Suc_eq add.commute)

lemma kids_low:
  assumes "i < m" "m < c" "c < length cs" "c - m < length zs" "K = c \<or> K = Suc c"
  shows "take (Suc m) ((shift_up (Suc i) (Suc m) cs)[Suc i := x]) @ take (K - m) ((memcpy_at 0 m (c - m) cs zs)[c - m := cs ! c]) =
    insert_at (Suc i) x (take K cs)"
proof -
  have "take (K - m) (memcpy_at 0 m (Suc (c - m)) cs zs) = take (K - m) (drop m cs)"
    using assms by (intro nth_equalityI) auto
  then show ?thesis
    using assms take_shift_insert[of "Suc i" m "Suc m" cs x] memcpy_snoc[of "c - m" zs m cs] insert_at_left[of "Suc i" m "take K cs" x]
    by (auto simp: min_def drop_take)
qed

lemma kids_middle:
  assumes "m < c" "c < length cs" "c - m < length zs" "K = c \<or> K = Suc c"
  shows "take (Suc m) (shift_up (Suc m) (Suc m) cs) @ take (K - m) ((memcpy_at 0 m (c - m) cs zs)[c - m := cs ! c, 0 := x]) =
    insert_at (Suc m) x (take K cs)"
proof -
  have "take (K - m) ((memcpy_at 0 m (Suc (c - m)) cs zs)[0 := x]) = x # drop (Suc m) (take K cs)"
    using assms by (intro nth_equalityI) (auto simp: nth_Cons')
  moreover have "shift_up (Suc m) (Suc m) cs = cs" by (subst shift_up.simps) simp
  ultimately show ?thesis
    using assms memcpy_snoc[of "c - m" zs m cs] by (auto simp: insert_at_def min_def)
qed

lemma kids_high:
  assumes "m \<le> i" "i \<le> c" "c < length cs" "Suc (c - m) < length zs" "K = c \<and> i < c \<or> K = Suc c"
  shows "take m cs @ take (Suc (K - m)) (memcpy_at (i - m + 2) (Suc i) (c - i) cs ((memcpy_at 0 m (Suc (i - m)) cs zs)[Suc (i - m) := x])) =
    insert_at (Suc i) x (take K cs)"
proof -
  obtain d where d: "i = m + d" using assms(1) le_Suc_ex by blast
  have "take (Suc (K - m)) (memcpy_at (i - m + 2) (Suc i) (c - i) cs ((memcpy_at 0 m (Suc (i - m)) cs zs)[Suc (i - m) := x])) =
      insert_at (Suc i - m) x (drop m (take K cs))"
  proof (rule nth_equalityI)
    show "length (take (Suc (K - m)) (memcpy_at (i - m + 2) (Suc i) (c - i) cs ((memcpy_at 0 m (Suc (i - m)) cs zs)[Suc (i - m) := x]))) =
        length (insert_at (Suc i - m) x (drop m (take K cs)))"
      using assms d by (subst length_insert_at) auto
    fix j assume "j < length (take (Suc (K - m)) (memcpy_at (i - m + 2) (Suc i) (c - i) cs ((memcpy_at 0 m (Suc (i - m)) cs zs)[Suc (i - m) := x])))"
    then show "take (Suc (K - m)) (memcpy_at (i - m + 2) (Suc i) (c - i) cs ((memcpy_at 0 m (Suc (i - m)) cs zs)[Suc (i - m) := x])) ! j =
        insert_at (Suc i - m) x (drop m (take K cs)) ! j"
      using assms unfolding d by (subst nth_insert_at) (auto simp: nth_list_update Suc_diff_le add.commute intro!: arg_cong[where f = "nth cs"])
  qed
  then show ?thesis using assms insert_at_right[of m "Suc i" "take K cs" x] by (auto simp: min_def)
qed

text \<open>The first insertion into a new root, and the insertion into another inner node.\<close>

lemma InnerInsert_root:
  assumes inv: "bnode_inv n" "\<not> b_leaf n" "b_cnt n = 0" "b_sibling n = None" and thr: "thr \<le> 1" "bl_safe thr n"
  obtains n' where "InnerInsert L a left_key left_node right_node thr n = (n', None)" "bnode_inv n'" "same_node n' n"
    "b_sibling n' = None" "bkeys n' = [left_key]" "bkids n' = [Some left_node, Some right_node]"
proof -
  let ?n = "n\<lparr>b_keys := (b_keys n)[0 := left_key], b_children := (b_children n)[0 := Some left_node, 1 := Some right_node], b_cnt := 1\<rparr>"
  have size: "1 < b_size n" using safe_room[OF thr(2,1)] inv by (simp add: bnode_inv_def)
  obtain k ks where ks: "b_keys n = k # ks" using inv size by (cases "b_keys n") (auto simp: bnode_inv_def)
  have "Suc (Suc 0) \<le> length (b_children n)" using inv size by (simp add: bnode_inv_def)
  then obtain c d cs where cs: "b_children n = c # d # cs" by (auto simp: Suc_le_length_iff)
  have k: "bkeys ?n = [left_key]" "bkids ?n = [Some left_node, Some right_node]"
    using ks cs inv(4) by (simp_all add: bkeys_def bkids_def)
  have "bnode_inv ?n" using inv size k(1) by (simp add: bnode_inv_def)
  moreover have "shift_up 0 0 (b_keys n) = b_keys n" "shift_up (Suc 0) (Suc 0) (b_children n) = b_children n"
    by (subst shift_up.simps, simp)+
  ultimately show thesis
    using that[of ?n] k thr(2) inv(3,4) by (simp add: InnerInsert_def NodeScan_def Let_def same_node_def)
qed

lemma InnerInsert_safe:
  assumes inv: "bnode_inv n" "\<not> b_leaf n" "0 < b_cnt n" and thr: "thr \<le> 1" "bl_safe thr n"
    and index: "index = rank key (bkeys n)" "key \<notin> set (bkeys n)" "index < b_cnt n \<or> b_sibling n = None"
  obtains n' where "InnerInsert L a key left_node right_node thr n = (n', None)" "bnode_inv n'" "same_node n' n"
    "b_sibling n' = b_sibling n" "bkeys n' = insert_at index key (bkeys n)" "bkids n' = insert_at (Suc index) (Some right_node) (bkids n)"
proof -
  let ?c = "b_cnt n" and ?ix = "NodeScan key n"
  have ix: "?ix = index" using NodeScan_rank[OF inv(1)] index(1) by simp
  let ?n = "n\<lparr>b_keys := (shift_up index ?c (b_keys n))[index := key],
    b_children := (shift_up (Suc index) (Suc ?c) (b_children n))[Suc index := Some right_node], b_cnt := ?c + 1\<rparr>"
  have room: "?c + 1 < b_size n" using safe_room[OF thr(2,1)] inv by (simp add: bnode_inv_def)
  have il: "index \<le> ?c" using index(1) rank_le[of key "bkeys n"] length_bkeys[OF inv(1)] by simp
  have len: "length (b_keys n) = b_size n" "length (b_children n) = b_size n + 1" using inv by (simp_all add: bnode_inv_def)
  have k: "bkeys ?n = insert_at index key (bkeys n)" "bkids ?n = insert_at (Suc index) (Some right_node) (bkids n)"
    using il len room index(3) by (auto simp: bkeys_def bkids_def take_shift_insert)
  have "sorted_wrt (<) (bkeys ?n)" using k(1) sorted_insert_at[of "bkeys n" key] index inv(1) by (simp add: bnode_inv_def)
  then have "bnode_inv ?n" using inv len room by (simp add: bnode_inv_def)
  then show thesis using that[of ?n] k thr(2) inv(2,3) by (simp add: InnerInsert_def ix same_node_def)
qed

lemma InnerInsert_split:
  fixes n :: "('k::{linorder,zero}, 'v::zero, 'l) blnode"
  assumes inv: "bnode_inv n" "\<not> b_leaf n" and thr: "\<not> bl_safe thr n" "0 < b_cnt n"
    and index: "index = rank key (bkeys n)" "key \<notin> set (bkeys n)" "index < b_cnt n \<or> b_sibling n = None"
  obtains n' r where "InnerInsert L a key left_node right_node thr n = (n', Some r)" "bnode_inv n'" "bnode_inv r" "same_node n' n"
    "split_node_of L a n n' r" "bkeys n' @ bkeys r = insert_at index key (bkeys n)"
    "bkids n' @ bkids r = insert_at (Suc index) (Some right_node) (bkids n)"
proof -
  let ?c = "b_cnt n" and ?R = "Some right_node"
  have ix: "NodeScan key n = index" using NodeScan_rank[OF inv(1)] index(1) by simp
  define K where "K = (if b_sibling n = None then Suc ?c else ?c)"
  have K: "K = ?c \<or> K = Suc ?c" "K = ?c \<and> index < ?c \<or> K = Suc ?c" "bkids n = take K (b_children n)" "mid \<le> ?c \<Longrightarrow>
      (if b_sibling n = None then ?c - mid + 1 else ?c - mid) = K - mid" for mid
    using index(3) by (auto simp: K_def bkids_def)
  have il: "index \<le> ?c" using index(1) rank_le[of key "bkeys n"] length_bkeys[OF inv(1)] by simp
  have len: "length (b_keys n) = b_size n" "length (b_children n) = b_size n + 1" and c: "?c < b_size n"
    using inv by (simp_all add: bnode_inv_def)
  obtain n' r where run: "InnerInsert L a key left_node right_node thr n = (n', Some r)" and m: "same_node n' n"
      "b_sibling n' = Some a" "b_sibling r = b_sibling n" "\<not> b_leaf r" "b_size r = b_size n" "b_upper r = b_upper n" "b_latch r = l_init L"
    and k: "bkeys n' @ bkeys r = insert_at index key (bkeys n)" "bkids n' @ bkids r = insert_at (Suc index) ?R (bkids n)"
    and cnt: "b_cnt n' \<noteq> 0" "b_cnt n' < b_size n" "b_cnt r \<noteq> 0" "b_cnt r < b_size n"
    and lens: "length (b_keys n') = b_size n" "length (b_keys r) = b_size n" "length (b_children n') = b_size n + 1" "length (b_children r) = b_size n + 1"
  proof (cases "index \<le> ?c div 2")
    case True
    define mid where "mid = ?c div 2"
    have mid: "index \<le> mid" "mid < ?c" using True thr(2) by (auto simp: mid_def)
    define cs where "cs = (memcpy_at 0 mid (?c - mid) (b_children n) (replicate (b_size n + 1) None))[?c - mid := b_children n ! ?c]"
    define new where "new = (bl_new L (b_size n) False :: ('k, 'v, 'l) blnode)\<lparr>b_sibling := b_sibling n, b_upper := b_upper n,
       b_keys := memcpy_at 0 mid (?c - mid) (b_keys n) (replicate (b_size n) 0), b_children := cs, b_cnt := ?c - mid\<rparr>"
    define old where "old = n\<lparr>b_keys := (shift_up index mid (b_keys n))[index := key],
       b_children := shift_up (Suc index) (Suc mid) (b_children n), b_cnt := Suc mid, b_sibling := Some a\<rparr>"
    have keys: "bkeys (old\<lparr>b_children := x\<rparr>) @ bkeys (new\<lparr>b_children := y\<rparr>) = insert_at index key (bkeys n)" for x y
      using mid c len by (simp add: old_def new_def bkeys_def low_split)
    show ?thesis
    proof (cases "index < mid")
      case True
      have kids: "take (Suc mid) ((shift_up (Suc index) (Suc mid) (b_children n))[Suc index := ?R]) @ take (K - mid) cs =
          insert_at (Suc index) ?R (bkids n)"
        unfolding K(3) cs_def using True mid c len K(1) by (intro kids_low) simp_all
      show ?thesis
        using True mid c len inv(2) thr ix kids keys[of "(shift_up (Suc index) (Suc mid) (b_children n))[Suc index := ?R]" cs] K(4)[of mid]
        by (intro that[of "old\<lparr>b_children := (shift_up (Suc index) (Suc mid) (b_children n))[Suc index := ?R]\<rparr>" new])
          (simp_all add: InnerInsert_def Let_def mid_def[symmetric] cs_def old_def new_def bl_new_def same_node_def bkids_def bkeys_def cong: if_cong)
    next
      case False
      then have im: "index = mid" using mid by simp
      have kids: "take (Suc mid) (shift_up (Suc index) (Suc mid) (b_children n)) @ take (K - mid) (cs[0 := ?R]) =
          insert_at (Suc index) ?R (bkids n)"
        unfolding K(3) cs_def im using mid c len K(1) by (intro kids_middle) simp_all
      show ?thesis
        using False mid c len inv(2) thr ix kids keys[of "shift_up (Suc index) (Suc mid) (b_children n)" "cs[0 := ?R]"] K(4)[of mid]
        by (intro that[of old "new\<lparr>b_children := cs[0 := ?R]\<rparr>"])
          (simp_all add: InnerInsert_def Let_def mid_def[symmetric] cs_def old_def new_def bl_new_def same_node_def bkids_def bkeys_def cong: if_cong)
    qed
  next
    case False
    define mid where "mid = ?c div 2 + 1"
    have mid: "mid \<le> index" "mid \<le> ?c" "0 < mid" using False il by (auto simp: mid_def)
    have d: "Suc (?c div 2) = mid" by (simp add: mid_def)
    define cs where "cs = memcpy_at (index - mid + 2) (Suc index) (?c - index) (b_children n)
      ((memcpy_at 0 mid (Suc (index - mid)) (b_children n) (replicate (b_size n + 1) None))[Suc (index - mid) := ?R])"
    define ks where "ks = memcpy_at (Suc (index - mid)) index (?c - index) (b_keys n)
      ((memcpy_at 0 mid (index - mid) (b_keys n) (replicate (b_size n) 0))[index - mid := key])"
    have kids: "take mid (b_children n) @ take (Suc (K - mid)) cs = insert_at (Suc index) ?R (bkids n)"
      unfolding K(3) cs_def using mid c len K(2) il by (intro kids_high) simp_all
    have keys: "take mid (b_keys n) @ take (Suc (?c - mid)) ks = insert_at index key (bkeys n)"
      unfolding bkeys_def ks_def using mid c len il by (intro high_split) simp_all
    have cnt: "(if b_sibling n = None then Suc (Suc (?c - mid)) else Suc (?c - mid)) = Suc (K - mid)"
      using K(4)[of mid] mid by (simp split: if_splits)
    show ?thesis
      using False mid c len inv(2) thr ix kids keys cnt
      by (intro that[of "n\<lparr>b_cnt := mid, b_sibling := Some a\<rparr>" "(bl_new L (b_size n) False)\<lparr>b_sibling := b_sibling n, b_upper := b_upper n,
            b_keys := ks, b_children := cs, b_cnt := Suc (?c - mid)\<rparr>"])
        (simp_all add: InnerInsert_def Let_def d cs_def ks_def bl_new_def same_node_def bkids_def bkeys_def cong: if_cong)
  qed
  note P = split_parts[OF inv(1) m(1) _ m(5) k(1)[unfolded index(1)] index(2) cnt lens(1,2)]
  have P: "bnode_inv n'" "bnode_inv r" "bkeys n' \<noteq> []" "bkeys r \<noteq> []" using P m(4) inv(2) lens(3,4) by simp_all
  have "split_node_of L a n n' r" using m P inv(2) by (simp add: split_node_of_def)
  then show thesis using that[OF run P(1,2) m(1) _ k] by simp
qed

end
