(* ===== verification/BLinkTree.thy ===== *)
theory BLinkTree
  imports BLinkNode "HOL-Library.Monad_Syntax"
begin

text \<open>
  The B-link tree (\<open>BLinkTree\<close> of \<open>src/BLinkTree/b_link_tree.h\<close>, with the parameters of its base
  class in \<open>src/BLinkTree/b_tree.h\<close>). Nodes live in a heap; \<open>new\<close> returns the next unused
  address. One operation runs to its end before the next one starts; every latch is taken and
  given back as in the code, and an operation that would wait for ever, follows a null pointer
  or fails an assertion gives \<open>None\<close>.
\<close>

section \<open>State\<close>

record ('k, 'v, 'l) bltree =
  bt_heap :: "addr \<Rightarrow> ('k, 'v, 'l) blnode option"
  bt_next :: addr
  bt_root :: addr
  bt_leaves :: addr
  bt_depth :: nat
  bt_inner_size :: nat
  bt_leaf_size :: nat
  bt_inner_split :: rat
  bt_leaf_split :: rat

definition bt_put :: "addr \<Rightarrow> ('k, 'v, 'l) blnode \<Rightarrow> ('k, 'v, 'l) bltree \<Rightarrow> ('k, 'v, 'l) bltree" where
  "bt_put a n t = t\<lparr>bt_heap := (bt_heap t)(a \<mapsto> n)\<rparr>"

definition bt_alloc :: "('k, 'v, 'l) blnode \<Rightarrow> ('k, 'v, 'l) bltree \<Rightarrow> ('k, 'v, 'l) bltree" where
  "bt_alloc n t = (bt_put (bt_next t) n t)\<lparr>bt_next := Suc (bt_next t)\<rparr>"

definition bltree_new ::
  "'l latch_ops \<Rightarrow> nat \<Rightarrow> nat \<Rightarrow> rat \<Rightarrow> rat \<Rightarrow> ('k::zero, 'v::zero, 'l) bltree" where
  "bltree_new L inner_size leaf_size inner_split leaf_split =
     \<lparr>bt_heap = (\<lambda>_. None)(0 \<mapsto> bl_new L leaf_size True), bt_next = 1, bt_root = 0, bt_leaves = 0, bt_depth = 1,
      bt_inner_size = inner_size, bt_leaf_size = leaf_size, bt_inner_split = inner_split, bt_leaf_split = leaf_split\<rparr>"

text \<open>The defaults of \<open>BTree\<close>.\<close>

definition bltree_default :: "'l latch_ops \<Rightarrow> ('k::zero, 'v::zero, 'l) bltree" where
  "bltree_default L = bltree_new L 4096 4096 0.75 0.75"

section \<open>Latches of nodes\<close>

definition set_latch :: "('l \<Rightarrow> 'l option) \<Rightarrow> addr \<Rightarrow> ('k, 'v, 'l) bltree \<Rightarrow> ('k, 'v, 'l) bltree option" where
  "set_latch f a t = do { n \<leftarrow> bt_heap t a; l \<leftarrow> f (b_latch n); Some (bt_put a (n\<lparr>b_latch := l\<rparr>) t) }"

definition bl_latch_shared :: "'l latch_ops \<Rightarrow> addr \<Rightarrow> ('k, 'v, 'l) bltree \<Rightarrow> ('k, 'v, 'l) bltree option" where
  "bl_latch_shared L a t = set_latch (l_shared L) a t"

definition bl_unlatch_shared :: "'l latch_ops \<Rightarrow> addr \<Rightarrow> ('k, 'v, 'l) bltree \<Rightarrow> ('k, 'v, 'l) bltree option" where
  "bl_unlatch_shared L a t = set_latch (\<lambda>l. Some (l_unshared L l)) a t"

definition bl_latch_exclusive :: "'l latch_ops \<Rightarrow> addr \<Rightarrow> ('k, 'v, 'l) bltree \<Rightarrow> ('k, 'v, 'l) bltree option" where
  "bl_latch_exclusive L a t = set_latch (l_exclusive L) a t"

definition bl_unlatch_exclusive :: "'l latch_ops \<Rightarrow> addr \<Rightarrow> ('k, 'v, 'l) bltree \<Rightarrow> ('k, 'v, 'l) bltree option" where
  "bl_unlatch_exclusive L a t = set_latch (\<lambda>l. Some (l_unexclusive L l)) a t"

section \<open>Descent\<close>

text \<open>The test for a node that is splitting: the key is beyond the bound of the node.\<close>

definition beyond :: "'k::linorder \<Rightarrow> ('k, 'v, 'l) blnode \<Rightarrow> bool" where
  "beyond key n \<longleftrightarrow> b_sibling n \<noteq> None \<and> high_key n < key"

partial_function (option) TraverseInner ::
  "'l latch_ops \<Rightarrow> 'k::linorder \<Rightarrow> addr \<Rightarrow> ('k, 'v, 'l) bltree \<Rightarrow> (addr \<times> ('k, 'v, 'l) bltree) option" where
  "TraverseInner L key current t =
     do { n \<leftarrow> bt_heap t current;
          if b_leaf n then Some (current, t)
          else do { t \<leftarrow> bl_latch_shared L current t;
                    n \<leftarrow> bt_heap t current;
                    next \<leftarrow> (if beyond key n then b_sibling n else bl_child (NodeScan key n) n);
                    t \<leftarrow> bl_unlatch_shared L current t;
                    TraverseInner L key next t } }"

text \<open>The move to the right at the leaves, as readers do it and as \<open>Update\<close> does it.\<close>

partial_function (option) move_shared ::
  "'l latch_ops \<Rightarrow> 'k::linorder \<Rightarrow> addr \<Rightarrow> ('k, 'v, 'l) bltree \<Rightarrow> (addr \<times> ('k, 'v, 'l) bltree) option" where
  "move_shared L key current t =
     do { n \<leftarrow> bt_heap t current;
          if beyond key n
          then do { work \<leftarrow> b_sibling n;
                    t \<leftarrow> bl_unlatch_shared L current t;
                    t \<leftarrow> bl_latch_shared L work t;
                    move_shared L key work t }
          else Some (current, t) }"

partial_function (option) move_exclusive ::
  "'l latch_ops \<Rightarrow> 'k::linorder \<Rightarrow> addr \<Rightarrow> ('k, 'v, 'l) bltree \<Rightarrow> (addr \<times> ('k, 'v, 'l) bltree) option" where
  "move_exclusive L key current t =
     do { n \<leftarrow> bt_heap t current;
          if beyond key n
          then do { work \<leftarrow> b_sibling n;
                    t \<leftarrow> bl_unlatch_exclusive L current t;
                    t \<leftarrow> bl_latch_exclusive L work t;
                    move_exclusive L key work t }
          else Some (current, t) }"

text \<open>\<open>Insert\<close> takes the latch of the sibling before it gives back its own.\<close>

partial_function (option) move_coupled ::
  "'l latch_ops \<Rightarrow> 'k::linorder \<Rightarrow> addr \<Rightarrow> ('k, 'v, 'l) bltree \<Rightarrow> (addr \<times> ('k, 'v, 'l) bltree) option" where
  "move_coupled L key current t =
     do { n \<leftarrow> bt_heap t current;
          if beyond key n
          then do { work \<leftarrow> b_sibling n;
                    t \<leftarrow> bl_latch_exclusive L work t;
                    t \<leftarrow> bl_unlatch_exclusive L current t;
                    move_coupled L key work t }
          else Some (current, t) }"

section \<open>Search and update\<close>

definition find_value :: "'k::linorder \<Rightarrow> ('k, 'v, 'l) blnode \<Rightarrow> nat option" where
  "find_value key n =
     (let index = NodeScan key n in if index = b_cnt n \<or> b_keys n ! index \<noteq> key then None else Some index)"

text \<open>The result is the value found, \<open>None\<close> where the code returns false.\<close>

definition Search ::
  "'l latch_ops \<Rightarrow> 'k::linorder \<Rightarrow> ('k, 'v, 'l) bltree \<Rightarrow> ('v option \<times> ('k, 'v, 'l) bltree) option" where
  "Search L key t =
     do { (current, t) \<leftarrow> TraverseInner L key (bt_root t) t;
          t \<leftarrow> bl_latch_shared L current t;
          (current, t) \<leftarrow> move_shared L key current t;
          n \<leftarrow> bt_heap t current;
          let r = map_option (\<lambda>index. b_values n ! index) (find_value key n);
          t \<leftarrow> bl_unlatch_shared L current t;
          Some (r, t) }"

definition Update ::
  "'l latch_ops \<Rightarrow> 'k::linorder \<Rightarrow> 'v \<Rightarrow> ('k, 'v, 'l) bltree \<Rightarrow> (bool \<times> ('k, 'v, 'l) bltree) option" where
  "Update L key val t =
     do { (current, t) \<leftarrow> TraverseInner L key (bt_root t) t;
          t \<leftarrow> bl_latch_exclusive L current t;
          (current, t) \<leftarrow> move_exclusive L key current t;
          n \<leftarrow> bt_heap t current;
          case find_value key n of
            None \<Rightarrow> do { t \<leftarrow> bl_unlatch_exclusive L current t; Some (False, t) }
          | Some index \<Rightarrow>
              do { t \<leftarrow> bl_unlatch_exclusive L current (bt_put current (n\<lparr>b_values := (b_values n)[index := val]\<rparr>) t);
                   Some (True, t) } }"

text \<open>\<open>SearchUnsafe\<close> asserts that no node is splitting.\<close>

partial_function (option) SearchUnsafe_from :: "'k::linorder \<Rightarrow> ('k, 'v, 'l) bltree \<Rightarrow> addr \<Rightarrow> 'v option option" where
  "SearchUnsafe_from key t current =
     do { n \<leftarrow> bt_heap t current;
          if beyond key n then None
          else if b_leaf n then Some (map_option (\<lambda>index. b_values n ! index) (find_value key n))
          else do { next \<leftarrow> bl_child (NodeScan key n) n; SearchUnsafe_from key t next } }"

definition SearchUnsafe :: "'k::linorder \<Rightarrow> ('k, 'v, 'l) bltree \<Rightarrow> 'v option option" where
  "SearchUnsafe key t = SearchUnsafe_from key t (bt_root t)"

text \<open>\<open>Delete\<close> is not implemented: it returns false.\<close>

definition Delete :: "'k \<Rightarrow> ('k, 'v, 'l) bltree \<Rightarrow> bool \<times> ('k, 'v, 'l) bltree" where
  "Delete key t = (False, t)"

section \<open>Insertion\<close>

text \<open>
  The descent of \<open>Insert\<close>, which records its path; \<open>None\<close> inside is the early return for a key
  that is a separator.
\<close>

partial_function (option) insert_descend ::
  "'l latch_ops \<Rightarrow> 'k::linorder \<Rightarrow> addr \<Rightarrow> addr list \<Rightarrow> ('k, 'v, 'l) bltree \<Rightarrow>
   ((addr \<times> addr list) option \<times> ('k, 'v, 'l) bltree) option" where
  "insert_descend L key current path t =
     do { n \<leftarrow> bt_heap t current;
          if b_leaf n then Some (Some (current, path), t)
          else do { t \<leftarrow> bl_latch_shared L current t;
                    n \<leftarrow> bt_heap t current;
                    if beyond key n
                    then do { next \<leftarrow> b_sibling n;
                              t \<leftarrow> bl_unlatch_shared L current t;
                              insert_descend L key next path t }
                    else let index = NodeScan key n
                         in if index < b_cnt n \<and> b_keys n ! index = key
                            then do { t \<leftarrow> bl_unlatch_shared L current t; Some (None, t) }
                            else do { next \<leftarrow> bl_child index n;
                                      t \<leftarrow> bl_unlatch_shared L current t;
                                      insert_descend L key next (current # path) t } } }"

text \<open>The node that gets the new separator, before it is latched: a new root, the last node of the path or the level above.\<close>

definition parent_of ::
  "'l latch_ops \<Rightarrow> addr \<Rightarrow> addr \<Rightarrow> addr list \<Rightarrow> ('k::zero, 'v::zero, 'l) bltree \<Rightarrow>
   (addr \<times> addr list \<times> ('k, 'v, 'l) bltree) option" where
  "parent_of L current new path t =
     (if current = bt_root t
      then do { n \<leftarrow> bt_heap t current;
                r \<leftarrow> bt_heap t new;
                let work = bt_next t;
                let t = bt_alloc (bl_new L (bt_inner_size t) False) t;
                let t = bt_put new (r\<lparr>b_upper := Some work\<rparr>) (bt_put current (n\<lparr>b_upper := Some work\<rparr>) t);
                Some (work, path, t\<lparr>bt_depth := bt_depth t + 1\<rparr>) }
      else case path of
             work # path \<Rightarrow> Some (work, path, t)
           | [] \<Rightarrow> do { n \<leftarrow> bt_heap t current; work \<leftarrow> b_upper n; Some (work, [], t) })"

text \<open>The loop that hands splits up; \<open>new\<close> is the node that the last insertion made, if it split.\<close>

partial_function (option) insert_up ::
  "'l latch_ops \<Rightarrow> addr \<Rightarrow> addr option \<Rightarrow> addr list \<Rightarrow> ('k::{linorder,zero}, 'v::zero, 'l) bltree \<Rightarrow> ('k, 'v, 'l) bltree option" where
  "insert_up L current new path t =
     (case new of
        None \<Rightarrow> bl_unlatch_exclusive L current t
      | Some new \<Rightarrow>
          do { r \<leftarrow> bt_heap t new;
               n \<leftarrow> bt_heap t current;
               right_max_key \<leftarrow> bl_key (b_cnt r - 1) r;
               left_max_key \<leftarrow> bl_key (b_cnt n - 1) n;
               let was_root = (current = bt_root t);
               (work, path, t) \<leftarrow> parent_of L current new path t;
               t \<leftarrow> bl_latch_exclusive L work t;
               let t = (if was_root then t\<lparr>bt_root := work\<rparr> else t);
               (work, t) \<leftarrow> move_coupled L right_max_key work t;
               t \<leftarrow> bl_unlatch_exclusive L current t;
               w \<leftarrow> bt_heap t work;
               let a = bt_next t;
               let (w, made) = InnerInsert L a left_max_key current new (bt_inner_split t) w;
               case made of
                 None \<Rightarrow> insert_up L work None path (bt_put work w t)
               | Some r \<Rightarrow> insert_up L work (Some a) path (bt_alloc r (bt_put work w t)) })"

definition Insert ::
  "'l latch_ops \<Rightarrow> 'k::{linorder,zero} \<Rightarrow> 'v::zero \<Rightarrow> ('k, 'v, 'l) bltree \<Rightarrow> (bool \<times> ('k, 'v, 'l) bltree) option" where
  "Insert L key val t =
     do { (r, t) \<leftarrow> insert_descend L key (bt_root t) [] t;
          case r of
            None \<Rightarrow> Some (False, t)
          | Some (current, path) \<Rightarrow>
              do { t \<leftarrow> bl_latch_exclusive L current t;
                   (current, t) \<leftarrow> move_coupled L key current t;
                   n \<leftarrow> bt_heap t current;
                   let index = NodeScan key n;
                   if index < b_cnt n \<and> b_keys n ! index = key
                   then do { t \<leftarrow> bl_unlatch_exclusive L current t; Some (False, t) }
                   else let a = bt_next t; (n, made) = LeafInsert L a key val index (bt_leaf_split t) n;
                            t = (case made of
                                   None \<Rightarrow> bt_put current n t
                                 | Some r \<Rightarrow> bt_alloc r (bt_put current n t))
                        in do { t \<leftarrow> insert_up L current (map_option (\<lambda>_. a) made) path t; Some (True, t) } } }"

section \<open>Scans\<close>

text \<open>The key-value pairs of a leaf from an index on.\<close>

definition pairs_from :: "nat \<Rightarrow> ('k, 'v, 'l) blnode \<Rightarrow> ('k \<times> 'v) list" where
  "pairs_from index n = map (\<lambda>i. (b_keys n ! i, b_values n ! i)) [index..<b_cnt n]"

fun unlatch_all :: "'l latch_ops \<Rightarrow> addr list \<Rightarrow> ('k, 'v, 'l) bltree \<Rightarrow> ('k, 'v, 'l) bltree option" where
  "unlatch_all L [] t = Some t"
| "unlatch_all L (a # as) t = do { t \<leftarrow> bl_unlatch_shared L a t; unlatch_all L as t }"

text \<open>The loop of \<open>ScanFixed\<close>; \<open>stack\<close> holds the latched leaves, the current one first, \<open>todo\<close> is what is left to scan.\<close>

partial_function (option) scan_fixed ::
  "'l latch_ops \<Rightarrow> addr \<Rightarrow> nat \<Rightarrow> nat \<Rightarrow> addr list \<Rightarrow> ('k \<times> 'v) list \<Rightarrow> ('k, 'v, 'l) bltree \<Rightarrow>
   (('k \<times> 'v) list \<times> ('k, 'v, 'l) bltree) option" where
  "scan_fixed L current index todo stack out t =
     (if todo = 0 then do { t \<leftarrow> unlatch_all L stack t; Some (out, t) }
      else do { n \<leftarrow> bt_heap t current;
                let kvs = pairs_from index n;
                if todo \<le> length kvs then do { t \<leftarrow> unlatch_all L stack t; Some (out @ take todo kvs, t) }
                else case b_sibling n of
                       None \<Rightarrow> do { t \<leftarrow> unlatch_all L stack t; Some (out @ kvs, t) }
                     | Some next \<Rightarrow>
                         do { t \<leftarrow> bl_latch_shared L next t;
                              scan_fixed L next 0 (todo - length kvs) (next # stack) (out @ kvs) t } })"

partial_function (option) scan_range ::
  "'l latch_ops \<Rightarrow> 'k::linorder \<Rightarrow> addr \<Rightarrow> nat \<Rightarrow> addr list \<Rightarrow> ('k \<times> 'v) list \<Rightarrow> ('k, 'v, 'l) bltree \<Rightarrow>
   (('k \<times> 'v) list \<times> ('k, 'v, 'l) bltree) option" where
  "scan_range L right_key current index stack out t =
     do { n \<leftarrow> bt_heap t current;
          let kvs = takeWhile (\<lambda>(k, _). \<not> k \<ge> right_key) (pairs_from index n);
          if length kvs < length (pairs_from index n) then do { t \<leftarrow> unlatch_all L stack t; Some (out @ kvs, t) }
          else case b_sibling n of
                 None \<Rightarrow> do { t \<leftarrow> unlatch_all L stack t; Some (out @ kvs, t) }
               | Some next \<Rightarrow>
                   do { t \<leftarrow> bl_latch_shared L next t;
                        scan_range L right_key next 0 (next # stack) (out @ kvs) t } }"

text \<open>The part that the scans share: the leaf of the left key, and false if no key there is large enough.\<close>

definition scan_start ::
  "'l latch_ops \<Rightarrow> 'k::linorder \<Rightarrow> ('k, 'v, 'l) bltree \<Rightarrow> ((addr \<times> nat) option \<times> ('k, 'v, 'l) bltree) option" where
  "scan_start L left_key t =
     do { (current, t) \<leftarrow> TraverseInner L left_key (bt_root t) t;
          t \<leftarrow> bl_latch_shared L current t;
          (current, t) \<leftarrow> move_shared L left_key current t;
          n \<leftarrow> bt_heap t current;
          let index = NodeScan left_key n;
          if index = b_cnt n then do { t \<leftarrow> bl_unlatch_shared L current t; Some (None, t) }
          else Some (Some (current, index), t) }"

definition ScanFixed ::
  "'l latch_ops \<Rightarrow> 'k::linorder \<Rightarrow> nat \<Rightarrow> ('k, 'v, 'l) bltree \<Rightarrow> (('k \<times> 'v) list option \<times> ('k, 'v, 'l) bltree) option" where
  "ScanFixed L left_key scan_sz t =
     do { (r, t) \<leftarrow> scan_start L left_key t;
          case r of
            None \<Rightarrow> Some (None, t)
          | Some (current, index) \<Rightarrow>
              do { (out, t) \<leftarrow> scan_fixed L current index scan_sz [current] [] t; Some (Some out, t) } }"

definition ScanRange ::
  "'l latch_ops \<Rightarrow> 'k::linorder \<Rightarrow> 'k \<Rightarrow> ('k, 'v, 'l) bltree \<Rightarrow> (('k \<times> 'v) list option \<times> ('k, 'v, 'l) bltree) option" where
  "ScanRange L left_key right_key t =
     do { (r, t) \<leftarrow> scan_start L left_key t;
          case r of
            None \<Rightarrow> Some (None, t)
          | Some (current, index) \<Rightarrow>
              do { (out, t) \<leftarrow> scan_range L right_key current index [current] [] t; Some (Some out, t) } }"

partial_function (option) scan_leaves :: "addr option \<Rightarrow> ('k \<times> 'v) list \<Rightarrow> ('k, 'v, 'l) bltree \<Rightarrow> ('k \<times> 'v) list option" where
  "scan_leaves work out t =
     (case work of
        None \<Rightarrow> Some out
      | Some work \<Rightarrow> do { n \<leftarrow> bt_heap t work; scan_leaves (b_sibling n) (out @ pairs_from 0 n) t })"

definition ScanLeaf :: "('k, 'v, 'l) bltree \<Rightarrow> ('k \<times> 'v) list option" where
  "ScanLeaf t = scan_leaves (Some (bt_leaves t)) [] t"

definition GetTreeDepth :: "('k, 'v, 'l) bltree \<Rightarrow> nat" where "GetTreeDepth t = bt_depth t"

section \<open>Destruction\<close>

partial_function (option) delete_right :: "addr option \<Rightarrow> ('k, 'v, 'l) bltree \<Rightarrow> ('k, 'v, 'l) bltree option" where
  "delete_right current t =
     (case current of
        None \<Rightarrow> Some t
      | Some a \<Rightarrow> do { n \<leftarrow> bt_heap t a; delete_right (b_sibling n) (t\<lparr>bt_heap := (bt_heap t)(a := None)\<rparr>) })"

partial_function (option) delete_levels :: "addr \<Rightarrow> ('k, 'v, 'l) bltree \<Rightarrow> ('k, 'v, 'l) bltree option" where
  "delete_levels left t =
     do { n \<leftarrow> bt_heap t left;
          t \<leftarrow> delete_right (b_sibling n) t;
          if b_leaf n then Some (t\<lparr>bt_heap := (bt_heap t)(left := None)\<rparr>)
          else do { next \<leftarrow> bl_child 0 n; delete_levels next (t\<lparr>bt_heap := (bt_heap t)(left := None)\<rparr>) } }"

definition bltree_destroy :: "('k, 'v, 'l) bltree \<Rightarrow> ('k, 'v, 'l) bltree option" where
  "bltree_destroy t = delete_levels (bt_root t) t"

end
