(* ===== verification/BLinkLevels.thy ===== *)
theory BLinkLevels
  imports BLinkTree Blocks
begin

text \<open>
  The shape of a B-link tree between two operations: a list of leaves and, above them, the levels
  of inner nodes, each from left to right, all nodes unlatched. The heap is exactly the map of these
  nodes. The keys of a level of inner nodes are the bounds of the nodes of the level below, where the
  bound of a node is its last key. The descent of every operation reaches the leaf whose number is the
  rank of the key among the bounds of the leaves.
\<close>

type_synonym ('k, 'v, 'l) bcell = "addr \<times> ('k, 'v, 'l) blnode"

section \<open>Levels\<close>

text \<open>The siblings of a part of a level that is followed by the node \<open>e\<close>.\<close>

fun chain :: "('k, 'v, 'l) bcell list \<Rightarrow> ptr \<Rightarrow> bool" where
  "chain [] e \<longleftrightarrow> True"
| "chain (x # xs) e \<longleftrightarrow> b_sibling (snd x) = (if xs = [] then e else Some (fst (hd xs))) \<and> chain xs e"

definition lkeys :: "('k, 'v, 'l) bcell list \<Rightarrow> 'k list" where "lkeys ns = concat (map (bkeys \<circ> snd) ns)"
definition lkids :: "('k, 'v, 'l) bcell list \<Rightarrow> ptr list" where "lkids ns = concat (map (bkids \<circ> snd) ns)"
definition lbounds :: "('k, 'v, 'l) bcell list \<Rightarrow> 'k list" where "lbounds ns = block_bounds (map (bkeys \<circ> snd) ns)"

definition cell_ok :: "'l latch_ops \<Rightarrow> nat \<Rightarrow> bool \<Rightarrow> ('k::linorder, 'v, 'l) bcell \<Rightarrow> bool" where
  "cell_ok L sz leaf x \<longleftrightarrow> bnode_inv (snd x) \<and> b_leaf (snd x) = leaf \<and> b_size (snd x) = sz \<and> b_latch (snd x) = l_init L"

definition blevel :: "'l latch_ops \<Rightarrow> nat \<Rightarrow> bool \<Rightarrow> ('k::linorder, 'v, 'l) bcell list \<Rightarrow> bool" where
  "blevel L sz leaf ns \<longleftrightarrow> ns \<noteq> [] \<and> (\<forall>x\<in>set ns. cell_ok L sz leaf x) \<and> chain ns None \<and>
     (\<forall>x\<in>set (butlast ns). bkeys (snd x) \<noteq> []) \<and> sorted_wrt (<) (lkeys ns)"

fun blevels :: "'l latch_ops \<Rightarrow> nat \<Rightarrow> ('k::linorder, 'v, 'l) bcell list list \<Rightarrow> addr list \<Rightarrow> 'k list \<Rightarrow> bool" where
  "blevels L sz [] addrs bnds \<longleftrightarrow> length addrs = 1 \<and> bnds = []"
| "blevels L sz (ns # nss) addrs bnds \<longleftrightarrow>
     blevel L sz False ns \<and> (\<forall>x\<in>set ns. bkeys (snd x) \<noteq> []) \<and> lkids ns = map Some addrs \<and> lkeys ns = bnds \<and>
     blevels L sz nss (map fst ns) (lbounds ns)"

text \<open>The parameters of a tree: a node takes a key when it is empty, and is never filled completely.\<close>

definition params_ok :: "('k, 'v, 'l) bltree \<Rightarrow> bool" where
  "params_ok t \<longleftrightarrow> 1 / of_nat (bt_inner_size t) < bt_inner_split t \<and> bt_inner_split t \<le> 1 \<and> 0 < bt_inner_size t \<and>
     1 / of_nat (bt_leaf_size t) < bt_leaf_split t \<and> bt_leaf_split t \<le> 1 \<and> 0 < bt_leaf_size t"

definition bcells_ok :: "('k, 'v, 'l) bltree \<Rightarrow> ('k, 'v, 'l) bcell list \<Rightarrow> bool" where
  "bcells_ok t xs \<longleftrightarrow> bt_heap t = map_of xs \<and> distinct (map fst xs) \<and> (\<forall>a\<in>fst ` set xs. a < bt_next t)"

definition bltree_ok :: "'l latch_ops \<Rightarrow> ('k::linorder, 'v, 'l) bltree \<Rightarrow> ('k, 'v, 'l) bcell list \<Rightarrow> ('k, 'v, 'l) bcell list list \<Rightarrow> bool" where
  "bltree_ok L t ls nss \<longleftrightarrow> params_ok t \<and> blevel L (bt_leaf_size t) True ls \<and>
     blevels L (bt_inner_size t) nss (map fst ls) (lbounds ls) \<and> bcells_ok t (concat (ls # nss)) \<and>
     bt_root t = fst (hd (last (ls # nss))) \<and> bt_leaves t = fst (hd ls) \<and> bt_depth t = Suc (length nss)"

text \<open>The pairs of the leaves, and the map.\<close>

definition lpairs :: "('k, 'v, 'l) bcell list \<Rightarrow> ('k \<times> 'v) list" where
  "lpairs ls = concat (map (\<lambda>x. zip (bkeys (snd x)) (bvals (snd x))) ls)"

definition bl_map :: "('k, 'v, 'l) bcell list \<Rightarrow> 'k \<Rightarrow> 'v option" where "bl_map ls = map_of (lpairs ls)"

text \<open>The nodes above the leaf of a key, from below.\<close>

fun bpath :: "'k::linorder \<Rightarrow> ('k, 'v, 'l) bcell list list \<Rightarrow> addr list" where
  "bpath k [] = []"
| "bpath k (ns # nss) = fst (ns ! rank k (lbounds ns)) # bpath k nss"

section \<open>The node of a key\<close>

lemma chain_append: "chain (xs @ ys) e \<longleftrightarrow> chain xs (if ys = [] then e else Some (fst (hd ys))) \<and> chain ys e"
  by (induction xs) auto

lemma lists_append [simp]:
  "lkeys (xs @ ys) = lkeys xs @ lkeys ys" "lkids (xs @ ys) = lkids xs @ lkids ys" "lpairs (xs @ ys) = lpairs xs @ lpairs ys"
  "lkeys (x # xs) = bkeys (snd x) @ lkeys xs" "lkids (x # xs) = bkids (snd x) @ lkids xs"
  "lpairs (x # xs) = zip (bkeys (snd x)) (bvals (snd x)) @ lpairs xs" "lkeys [] = []" "lkids [] = []" "lpairs [] = []"
  by (simp_all add: lkeys_def lkids_def lpairs_def)

lemma blevel_locate:
  assumes "blevel L sz leaf ns"
  obtains X w n Y where "ns = X @ (w, n) # Y" "length X = rank k (lbounds ns)" "w = fst (ns ! rank k (lbounds ns))"
    "rank k (lkeys ns) = length (lkeys X) + rank k (bkeys n)" "Y \<noteq> [] \<Longrightarrow> rank k (bkeys n) < length (bkeys n)"
proof -
  let ?xss = "map (bkeys \<circ> snd) ns"
  define p where "p = rank k (lbounds ns)"
  have "xs \<noteq> []" if "xs \<in> set (butlast ?xss)" for xs using assms that by (auto simp: blevel_def map_butlast[symmetric])
  then have b: "p < length ns" "rank k (lkeys ns) = length (concat (take p ?xss)) + rank k (?xss ! p)"
    "Suc p < length ns \<longrightarrow> rank k (?xss ! p) < length (?xss ! p)"
    using block_rank[of ?xss p k] assms by (auto simp: blevel_def lkeys_def lbounds_def p_def)
  obtain w n where wn: "ns ! p = (w, n)" by fastforce
  show ?thesis
  proof (rule that)
    show "ns = take p ns @ (w, n) # drop (Suc p) ns" using id_take_nth_drop[OF b(1)] wn by simp
    show "rank k (lkeys ns) = length (lkeys (take p ns)) + rank k (bkeys n)" using b(1,2) wn by (simp add: lkeys_def take_map)
    show "drop (Suc p) ns \<noteq> [] \<Longrightarrow> rank k (bkeys n) < length (bkeys n)" using b(1,3) wn by simp
  qed (use b(1) wn in \<open>simp_all add: p_def\<close>)
qed

text \<open>What a node is like at its place in a level.\<close>

lemma blevel_at:
  assumes "blevel L sz leaf (X @ (w, n) # Y)"
  shows "bnode_inv n" "b_leaf n = leaf" "b_size n = sz" "b_latch n = l_init L"
    "b_sibling n = (if Y = [] then None else Some (fst (hd Y)))" "sorted_wrt (<) (bkeys n)"
    "x \<in> set (lkeys X) \<Longrightarrow> y \<in> set (bkeys n) \<Longrightarrow> x < y" "y \<in> set (bkeys n) \<Longrightarrow> z \<in> set (lkeys Y) \<Longrightarrow> y < z"
    "Y \<noteq> [] \<Longrightarrow> bkeys n \<noteq> []"
  using assms by (auto simp: blevel_def cell_ok_def chain_append sorted_wrt_append butlast_append)

lemma high_key_last: "bnode_inv n \<Longrightarrow> bkeys n \<noteq> [] \<Longrightarrow> high_key n = last (bkeys n)"
  using length_bkeys[of n] by (auto simp: high_key_def bkeys_def last_conv_nth)

lemma rank_less_last: "sorted_wrt (<) xs \<Longrightarrow> rank k xs < length xs \<Longrightarrow> k \<le> last (xs :: 'a::linorder list)"
  using rank_nth_ge[of xs k "length xs - 1"] by (cases "xs = []") (auto simp: last_conv_nth)

text \<open>No operation has to move right from it.\<close>

lemma not_beyond:
  assumes "blevel L sz leaf (X @ (w, n) # Y)" "Y \<noteq> [] \<Longrightarrow> rank k (bkeys n) < length (bkeys n)"
  shows "\<not> beyond k n"
proof (cases "Y = []")
  case False
  then have "k \<le> last (bkeys n)" using rank_less_last[OF blevel_at(6)[OF assms(1)]] assms(2) by blast
  then show ?thesis using high_key_last[OF blevel_at(1,9)[OF assms(1)]] False by (auto simp: beyond_def)
qed (use blevel_at(5)[OF assms(1)] in \<open>simp add: beyond_def\<close>)

lemma rank_found:
  assumes "sorted_wrt (<) (xs :: 'a::linorder list)"
  shows "rank k xs < length xs \<and> xs ! rank k xs = k \<longleftrightarrow> k \<in> set xs"
proof
  assume "k \<in> set xs"
  then obtain i where i: "i < length xs" "xs ! i = k" by (auto simp: in_set_conv_nth)
  then have "\<not> i < rank k xs" using less_rank_iff[OF assms i(1)] by simp
  moreover have "\<not> rank k xs < i"
  proof
    assume "rank k xs < i"
    then have "xs ! rank k xs < k" using assms i by (auto simp: sorted_wrt_iff_nth_less)
    then show False using less_rank_iff[OF assms, of "rank k xs" k] \<open>rank k xs < i\<close> i by simp
  qed
  ultimately show "rank k xs < length xs \<and> xs ! rank k xs = k" using i by (metis linorder_neqE_nat)
qed (metis nth_mem)

lemma key_position:
  assumes "bnode_inv n"
  shows "NodeScan k n < b_cnt n \<and> b_keys n ! NodeScan k n = k \<longleftrightarrow> k \<in> set (bkeys n)"
  using rank_found[of "bkeys n" k] length_bkeys[OF assms] assms
  by (auto simp: NodeScan_rank bnode_inv_def bkeys_def)

section \<open>The heap\<close>

lemma bcells_ok_mset: "bcells_ok t xs \<Longrightarrow> mset xs = mset ys \<Longrightarrow> bcells_ok t ys"
  unfolding bcells_ok_def
  by (metis image_set mset_eq_imp_distinct_iff mset_eq_setD mset_map map_of_inject_set)

lemma bcells_get: "bcells_ok t xs \<Longrightarrow> (a, n) \<in> set xs \<Longrightarrow> bt_heap t a = Some n"
  by (simp add: bcells_ok_def)

lemma bt_put_fields [simp]:
  "bt_heap (bt_put a n t) = (bt_heap t)(a \<mapsto> n)" "bt_next (bt_put a n t) = bt_next t" "bt_root (bt_put a n t) = bt_root t"
  "bt_leaves (bt_put a n t) = bt_leaves t" "bt_depth (bt_put a n t) = bt_depth t" "bt_inner_size (bt_put a n t) = bt_inner_size t"
  "bt_leaf_size (bt_put a n t) = bt_leaf_size t" "bt_inner_split (bt_put a n t) = bt_inner_split t"
  "bt_leaf_split (bt_put a n t) = bt_leaf_split t" "bt_put a n (bt_put a m t) = bt_put a n t"
  by (simp_all add: bt_put_def)

lemma bt_put_same: "bt_heap t a = Some n \<Longrightarrow> bt_put a n t = t"
  by (simp add: bt_put_def fun_upd_idem)

lemma bcells_put: "bcells_ok t ((a, n) # xs) \<Longrightarrow> bcells_ok (bt_put a m t) ((a, m) # xs)"
  by (simp add: bcells_ok_def)

lemma bcells_alloc: "bcells_ok t xs \<Longrightarrow> a = bt_next t \<Longrightarrow> bcells_ok (bt_alloc m t) ((a, m) # xs)"
  by (force simp: bcells_ok_def bt_alloc_def)

lemma bcells_fresh: "bcells_ok t xs \<Longrightarrow> bt_next t \<notin> fst ` set xs"
  by (auto simp: bcells_ok_def)

section \<open>Latches\<close>

lemma latch_idem: "b_latch n = l \<Longrightarrow> bt_put a (n\<lparr>b_latch := l\<rparr>) t = bt_put a n t"
  by (cases n) simp

context latch
begin

text \<open>A shared latch that is given back leaves no trace.\<close>

lemma shared_section:
  assumes "bt_heap t a = Some n" "b_latch n = l_init L"
  obtains l where "bl_latch_shared L a t = Some (bt_put a (n\<lparr>b_latch := l\<rparr>) t)"
    "bl_unlatch_shared L a (bt_put a (n\<lparr>b_latch := l\<rparr>) t) = Some t"
proof -
  obtain l where l: "l_shared L (l_init L) = Some l" "l_unshared L l = l_init L" using shared_free by blast
  show ?thesis using assms l bt_put_same[OF assms(1)] latch_idem[OF assms(2)]
    by (intro that[of l]) (simp_all add: bl_latch_shared_def bl_unlatch_shared_def set_latch_def)
qed

end

section \<open>Descent\<close>

lemma beyond_latch [simp]: "beyond k (n\<lparr>b_latch := l\<rparr>) = beyond k n"
  by (simp add: beyond_def high_key_def)

lemma NodeScan_latch [simp]: "NodeScan k (n\<lparr>b_latch := l\<rparr>) = NodeScan k n"
  by (simp add: NodeScan_def)

lemma bl_child_latch [simp]: "bl_child i (n\<lparr>b_latch := l\<rparr>) = bl_child i n"
  by (simp add: bl_child_def)

lemma length_bkids: "bnode_inv n \<Longrightarrow> \<not> b_leaf n \<Longrightarrow> length (bkids n) = (if b_sibling n = None then Suc (b_cnt n) else b_cnt n)"
  by (simp add: bkids_def bnode_inv_def)

lemma chain_lens:
  "chain X (Some e) \<Longrightarrow> \<forall>x\<in>set X. bnode_inv (snd x) \<and> \<not> b_leaf (snd x) \<Longrightarrow> length (lkids X) = length (lkeys X)"
  by (induction X) (auto simp: length_bkids length_bkeys split: if_splits)

text \<open>The child that the descent goes to.\<close>

lemma child_at:
  assumes ok: "blevel L sz False ns" and ki: "lkids ns = map Some addrs" and ns: "ns = X @ (w, n) # Y"
    and r: "rank k (lkeys ns) = length (lkeys X) + rank k (bkeys n)" "Y \<noteq> [] \<Longrightarrow> rank k (bkeys n) < length (bkeys n)"
  shows "bl_child (NodeScan k n) n = Some (addrs ! rank k (lkeys ns))" "rank k (lkeys ns) < length addrs"
    "bkids n ! rank k (bkeys n) = Some (addrs ! rank k (lkeys ns))" "length (lkids X) = length (lkeys X)"
    "rank k (bkeys n) < length (bkids n)"
proof -
  note A = blevel_at[OF ok[unfolded ns]]
  show X: "length (lkids X) = length (lkeys X)"
    using ok by (intro chain_lens[of X w]) (auto simp: ns blevel_def cell_ok_def chain_append)
  show q: "rank k (bkeys n) < length (bkids n)"
    using length_bkids[OF A(1)] A(2,5) r(2) length_bkeys[OF A(1)] rank_le[of k "bkeys n"] by (auto simp del: rank_le)
  have "map Some addrs ! (length (lkids X) + rank k (bkeys n)) = bkids n ! rank k (bkeys n)"
    unfolding ki[symmetric] using q by (simp add: ns nth_append)
  moreover show len: "rank k (lkeys ns) < length addrs"
    using arg_cong[OF ki, of length] q X unfolding r(1) by (simp add: ns)
  ultimately show kid: "bkids n ! rank k (bkeys n) = Some (addrs ! rank k (lkeys ns))" using X r(1) by simp
  have "bl_child (NodeScan k n) n = bkids n ! rank k (bkeys n)"
    using q length_bkids[OF A(1)] A(2) by (auto simp: NodeScan_rank[OF A(1)] bl_child_def bkids_def less_Suc_eq split: if_splits)
  then show "bl_child (NodeScan k n) n = Some (addrs ! rank k (lkeys ns))" using kid by simp
qed

lemma sorted_lbounds:
  assumes "blevel L sz leaf ns"
  shows "sorted_wrt (<) (lbounds ns)" "set (lbounds ns) \<subseteq> set (lkeys ns)"
proof -
  have "\<forall>xs\<in>set (butlast (map (bkeys \<circ> snd) ns)). xs \<noteq> []" using assms by (auto simp: blevel_def map_butlast[symmetric])
  then show "sorted_wrt (<) (lbounds ns)" "set (lbounds ns) \<subseteq> set (lkeys ns)"
    using assms sorted_block_bounds block_bounds_subset unfolding lbounds_def lkeys_def blevel_def by blast+
qed

lemma level_member:
  assumes ok: "blevel L sz leaf ns" and ns: "ns = X @ (w, n) # Y"
    and r: "rank k (lkeys ns) = length (lkeys X) + rank k (bkeys n)" "Y \<noteq> [] \<Longrightarrow> rank k (bkeys n) < length (bkeys n)"
  shows "k \<in> set (lkeys ns) \<longleftrightarrow> k \<in> set (bkeys n)"
proof
  have s: "sorted_wrt (<) (lkeys ns)" using ok by (simp add: blevel_def)
  assume "k \<in> set (lkeys ns)"
  then have f: "rank k (lkeys ns) < length (lkeys ns)" "lkeys ns ! rank k (lkeys ns) = k" using rank_found[OF s, of k] by auto
  then have l: "rank k (bkeys n) < length (bkeys n)" using r by (cases "Y = []") (auto simp: ns)
  then have "lkeys ns ! rank k (lkeys ns) = bkeys n ! rank k (bkeys n)" unfolding r(1) by (simp add: ns nth_append)
  then show "k \<in> set (bkeys n)" using f(2) l by (metis nth_mem)
qed (simp add: ns)

abbreviation top_of :: "('k, 'v, 'l) bcell list list \<Rightarrow> addr list \<Rightarrow> addr" where
  "top_of nss addrs \<equiv> (if nss = [] then hd addrs else fst (hd (last nss)))"

lemma top_of_Cons: "blevels L sz (ns # nss) addrs bnds \<Longrightarrow> top_of (ns # nss) addrs = top_of nss (map fst ns)"
  by (cases "nss = []") (simp_all add: hd_map blevel_def)

lemma bltree_root: "bltree_ok L t ls nss \<Longrightarrow> bt_root t = top_of nss (map fst ls)"
  by (cases ls) (auto simp: bltree_ok_def blevel_def)

lemma rank_lbounds_less: "ns \<noteq> [] \<Longrightarrow> rank k (lbounds ns) < length ns"
  using rank_le[of k "lbounds ns"] by (cases ns) (auto simp: lbounds_def block_bounds_def simp del: rank_le)

context latch
begin

text \<open>One node of the descent: what it is like, and that the operations leave it as it was.\<close>

lemma level_node:
  assumes lv: "blevels L sz (ns # nss) addrs bnds" and c: "bcells_ok t xs" "set (concat (ns # nss)) \<subseteq> set xs"
  obtains w n l where "map fst ns ! rank k (lbounds ns) = w" "bt_heap t w = Some n" "\<not> b_leaf n" "bnode_inv n" "\<not> beyond k n"
    "bl_child (NodeScan k n) n = Some (addrs ! rank k bnds)" "k \<in> set (bkeys n) \<longleftrightarrow> k \<in> set bnds"
    "bl_latch_shared L w t = Some (bt_put w (n\<lparr>b_latch := l\<rparr>) t)" "bl_unlatch_shared L w (bt_put w (n\<lparr>b_latch := l\<rparr>) t) = Some t"
proof -
  have ok: "blevel L sz False ns" and ki: "lkids ns = map Some addrs" "lkeys ns = bnds" using lv by simp_all
  obtain X w n Y where ns: "ns = X @ (w, n) # Y" "length X = rank k (lbounds ns)"
    "rank k (lkeys ns) = length (lkeys X) + rank k (bkeys n)" "Y \<noteq> [] \<Longrightarrow> rank k (bkeys n) < length (bkeys n)"
    using blevel_locate[OF ok] by metis
  note A = blevel_at[OF ok[unfolded ns(1)]] and C = child_at[OF ok ki(1) ns(1,3,4)]
  have h: "bt_heap t w = Some n" by (rule bcells_get[OF c(1)]) (use c(2) ns(1) in auto)
  have w: "map fst ns ! rank k (lbounds ns) = w"
    using ns(1,2) by (metis (no_types) fst_conv length_map list.simps(9) map_append nth_append_length)
  obtain l where "bl_latch_shared L w t = Some (bt_put w (n\<lparr>b_latch := l\<rparr>) t)"
    "bl_unlatch_shared L w (bt_put w (n\<lparr>b_latch := l\<rparr>) t) = Some t" using shared_section[OF h A(4)] by blast
  then show ?thesis
    using that w h A(1,2) not_beyond[OF ok[unfolded ns(1)] ns(4)] C(1) level_member[OF ok ns(1,3,4)] ki(2) by simp
qed

lemma TraverseInner_levels:
  assumes "blevels L sz nss addrs bnds" "bcells_ok t xs" "set (concat nss) \<subseteq> set xs"
  shows "TraverseInner L k (top_of nss addrs) t = TraverseInner L k (addrs ! rank k bnds) t"
  using assms
proof (induction nss arbitrary: addrs bnds)
  case Nil
  then show ?case by (cases addrs) auto
next
  case (Cons ns nss)
  obtain w n l where N: "map fst ns ! rank k (lbounds ns) = w" "bt_heap t w = Some n" "\<not> b_leaf n" "bnode_inv n" "\<not> beyond k n"
    "bl_child (NodeScan k n) n = Some (addrs ! rank k bnds)"
    "bl_latch_shared L w t = Some (bt_put w (n\<lparr>b_latch := l\<rparr>) t)" "bl_unlatch_shared L w (bt_put w (n\<lparr>b_latch := l\<rparr>) t) = Some t"
    using level_node[OF Cons.prems, of k] by blast
  have "TraverseInner L k (top_of (ns # nss) addrs) t = TraverseInner L k w t"
    unfolding top_of_Cons[OF Cons.prems(1)] using Cons.IH[of "map fst ns" "lbounds ns"] Cons.prems N(1) by simp
  also have "\<dots> = TraverseInner L k (addrs ! rank k bnds) t" using N by (subst TraverseInner.simps) simp
  finally show ?case .
qed

lemma insert_descend_levels:
  assumes "blevels L sz nss addrs bnds" "bcells_ok t xs" "set (concat nss) \<subseteq> set xs"
  shows "insert_descend L k (top_of nss addrs) [] t =
    (if k \<in> set bnds then Some (None, t) else insert_descend L k (addrs ! rank k bnds) (bpath k nss) t)"
  using assms
proof (induction nss arbitrary: addrs bnds)
  case Nil
  then show ?case by (cases addrs) auto
next
  case (Cons ns nss)
  obtain w n l where N: "map fst ns ! rank k (lbounds ns) = w" "bt_heap t w = Some n" "\<not> b_leaf n" "bnode_inv n" "\<not> beyond k n"
    "bl_child (NodeScan k n) n = Some (addrs ! rank k bnds)" "k \<in> set (bkeys n) \<longleftrightarrow> k \<in> set bnds"
    "bl_latch_shared L w t = Some (bt_put w (n\<lparr>b_latch := l\<rparr>) t)" "bl_unlatch_shared L w (bt_put w (n\<lparr>b_latch := l\<rparr>) t) = Some t"
    using level_node[OF Cons.prems, of k] by blast
  have sub: "set (lbounds ns) \<subseteq> set bnds" and len: "rank k (lbounds ns) < length ns" 
    using sorted_lbounds(2)[of L sz False ns] rank_lbounds_less[of ns] Cons.prems(1) by (auto simp: blevel_def)
  have IH: "insert_descend L k (top_of (ns # nss) addrs) [] t =
      (if k \<in> set (lbounds ns) then Some (None, t) else insert_descend L k w (bpath k nss) t)"
    unfolding top_of_Cons[OF Cons.prems(1)] using Cons.IH[of "map fst ns" "lbounds ns"] Cons.prems N(1) by simp
  have "insert_descend L k w (bpath k nss) t =
      (if k \<in> set bnds then Some (None, t) else insert_descend L k (addrs ! rank k bnds) (w # bpath k nss) t)"
    using N key_position[OF N(4), of k] by (subst insert_descend.simps) (simp add: Let_def)
  moreover have "fst (ns ! rank k (lbounds ns)) = w" using N(1) len by simp
  ultimately show ?case using IH sub by auto
qed

text \<open>The leaf of a key in a whole tree.\<close>

lemma leaf_node:
  assumes ok: "bltree_ok L t ls nss"
  obtains X a n Y where "ls = X @ (a, n) # Y" "rank k (lkeys ls) = length (lkeys X) + rank k (bkeys n)"
    "Y \<noteq> [] \<Longrightarrow> rank k (bkeys n) < length (bkeys n)" "a = map fst ls ! rank k (lbounds ls)" "length X = rank k (lbounds ls)"
    "bt_heap t a = Some n" "b_leaf n" "bnode_inv n" "\<not> beyond k n" "k \<in> set (lkeys ls) \<longleftrightarrow> k \<in> set (bkeys n)" "b_latch n = l_init L"
proof -
  have lv: "blevel L (bt_leaf_size t) True ls" and c: "bcells_ok t (concat (ls # nss))" using ok by (simp_all add: bltree_ok_def)
  obtain X a n Y where ls: "ls = X @ (a, n) # Y" "length X = rank k (lbounds ls)"
    "rank k (lkeys ls) = length (lkeys X) + rank k (bkeys n)" "Y \<noteq> [] \<Longrightarrow> rank k (bkeys n) < length (bkeys n)"
    using blevel_locate[OF lv] by metis
  note A = blevel_at[OF lv[unfolded ls(1)]]
  have "bt_heap t a = Some n" by (rule bcells_get[OF c]) (simp add: ls(1))
  moreover have "map fst ls ! rank k (lbounds ls) = a"
    using ls(1,2) by (metis (no_types) fst_conv length_map list.simps(9) map_append nth_append_length)
  ultimately show ?thesis
    using that ls A(1,2,4) not_beyond[OF lv[unfolded ls(1)] ls(4)] level_member[OF lv ls(1,3,4)] by simp
qed

lemma TraverseInner_leaf:
  assumes ok: "bltree_ok L t ls nss" and a: "bt_heap t a = Some n" "b_leaf n" "a = map fst ls ! rank k (lbounds ls)"
  shows "TraverseInner L k (bt_root t) t = Some (a, t)"
proof -
  have "TraverseInner L k (bt_root t) t = TraverseInner L k a t"
    unfolding bltree_root[OF ok] using TraverseInner_levels[of "bt_inner_size t" nss "map fst ls" "lbounds ls" t "concat (ls # nss)" k] ok a(3) by (simp add: bltree_ok_def)
  then show ?thesis using a by (subst (asm) (2) TraverseInner.simps) simp
qed

end

section \<open>Search\<close>

definition node_map :: "('k, 'v, 'l) blnode \<Rightarrow> 'k \<Rightarrow> 'v option" where "node_map n = map_of (zip (bkeys n) (bvals n))"

lemma fst_lpairs: "\<forall>x\<in>set ls. bnode_inv (snd x) \<and> b_leaf (snd x) \<Longrightarrow> map fst (lpairs ls) = lkeys ls"
  by (induction ls) (auto simp: length_bkeys length_bvals)

lemma blevel_leaves: "blevel L sz leaf ls \<Longrightarrow> \<forall>x\<in>set ls. bnode_inv (snd x) \<and> b_leaf (snd x) = leaf"
  by (simp add: blevel_def cell_ok_def)

lemma lpairs_None: "map fst (lpairs X) = lkeys X \<Longrightarrow> k \<notin> set (lkeys X) \<Longrightarrow> map_of (lpairs X) k = None"
  by (metis list.set_map map_of_eq_None_iff)

lemma bl_map_at:
  assumes lv: "blevel L sz True ls" and ls: "ls = X @ (a, n) # Y" and k: "k \<in> set (lkeys ls) \<longleftrightarrow> k \<in> set (bkeys n)"
  shows "bl_map ls k = node_map n k"
proof -
  have X: "map fst (lpairs X) = lkeys X" and Y: "map fst (lpairs Y) = lkeys Y"
    using blevel_leaves[OF lv] by (auto simp: ls intro: fst_lpairs)
  have "map_of (lpairs X) k = None"
  proof (rule lpairs_None[OF X])
    show "k \<notin> set (lkeys X)" using k blevel_at(7)[OF lv[unfolded ls], of k k] by (auto simp: ls)
  qed
  moreover have "map_of (lpairs Y) k = None"
  proof (rule lpairs_None[OF Y])
    show "k \<notin> set (lkeys Y)" using k blevel_at(8)[OF lv[unfolded ls], of k k] by (auto simp: ls)
  qed
  ultimately show ?thesis by (simp add: bl_map_def ls node_map_def map_add_def split: option.splits)
qed

lemma find_value_map:
  assumes inv: "bnode_inv n" "b_leaf n"
  shows "map_option (\<lambda>i. b_values n ! i) (find_value k n) = node_map n k"
    "find_value k n = (if k \<in> set (bkeys n) then Some (rank k (bkeys n)) else None)"
proof -
  let ?i = "NodeScan k n"
  have le: "?i \<le> b_cnt n" using NodeScan_rank[OF inv(1), of k] rank_le[of k "bkeys n"] length_bkeys[OF inv(1)] by simp
  then have f: "find_value k n = (if k \<in> set (bkeys n) then Some ?i else None)"
    using key_position[OF inv(1), of k] by (auto simp: find_value_def Let_def)
  then show "find_value k n = (if k \<in> set (bkeys n) then Some (rank k (bkeys n)) else None)" using NodeScan_rank[OF inv(1)] by simp
  show "map_option (\<lambda>i. b_values n ! i) (find_value k n) = node_map n k"
  proof (cases "k \<in> set (bkeys n)")
    case True
    then have i: "?i < b_cnt n" "b_keys n ! ?i = k" using key_position[OF inv(1)] by auto
    have "distinct (bkeys n)" using inv(1) by (simp add: bnode_inv_def strict_sorted_iff)
    then have "map_of (zip (bkeys n) (bvals n)) (bkeys n ! ?i) = Some (bvals n ! ?i)"
      using i length_bkeys[OF inv(1)] length_bvals[OF inv] by (intro map_of_zip_nth) simp_all
    then show ?thesis using True f i by (simp add: node_map_def bkeys_def bvals_def)
  next
    case False
    then have "map_of (zip (bkeys n) (bvals n)) k = None"
      using length_bkeys[OF inv(1)] length_bvals[OF inv] by (simp add: map_of_zip_is_None)
    then show ?thesis using False f by (simp add: node_map_def)
  qed
qed

context latch
begin

text \<open>\<open>Search\<close> returns, finds the value, and leaves the tree as it was.\<close>

lemma Search_spec:
  assumes ok: "bltree_ok L t ls nss"
  shows "Search L k t = Some (bl_map ls k, t)"
proof -
  have lv: "blevel L (bt_leaf_size t) True ls" using ok by (simp add: bltree_ok_def)
  obtain X a n Y where N: "ls = X @ (a, n) # Y" "a = map fst ls ! rank k (lbounds ls)" "bt_heap t a = Some n" "b_leaf n" "bnode_inv n"
    "\<not> beyond k n" "k \<in> set (lkeys ls) \<longleftrightarrow> k \<in> set (bkeys n)" "b_latch n = l_init L"
    using leaf_node[OF ok, of k] by metis
  obtain l where l: "bl_latch_shared L a t = Some (bt_put a (n\<lparr>b_latch := l\<rparr>) t)"
    "bl_unlatch_shared L a (bt_put a (n\<lparr>b_latch := l\<rparr>) t) = Some t" using shared_section[OF N(3,8)] by blast
  have "move_shared L k a (bt_put a (n\<lparr>b_latch := l\<rparr>) t) = Some (a, bt_put a (n\<lparr>b_latch := l\<rparr>) t)"
    using N(6) by (subst move_shared.simps) simp
  moreover have "find_value k (n\<lparr>b_latch := l\<rparr>) = find_value k n" by (simp add: find_value_def)
  ultimately show ?thesis
    using TraverseInner_leaf[OF ok N(3,4,2)] l find_value_map(1)[OF N(5,4), of k] bl_map_at[OF lv N(1,7)] by (simp add: Search_def)
qed

lemma exclusive_section:
  assumes "bt_heap t a = Some n" "b_latch n = l_init L"
  obtains l where "bl_latch_exclusive L a t = Some (bt_put a (n\<lparr>b_latch := l\<rparr>) t)" "l_unexclusive L l = l_init L"
  using exclusive_free assms by (auto simp: bl_latch_exclusive_def set_latch_def)

lemma unlatch_exclusive_at:
  "bt_heap t a = Some n \<Longrightarrow> bl_unlatch_exclusive L a t = Some (bt_put a (n\<lparr>b_latch := l_unexclusive L (b_latch n)\<rparr>) t)"
  by (simp add: bl_unlatch_exclusive_def set_latch_def)

end

section \<open>A change of one leaf\<close>

lemma blevel_replace:
  assumes lv: "blevel L sz leaf (X @ (a, n) # Y)" and n': "cell_ok L sz leaf (a, n')" "bkeys n' = bkeys n" "b_sibling n' = b_sibling n"
  shows "blevel L sz leaf (X @ (a, n') # Y)" "lbounds (X @ (a, n') # Y) = lbounds (X @ (a, n) # Y)"
proof -
  show "blevel L sz leaf (X @ (a, n') # Y)"
    using lv n' by (auto simp: blevel_def chain_append butlast_append split: if_splits)
  show "lbounds (X @ (a, n') # Y) = lbounds (X @ (a, n) # Y)" using n'(2) by (simp add: lbounds_def)
qed

lemma map_of_mid: "map_of B' = (map_of B)(k \<mapsto> v) \<Longrightarrow> map_of A k = None \<Longrightarrow> map_of (A @ B' @ C) = (map_of (A @ B @ C))(k \<mapsto> v)"
  by (rule ext) (simp add: map_add_def split: option.splits)

text \<open>The map of a level whose pairs change at the place of the key only.\<close>

lemma bl_map_change:
  assumes lv: "blevel L sz True ls" and ls: "ls = X @ (a, n) # Y" and k: "k \<in> set (lkeys ls) \<longleftrightarrow> k \<in> set (bkeys n)"
    and p: "lpairs ls' = lpairs X @ B @ lpairs Y" "map_of B = (node_map n)(k \<mapsto> v)"
  shows "bl_map ls' = (bl_map ls)(k \<mapsto> v)"
proof -
  have X: "map fst (lpairs X) = lkeys X" using blevel_leaves[OF lv] by (auto simp: ls intro: fst_lpairs)
  have "k \<notin> set (lkeys X)"
    using k blevel_at(7)[OF lv[unfolded ls], of k k] by (auto simp: ls)
  then have "map_of (lpairs X) k = None" by (rule lpairs_None[OF X])
  from map_of_mid[OF p(2)[unfolded node_map_def] this] show ?thesis by (simp add: bl_map_def p(1) ls)
qed

lemma map_of_zip_update:
  "distinct xs \<Longrightarrow> i < length xs \<Longrightarrow> length ys = length xs \<Longrightarrow> map_of (zip xs (ys[i := v])) = (map_of (zip xs ys))(xs ! i \<mapsto> v)"
proof (induction xs arbitrary: i ys)
  case (Cons x xs)
  then obtain y zs where "ys = y # zs" by (cases ys) auto
  with Cons show ?case by (cases i) (auto intro!: ext dest: nth_mem)
qed simp

lemma bcells_put_leaf:
  assumes "bcells_ok t (concat ((X @ (a, n) # Y) # nss))"
  shows "bcells_ok (bt_put a m t) (concat ((X @ (a, m) # Y) # nss))"
proof -
  have "bcells_ok t ((a, n) # X @ Y @ concat nss)" using assms by (rule bcells_ok_mset) simp
  from bcells_put[OF this] show ?thesis by (rule bcells_ok_mset) simp
qed

lemma bltree_ok_replace:
  assumes ok: "bltree_ok L t (X @ (a, n) # Y) nss" and n': "cell_ok L (bt_leaf_size t) True (a, n')" "bkeys n' = bkeys n" "b_sibling n' = b_sibling n"
  shows "bltree_ok L (bt_put a n' t) (X @ (a, n') # Y) nss"
proof -
  have lv: "blevel L (bt_leaf_size t) True (X @ (a, n) # Y)" using ok by (simp add: bltree_ok_def)
  note R = blevel_replace[OF lv n']
  have "hd (last ((X @ (a, n') # Y) # nss)) = hd (last ((X @ (a, n) # Y) # nss)) \<or> nss = []" by simp
  moreover have "fst (hd (X @ (a, n') # Y)) = fst (hd (X @ (a, n) # Y))" by (cases X) simp_all
  ultimately show ?thesis
    using ok R bcells_put_leaf[of t X a n Y nss n'] by (auto simp: bltree_ok_def params_ok_def)
qed

context latch
begin

text \<open>\<open>Update\<close> returns whether the key is present and replaces its value if so.\<close>

lemma Update_spec:
  assumes ok: "bltree_ok L t ls nss"
  shows "\<exists>t' ls'. Update L k v t = Some (k \<in> dom (bl_map ls), t') \<and> bltree_ok L t' ls' nss \<and>
    bl_map ls' = (if k \<in> dom (bl_map ls) then (bl_map ls)(k \<mapsto> v) else bl_map ls)"
proof -
  have lv: "blevel L (bt_leaf_size t) True ls" using ok by (simp add: bltree_ok_def)
  obtain X a n Y where N: "ls = X @ (a, n) # Y" "a = map fst ls ! rank k (lbounds ls)" "bt_heap t a = Some n" "b_leaf n" "bnode_inv n"
    "\<not> beyond k n" "k \<in> set (lkeys ls) \<longleftrightarrow> k \<in> set (bkeys n)" "b_latch n = l_init L"
    using leaf_node[OF ok, of k] by metis
  obtain l where l: "bl_latch_exclusive L a t = Some (bt_put a (n\<lparr>b_latch := l\<rparr>) t)" "l_unexclusive L l = l_init L"
    using exclusive_section[OF N(3,8)] by blast
  let ?t = "bt_put a (n\<lparr>b_latch := l\<rparr>) t"
  have mv: "move_exclusive L k a ?t = Some (a, ?t)" using N(6) by (subst move_exclusive.simps) simp
  have fv: "find_value k (n\<lparr>b_latch := l\<rparr>) = find_value k n" by (simp add: find_value_def)
  note M = bl_map_at[OF lv N(1,7)] and F = find_value_map[OF N(5,4), of k]
  show ?thesis
  proof (cases "k \<in> set (bkeys n)")
    case False
    then have "k \<notin> dom (bl_map ls)" using M F by (auto simp: domIff)
    moreover have "bl_unlatch_exclusive L a ?t = Some t"
      using unlatch_exclusive_at[of ?t a] l(2) latch_idem[OF N(8), of a t] bt_put_same[OF N(3)] by simp
    ultimately show ?thesis
      using False TraverseInner_leaf[OF ok N(3,4,2)] l(1) mv fv F(2) ok by (auto simp: Update_def)
  next
    case True
    let ?i = "rank k (bkeys n)"
    let ?n = "n\<lparr>b_values := (b_values n)[?i := v]\<rparr>"
    have d: "k \<in> dom (bl_map ls)" using True M F by (metis domI option.simps(9))
    have i: "?i < b_cnt n" "bkeys n ! ?i = k" using rank_found[of "bkeys n" k] True N(5) length_bkeys[OF N(5)] by (auto simp: bnode_inv_def)
    have u: "bkeys ?n = bkeys n" "bvals ?n = (bvals n)[?i := v]" using i by (simp_all add: bkeys_def bvals_def take_update_swap)
    have "distinct (bkeys n)" using N(5) by (simp add: bnode_inv_def strict_sorted_iff)
    then have nm: "map_of (zip (bkeys ?n) (bvals ?n)) = (node_map n)(k \<mapsto> v)"
      unfolding u node_map_def using i length_bkeys[OF N(5)] length_bvals[OF N(5,4)] by (simp add: map_of_zip_update)
    have "bl_map (X @ (a, ?n) # Y) = (bl_map ls)(k \<mapsto> v)"
      by (rule bl_map_change[OF lv N(1,7) _ nm]) simp
    moreover have "cell_ok L (bt_leaf_size t) True (a, ?n)"
      using N(4,5,8) blevel_at(3)[OF lv[unfolded N(1)]] u by (simp add: cell_ok_def bnode_inv_def)
    then have "bltree_ok L (bt_put a ?n t) (X @ (a, ?n) # Y) nss"
      using u by (intro bltree_ok_replace[OF ok[unfolded N(1)]]) simp_all
    moreover have e: "?n\<lparr>b_latch := l\<rparr> = n\<lparr>b_latch := l, b_values := (b_values n)[?i := v]\<rparr>" by simp
    have "bl_unlatch_exclusive L a (bt_put a (?n\<lparr>b_latch := l\<rparr>) t) = Some (bt_put a ?n t)"
      using unlatch_exclusive_at[of "bt_put a (?n\<lparr>b_latch := l\<rparr>) t" a] l(2) latch_idem[of ?n "l_init L" a t] N(8) by simp
    note this[unfolded e]
    ultimately show ?thesis
      using True TraverseInner_leaf[OF ok N(3,4,2)] l(1) mv fv F(2) d by (auto simp: Update_def)
  qed
qed

end

end
