(* ===== verification/BLinkInsert.thy ===== *)
theory BLinkInsert
  imports BLinkLevels
begin

text \<open>
  Insertion into a B-link tree: \<open>Insert\<close> returns, says whether the key was new, keeps the invariant of the
  tree and adds the pair if it was. A split of a node puts the new node behind it in its level and one
  bound into the level; the loop of the code carries that to the level above.
\<close>

section \<open>Insertion into a level\<close>

lemma block_bounds_mid: "block_bounds (A @ x # B) = map last A @ (if B = [] then [] else last x # block_bounds B)"
  by (simp add: block_bounds_def butlast_append)

lemma lbounds_mid: "lbounds (X @ (w, n) # Y) = map (last \<circ> bkeys \<circ> snd) X @ (if Y = [] then [] else last (bkeys n) # lbounds Y)"
  by (simp add: lbounds_def block_bounds_mid)

lemma lkeys_insert: "q \<le> length ks \<Longrightarrow> lkeys X @ insert_at q m ks @ lkeys Y = insert_at (length (lkeys X) + q) m (lkeys X @ ks @ lkeys Y)"
  by (simp add: insert_at_append)

lemma level_room:
  assumes lv: "blevel L sz leaf (X @ (w, n) # Y)" and n': "cell_ok L sz leaf (w, n')" "b_sibling n' = b_sibling n"
    and k: "bkeys n' = insert_at q m (bkeys n)" "q = rank m (bkeys n)" "rank m (lkeys (X @ (w, n) # Y)) = length (lkeys X) + q"
    "Y \<noteq> [] \<Longrightarrow> q < length (bkeys n)" "m \<notin> set (lkeys (X @ (w, n) # Y))"
  shows "blevel L sz leaf (X @ (w, n') # Y)" "lkeys (X @ (w, n') # Y) = insert_at (rank m (lkeys (X @ (w, n) # Y))) m (lkeys (X @ (w, n) # Y))"
    "lbounds (X @ (w, n') # Y) = lbounds (X @ (w, n) # Y)"
proof -
  have "q \<le> length (bkeys n)" using k(2) by simp
  then show ks: "lkeys (X @ (w, n') # Y) = insert_at (rank m (lkeys (X @ (w, n) # Y))) m (lkeys (X @ (w, n) # Y))"
    unfolding k(3) using lkeys_insert[of q "bkeys n" X m Y] k(1) by simp
  have "sorted_wrt (<) (lkeys (X @ (w, n) # Y))" using lv by (simp add: blevel_def)
  then have "sorted_wrt (<) (lkeys (X @ (w, n') # Y))" unfolding ks by (rule sorted_insert_at) (use k(5) in auto)
  then show "blevel L sz leaf (X @ (w, n') # Y)"
    using lv n' k(1) by (auto simp: blevel_def chain_append butlast_append insert_at_def split: if_splits)
  show "lbounds (X @ (w, n') # Y) = lbounds (X @ (w, n) # Y)"
    using k(1,4) by (auto simp: lbounds_mid last_insert_at)
qed

lemma level_split:
  assumes lv: "blevel L sz leaf (X @ (w, n) # Y)" and n': "cell_ok L sz leaf (w, n')" "b_sibling n' = Some b"
    and r: "cell_ok L sz leaf (b, r)" "b_sibling r = b_sibling n" "bkeys n' \<noteq> []" "bkeys r \<noteq> []"
    and k: "bkeys n' @ bkeys r = insert_at q m (bkeys n)" "q = rank m (bkeys n)" "rank m (lkeys (X @ (w, n) # Y)) = length (lkeys X) + q"
    "Y \<noteq> [] \<Longrightarrow> q < length (bkeys n)" "m \<notin> set (lkeys (X @ (w, n) # Y))"
  shows "blevel L sz leaf (X @ (w, n') # (b, r) # Y)"
    "lkeys (X @ (w, n') # (b, r) # Y) = insert_at (rank m (lkeys (X @ (w, n) # Y))) m (lkeys (X @ (w, n) # Y))"
    "lbounds (X @ (w, n') # (b, r) # Y) = insert_at (length X) (last (bkeys n')) (lbounds (X @ (w, n) # Y))"
proof -
  have "q \<le> length (bkeys n)" using k(2) by simp
  then show ks: "lkeys (X @ (w, n') # (b, r) # Y) = insert_at (rank m (lkeys (X @ (w, n) # Y))) m (lkeys (X @ (w, n) # Y))"
    unfolding k(3) using lkeys_insert[of q "bkeys n" X m Y] k(1)[symmetric] by simp
  have "sorted_wrt (<) (lkeys (X @ (w, n) # Y))" using lv by (simp add: blevel_def)
  then have "sorted_wrt (<) (lkeys (X @ (w, n') # (b, r) # Y))" unfolding ks by (rule sorted_insert_at) (use k(5) in auto)
  then show "blevel L sz leaf (X @ (w, n') # (b, r) # Y)"
    using lv n' r by (auto simp: blevel_def chain_append butlast_append split: if_splits)
  have "last (bkeys r) = last (insert_at q m (bkeys n))" using k(1)[symmetric] r(4) by simp
  then show "lbounds (X @ (w, n') # (b, r) # Y) = insert_at (length X) (last (bkeys n')) (lbounds (X @ (w, n) # Y))"
    using k(4) lbounds_mid[of X w n' "(b, r) # Y"] lbounds_mid[of "X @ [(w, n')]" b r Y]
    by (cases "Y = []") (auto simp: lbounds_mid insert_at_def last_insert_at)
qed

lemma lkids_insert:
  assumes "lkids (X @ (w, n) # Y) = map Some addrs" "length (lkids X) = length (lkeys X)" "q < length (bkids n)"
  shows "lkids X @ insert_at (Suc q) (Some b) (bkids n) @ lkids Y = map Some (insert_at (Suc (length (lkeys X) + q)) b addrs)"
  using insert_at_append[of "Suc q" "bkids n" "lkids X" "Some b" "lkids Y"] assms by (simp add: map_insert_at)

section \<open>Nodes and cells\<close>

lemma node_updates [simp]:
  "bkeys (n\<lparr>b_latch := l\<rparr>) = bkeys n" "bvals (n\<lparr>b_latch := l\<rparr>) = bvals n" "bkids (n\<lparr>b_latch := l\<rparr>) = bkids n"
  "bnode_inv (n\<lparr>b_latch := l\<rparr>) = bnode_inv n" "bl_safe thr (n\<lparr>b_latch := l\<rparr>) = bl_safe thr n"
  "bkeys (n\<lparr>b_upper := u\<rparr>) = bkeys n" "bvals (n\<lparr>b_upper := u\<rparr>) = bvals n" "bkids (n\<lparr>b_upper := u\<rparr>) = bkids n"
  "bnode_inv (n\<lparr>b_upper := u\<rparr>) = bnode_inv n" "bl_safe thr (n\<lparr>b_upper := u\<rparr>) = bl_safe thr n"
  by (simp_all add: bkeys_def bvals_def bkids_def bnode_inv_def bl_safe_def)

lemma bcells_put_at: "bcells_ok t (A @ (a, n) # B) \<Longrightarrow> bcells_ok (bt_put a m t) (A @ (a, m) # B)"
  using bcells_put[of t a n "A @ B" m] bcells_ok_mset[of t "A @ (a, n) # B" "(a, n) # A @ B"]
    bcells_ok_mset[of "bt_put a m t" "(a, m) # A @ B" "A @ (a, m) # B"] by simp

lemma bcells_put_second: "bcells_ok t (x # (a, n) # B) \<Longrightarrow> bcells_ok (bt_put a m t) (x # (a, m) # B)"
  using bcells_put_at[of t "[x]" a n B m] by simp

lemma bcells_alloc_at: "bcells_ok t (A @ B) \<Longrightarrow> bcells_ok (bt_alloc m t) (A @ (bt_next t, m) # B)"
  using bcells_alloc[of t "A @ B" "bt_next t" m] bcells_ok_mset[of "bt_alloc m t" "(bt_next t, m) # A @ B" "A @ (bt_next t, m) # B"] by simp

lemma bcells_ok_fields [simp]: "bcells_ok (t\<lparr>bt_depth := d\<rparr>) xs = bcells_ok t xs" "bcells_ok (t\<lparr>bt_root := a\<rparr>) xs = bcells_ok t xs"
  by (simp_all add: bcells_ok_def)

lemma bt_alloc_fields [simp]:
  "bt_heap (bt_alloc n t) = (bt_heap t)(bt_next t \<mapsto> n)" "bt_next (bt_alloc n t) = Suc (bt_next t)" "bt_root (bt_alloc n t) = bt_root t"
  "bt_leaves (bt_alloc n t) = bt_leaves t" "bt_depth (bt_alloc n t) = bt_depth t" "bt_inner_size (bt_alloc n t) = bt_inner_size t"
  "bt_leaf_size (bt_alloc n t) = bt_leaf_size t" "bt_inner_split (bt_alloc n t) = bt_inner_split t" "bt_leaf_split (bt_alloc n t) = bt_leaf_split t"
  by (simp_all add: bt_alloc_def)

text \<open>What an insertion does not change.\<close>

definition same_tree :: "('k, 'v, 'l) bltree \<Rightarrow> ('k, 'v, 'l) bltree \<Rightarrow> bool" where
  "same_tree t' t \<longleftrightarrow> bt_leaves t' = bt_leaves t \<and> bt_inner_size t' = bt_inner_size t \<and> bt_leaf_size t' = bt_leaf_size t \<and>
     bt_inner_split t' = bt_inner_split t \<and> bt_leaf_split t' = bt_leaf_split t"

lemma same_tree_params: "same_tree t' t \<Longrightarrow> params_ok t' = params_ok t"
  by (simp add: same_tree_def params_ok_def)

lemma last_key:
  assumes "bnode_inv n" "bkeys n \<noteq> []"
  shows "bl_key (b_cnt n - 1) n = Some (last (bkeys n))"
proof -
  have "0 < b_cnt n" using assms length_bkeys[OF assms(1)] by (metis length_greater_0_conv)
  then show ?thesis using high_key_last[OF assms] by (simp add: bl_key_def high_key_def)
qed

lemma upper_idem [simp]: "n\<lparr>b_upper := b_upper n\<rparr> = n" "n\<lparr>b_latch := l, b_upper := b_upper n\<rparr> = n\<lparr>b_latch := l\<rparr>"
  by (cases n; simp)+

lemma map_last_bounds: "\<forall>x\<in>set X. bkeys (snd x) \<noteq> [] \<Longrightarrow> set (map (last \<circ> bkeys \<circ> snd) X) \<subseteq> set (lkeys X)"
  by (induction X) auto

text \<open>The bound of the right half of a split node has the place of the node.\<close>

lemma split_rank:
  assumes lv: "blevel L sz leaf (X @ (w, n') # (b, r) # Y)" and r: "bkeys r \<noteq> []" and y: "Y \<noteq> [] \<Longrightarrow> last (bkeys r) = last (bkeys n)"
  shows "rank (last (bkeys r)) (lbounds (X @ (w, n) # Y)) = length X"
proof -
  have s: "sorted_wrt (<) (lkeys (X @ (w, n') # (b, r) # Y))" and ne: "\<forall>x\<in>set X. bkeys (snd x) \<noteq> []"
    "\<forall>x\<in>set (butlast Y). bkeys (snd x) \<noteq> []"
    using lv by (auto simp: blevel_def butlast_append split: if_splits)
  have l: "last (bkeys r) \<in> set (bkeys r)" using r by simp
  have "rank (last (bkeys r)) (map (last \<circ> bkeys \<circ> snd) X) = length (map (last \<circ> bkeys \<circ> snd) X)"
    using map_last_bounds[OF ne(1)] s l by (intro rank_eq_length) (auto simp: sorted_wrt_append)
  moreover have "rank (last (bkeys r)) (lbounds Y) = 0"
  proof (rule rank_eq_0)
    fix y assume "y \<in> set (lbounds Y)"
    moreover have "set (lbounds Y) \<subseteq> set (lkeys Y)"
      using ne(2) unfolding lbounds_def lkeys_def by (intro block_bounds_subset) (auto simp: map_butlast[symmetric])
    ultimately have "y \<in> set (lkeys Y)" by blast
    then show "last (bkeys r) \<le> y" using s l by (auto simp: sorted_wrt_append less_imp_le)
  qed
  ultimately show ?thesis using y by (cases "Y = []") (auto simp: lbounds_mid)
qed

text \<open>The level of a split node, once the two halves are unlatched, whatever their upper links.\<close>

lemma level_halves:
  assumes lv: "blevel L sz leaf (X @ (w, n) # Y)" and inv: "bnode_inv n'" "bnode_inv r" "b_leaf n' = leaf" "b_size n' = sz"
    and sp: "split_node_of L b n n' r"
    and k: "bkeys n' @ bkeys r = insert_at q m (bkeys n)" "q = rank m (bkeys n)" "rank m (lkeys (X @ (w, n) # Y)) = length (lkeys X) + q"
    "Y \<noteq> [] \<Longrightarrow> q < length (bkeys n)" "m \<notin> set (lkeys (X @ (w, n) # Y))"
    and ns': "ns' = X @ (w, n'\<lparr>b_latch := l_init L, b_upper := u1\<rparr>) # (b, r\<lparr>b_upper := u2\<rparr>) # Y"
  shows "blevel L sz leaf ns'" "lkeys ns' = insert_at (rank m (lkeys (X @ (w, n) # Y))) m (lkeys (X @ (w, n) # Y))"
    "lbounds ns' = insert_at (length X) (last (bkeys n')) (lbounds (X @ (w, n) # Y))"
    "last (bkeys n') \<notin> set (lbounds (X @ (w, n) # Y))" "rank (last (bkeys n')) (lbounds (X @ (w, n) # Y)) = length X"
    "rank (last (bkeys r)) (lbounds (X @ (w, n) # Y)) = length X"
proof -
  note A = blevel_at[OF lv]
  have S: "b_sibling n' = Some b" "b_sibling r = b_sibling n" "b_leaf r = leaf" "b_size r = sz" "b_latch r = l_init L" "bkeys n' \<noteq> []" "bkeys r \<noteq> []"
    using sp A by (simp_all add: split_node_of_def)
  let ?n = "n'\<lparr>b_latch := l_init L, b_upper := u1\<rparr>" and ?r = "r\<lparr>b_upper := u2\<rparr>"
  have c: "cell_ok L sz leaf (w, ?n)" "cell_ok L sz leaf (b, ?r)" using inv S by (simp_all add: cell_ok_def)
  have e: "b_sibling ?n = Some b" "b_sibling ?r = b_sibling n" "bkeys ?n \<noteq> []" "bkeys ?r \<noteq> []"
    "bkeys ?n @ bkeys ?r = insert_at q m (bkeys n)" using S k(1) by simp_all
  note LS = level_split[OF lv c(1) e(1) c(2) e(2-5) k(2-5), folded ns']
  show lv': "blevel L sz leaf ns'" "lkeys ns' = insert_at (rank m (lkeys (X @ (w, n) # Y))) m (lkeys (X @ (w, n) # Y))"
    and b: "lbounds ns' = insert_at (length X) (last (bkeys n')) (lbounds (X @ (w, n) # Y))" using LS by simp_all
  have i: "length X \<le> length (lbounds (X @ (w, n) # Y))" by (simp add: lbounds_mid)
  have "sorted_wrt (<) (insert_at (length X) (last (bkeys n')) (lbounds (X @ (w, n) # Y)))"
    using sorted_lbounds(1)[OF lv'(1)] b by simp
  from sorted_insert_rank[OF this i] show "last (bkeys n') \<notin> set (lbounds (X @ (w, n) # Y))" "rank (last (bkeys n')) (lbounds (X @ (w, n) # Y)) = length X"
    by simp_all
  have "last (bkeys r) = last (bkeys n)" if "Y \<noteq> []"
    using arg_cong[OF k(1), of last] last_insert_at[OF k(4)[OF that]] S(7) by simp
  then show "rank (last (bkeys r)) (lbounds (X @ (w, n) # Y)) = length X"
    using split_rank[OF lv'(1)[unfolded ns']] S(7) by simp
qed

lemma blevels_nonempty: "blevels L sz nss addrs bnds \<Longrightarrow> ns \<in> set nss \<Longrightarrow> ns \<noteq> []"
  by (induction nss arbitrary: addrs bnds) (auto simp: blevel_def)

section \<open>The loop\<close>

text \<open>
  What holds when the loop starts a round: \<open>cur\<close> is latched and has a new right neighbour \<open>b\<close>,
  the levels above do not know it yet; \<open>R\<close> are the other cells of the levels below.
\<close>

definition bup_pre ::
  "'l latch_ops \<Rightarrow> ('k::linorder, 'v, 'l) bcell \<Rightarrow> ('k, 'v, 'l) bcell \<Rightarrow> ('k, 'v, 'l) bcell list \<Rightarrow> ('k, 'v, 'l) bcell list list \<Rightarrow>
   addr list \<Rightarrow> 'k list \<Rightarrow> nat \<Rightarrow> ('k, 'v, 'l) bltree \<Rightarrow> bool" where
  "bup_pre L c new R nss addrs bnds j t \<longleftrightarrow>
     params_ok t \<and> bcells_ok t (c # new # R @ concat nss) \<and> l_unexclusive L (b_latch (snd c)) = l_init L \<and>
     blevels L (bt_inner_size t) nss addrs bnds \<and> sorted_wrt (<) bnds \<and>
     bnode_inv (snd c) \<and> bkeys (snd c) \<noteq> [] \<and> bnode_inv (snd new) \<and> bkeys (snd new) \<noteq> [] \<and>
     last (bkeys (snd c)) \<notin> set bnds \<and> rank (last (bkeys (snd c))) bnds = j \<and> rank (last (bkeys (snd new))) bnds = j \<and>
     j < length addrs \<and> addrs ! j = fst c \<and> bt_root t = top_of nss addrs"

definition bup_post ::
  "'l latch_ops \<Rightarrow> ('k::linorder, 'v, 'l) bcell \<Rightarrow> ('k, 'v, 'l) bcell \<Rightarrow> ('k, 'v, 'l) bcell list \<Rightarrow> ('k, 'v, 'l) bcell list list \<Rightarrow>
   addr list \<Rightarrow> 'k list \<Rightarrow> nat \<Rightarrow> ('k, 'v, 'l) bltree \<Rightarrow> ('k, 'v, 'l) bltree \<Rightarrow> bool" where
  "bup_post L c new R nss addrs bnds j t t' \<longleftrightarrow>
     (\<exists>nss' u1 u2.
        bcells_ok t' ((fst c, (snd c)\<lparr>b_latch := l_init L, b_upper := u1\<rparr>) # (fst new, (snd new)\<lparr>b_upper := u2\<rparr>) # R @ concat nss') \<and>
        blevels L (bt_inner_size t) nss' (insert_at (Suc j) (fst new) addrs) (insert_at j (last (bkeys (snd c))) bnds) \<and>
        bt_root t' = top_of nss' (insert_at (Suc j) (fst new) addrs) \<and> same_tree t' t \<and>
        bt_depth t' + length nss = bt_depth t + length nss')"

definition up_started ::
  "'l latch_ops \<Rightarrow> ('k::{linorder,zero}, 'v::zero, 'l) bcell \<Rightarrow> ('k, 'v, 'l) bcell \<Rightarrow> ('k, 'v, 'l) bcell list \<Rightarrow> addr \<Rightarrow> ('k, 'v, 'l) blnode \<Rightarrow>
   ('k, 'v, 'l) bcell list \<Rightarrow> ('k, 'v, 'l) bltree \<Rightarrow> ('k, 'v, 'l) blnode \<Rightarrow> ('k, 'v, 'l) bltree \<Rightarrow> bool" where
  "up_started L c new A w n B t nL t2 \<longleftrightarrow>
     bnode_inv nL \<and> \<not> b_leaf nL \<and> b_size nL = bt_inner_size t \<and> l_unexclusive L (b_latch nL) = l_init L \<and> 0 < b_cnt nL \<and>
     bkeys nL = bkeys n \<and> bkids nL = bkids n \<and> b_sibling nL = b_sibling n \<and> b_upper nL = b_upper n \<and> bl_safe (bt_inner_split t) nL = bl_safe (bt_inner_split t) n \<and>
     last (bkeys (snd c)) \<notin> set (bkeys n) \<and> (rank (last (bkeys (snd c))) (bkeys n) < b_cnt nL \<or> b_sibling nL = None) \<and>
     same_tree t2 t \<and> bt_next t2 = bt_next t \<and> bt_root t2 = bt_root t \<and> bt_depth t2 = bt_depth t \<and>
     bcells_ok t2 ((fst c, (snd c)\<lparr>b_latch := l_init L\<rparr>) # new # A @ (w, nL) # B) \<and>
     (\<forall>path n' made. InnerInsert L (bt_next t) (last (bkeys (snd c))) (fst c) (fst new) (bt_inner_split t) nL = (n', made) \<longrightarrow>
        insert_up L (fst c) (Some (fst new)) (w # path) t =
          (case made of None \<Rightarrow> insert_up L w None path (bt_put w n' t2)
           | Some r2 \<Rightarrow> insert_up L w (Some (bt_next t)) path (bt_alloc r2 (bt_put w n' t2))))"

context latch
begin

lemma insert_up_done:
  "bt_heap t a = Some n \<Longrightarrow> insert_up L a None path t = Some (bt_put a (n\<lparr>b_latch := l_unexclusive L (b_latch n)\<rparr>) t)"
  by (subst insert_up.simps) (simp add: unlatch_exclusive_at)

lemma move_coupled_here: "bt_heap t a = Some n \<Longrightarrow> \<not> beyond k n \<Longrightarrow> move_coupled L k a t = Some (a, t)"
  by (subst move_coupled.simps) simp

lemma insert_up_root:
  fixes t :: "('k::{linorder,zero}, 'v::zero, 'l) bltree"
  assumes pre: "bup_pre L (cur, cn) (b, r) R [] addrs bnds j t"
  shows "\<exists>t'. insert_up L cur (Some b) path t = Some t' \<and> bup_post L (cur, cn) (b, r) R [] addrs bnds j t t'"
proof -
  define w where "w = bt_next t"
  define n0 where "n0 = (bl_new L (bt_inner_size t) False :: ('k, 'v, 'l) blnode)"
  have P: "params_ok t" "bcells_ok t ((cur, cn) # (b, r) # R)" "l_unexclusive L (b_latch cn) = l_init L" "addrs = [cur]" "bnds = []" "j = 0"
    "bnode_inv cn" "bkeys cn \<noteq> []" "bnode_inv r" "bkeys r \<noteq> []" "bt_root t = cur"
    using pre by (cases addrs; auto simp: bup_pre_def)+
  have h: "bt_heap t cur = Some cn" "bt_heap t b = Some r" "cur \<noteq> b" "cur \<noteq> w" "b \<noteq> w"
    using P(2) by (auto simp: bcells_ok_def w_def)
  define t0 where "t0 = (bt_put b (r\<lparr>b_upper := Some w\<rparr>) (bt_put cur (cn\<lparr>b_upper := Some w\<rparr>) (bt_alloc n0 t)))\<lparr>bt_depth := bt_depth t + 1\<rparr>"
  have po: "parent_of L cur b path t = Some (w, path, t0)"
    using h P(11) by (simp add: parent_of_def Let_def w_def n0_def t0_def)
  have n0: "bnode_inv n0" "\<not> b_leaf n0" "b_cnt n0 = 0" "b_sibling n0 = None" "b_latch n0 = l_init L" "b_size n0 = bt_inner_size t"
    using P(1) by (simp_all add: n0_def bl_new_def bnode_inv_def bkeys_def params_ok_def)
  have hw: "bt_heap t0 w = Some n0" using h by (simp add: t0_def w_def)
  obtain l where l: "bl_latch_exclusive L w t0 = Some (bt_put w (n0\<lparr>b_latch := l\<rparr>) t0)" "l_unexclusive L l = l_init L"
    using exclusive_section[OF hw n0(5)] by blast
  define t1 where "t1 = (bt_put w (n0\<lparr>b_latch := l\<rparr>) t0)\<lparr>bt_root := w\<rparr>"
  have mv: "move_coupled L (last (bkeys r)) w t1 = Some (w, t1)"
    by (rule move_coupled_here[of _ _ "n0\<lparr>b_latch := l\<rparr>"]) (simp_all add: t1_def beyond_def n0(4))
  define t2 where "t2 = bt_put cur (cn\<lparr>b_upper := Some w, b_latch := l_init L\<rparr>) t1"
  have ul: "bl_unlatch_exclusive L cur t1 = Some t2"
    using unlatch_exclusive_at[of t1 cur "cn\<lparr>b_upper := Some w\<rparr>"] h P(3) by (simp add: t1_def t0_def t2_def)
  have safe: "bt_inner_split t \<le> 1" "bl_safe (bt_inner_split t) (n0\<lparr>b_latch := l\<rparr>)" using P(1) n0 by (simp_all add: params_ok_def bl_safe_def)
  obtain n' where I: "InnerInsert L (bt_next t2) (last (bkeys cn)) cur b (bt_inner_split t) (n0\<lparr>b_latch := l\<rparr>) = (n', None)" "bnode_inv n'"
    "same_node n' (n0\<lparr>b_latch := l\<rparr>)" "b_sibling n' = None" "bkeys n' = [last (bkeys cn)]" "bkids n' = [Some cur, Some b]"
    using InnerInsert_root[of "n0\<lparr>b_latch := l\<rparr>" "bt_inner_split t" L "bt_next t2" "last (bkeys cn)" cur b] n0 safe by auto
  let ?n = "n'\<lparr>b_latch := l_init L\<rparr>"
  let ?t = "bt_put w ?n t2"
  have "insert_up L w None path (bt_put w n' t2) = Some ?t"
    using insert_up_done[of "bt_put w n' t2" w n' path] I(3) l(2) by (simp add: same_node_def)
  moreover have "bt_heap t2 w = Some (n0\<lparr>b_latch := l\<rparr>)" "bt_inner_split t2 = bt_inner_split t" using h by (simp_all add: t2_def t1_def t0_def)
  ultimately have run: "insert_up L cur (Some b) path t = Some ?t"
    using h P(11) po l(1) mv ul I(1) last_key[OF P(7,8)] last_key[OF P(9,10)]
    by (subst insert_up.simps) (simp add: Let_def t1_def[symmetric])
  have "bcells_ok (bt_alloc n0 t) (((cur, cn) # (b, r) # R) @ [(w, n0)])"
    using bcells_alloc_at[of t "(cur, cn) # (b, r) # R" "[]" n0] P(2) by (simp add: w_def)
  then have "bcells_ok t0 ((cur, cn\<lparr>b_upper := Some w\<rparr>) # (b, r\<lparr>b_upper := Some w\<rparr>) # R @ [(w, n0)])"
    by (auto simp: t0_def intro: bcells_put_second bcells_put)
  then have "bcells_ok t1 ((cur, cn\<lparr>b_upper := Some w\<rparr>) # (b, r\<lparr>b_upper := Some w\<rparr>) # R @ [(w, n0\<lparr>b_latch := l\<rparr>)])"
    using bcells_put_at[of t0 "(cur, cn\<lparr>b_upper := Some w\<rparr>) # (b, r\<lparr>b_upper := Some w\<rparr>) # R" w n0 "[]"] by (simp add: t1_def)
  then have "bcells_ok t2 ((cur, cn\<lparr>b_upper := Some w, b_latch := l_init L\<rparr>) # (b, r\<lparr>b_upper := Some w\<rparr>) # R @ [(w, n0\<lparr>b_latch := l\<rparr>)])"
    unfolding t2_def by (rule bcells_put)
  then have c: "bcells_ok ?t ((cur, cn\<lparr>b_upper := Some w, b_latch := l_init L\<rparr>) # (b, r\<lparr>b_upper := Some w\<rparr>) # R @ [(w, ?n)])"
    using bcells_put_at[of t2 "(cur, cn\<lparr>b_upper := Some w, b_latch := l_init L\<rparr>) # (b, r\<lparr>b_upper := Some w\<rparr>) # R" w _ "[]"] by simp
  have e: "cn\<lparr>b_upper := Some w, b_latch := l_init L\<rparr> = cn\<lparr>b_latch := l_init L, b_upper := Some w\<rparr>" by simp
  have lv: "blevels L (bt_inner_size t) [[(w, ?n)]] [cur, b] [last (bkeys cn)]"
    using I n0 by (simp add: blevel_def cell_ok_def same_node_def lbounds_def block_bounds_def)
  have "bup_post L (cur, cn) (b, r) R [] addrs bnds j t ?t"
    unfolding bup_post_def fst_conv snd_conv
    by (intro exI[of _ "[[(w, ?n)]]"] exI[of _ "Some w"])
       (use c[unfolded e] lv P in \<open>simp add: insert_at_def same_tree_def t2_def t1_def t0_def\<close>)
  with run show ?thesis by blast
qed

text \<open>The node of the level above that gets the new bound.\<close>

lemma parent_node:
  assumes pre: "bup_pre L (cur, cn) (b, r) R (ns # nss) addrs bnds j t" and k: "rank k bnds = j"
  obtains X w n Y where "ns = X @ (w, n) # Y" "bpath k (ns # nss) = w # bpath k nss" "rank k (lbounds ns) = length X"
    "rank (last (bkeys cn)) (lkeys ns) = length (lkeys X) + rank (last (bkeys cn)) (bkeys n)"
    "Y \<noteq> [] \<Longrightarrow> rank (last (bkeys cn)) (bkeys n) < length (bkeys n)" "\<not> beyond (last (bkeys r)) n"
    "rank (last (bkeys cn)) (lbounds ns) = length X"
proof -
  let ?m = "last (bkeys cn)"
  have P: "blevel L (bt_inner_size t) False ns" "lkeys ns = bnds" "sorted_wrt (<) bnds" "rank ?m bnds = j" "rank (last (bkeys r)) bnds = j"
    using pre by (auto simp: bup_pre_def)
  obtain X w n Y where ns: "ns = X @ (w, n) # Y" "length X = rank ?m (lbounds ns)" "w = fst (ns ! rank ?m (lbounds ns))"
    "rank ?m (lkeys ns) = length (lkeys X) + rank ?m (bkeys n)" "Y \<noteq> [] \<Longrightarrow> rank ?m (bkeys n) < length (bkeys n)"
    using blevel_locate[OF P(1), of ?m] by blast
  have "rank k (lbounds ns) = rank ?m (lbounds ns)"
    by (rule rank_subset_cong[OF P(3)]) (use sorted_lbounds(2)[OF P(1)] P(2,4) k in auto)
  note rk = this
  have "rank (last (bkeys r)) (bkeys n) = rank ?m (bkeys n)"
  proof (rule rank_subset_cong[OF P(3)])
    show "set (bkeys n) \<subseteq> set bnds" unfolding P(2)[symmetric] ns(1) by auto
  qed (simp add: P(4,5))
  note rr = this
  have "blevel L (bt_inner_size t) False (X @ (w, n) # Y)" using P(1) ns(1) by metis
  then have nb: "\<not> beyond (last (bkeys r)) n" by (rule not_beyond) (metis ns(5) rr)
  show ?thesis
  proof (rule that[OF ns(1) _ _ ns(4,5) nb])
    show "bpath k (ns # nss) = w # bpath k nss" using ns(3) rk by simp
  qed (use ns(2) rk in simp_all)
qed

lemma insert_up_step:
  assumes h: "bt_heap t cur = Some cn" "bt_heap t b = Some r" "bt_heap t w = Some n" "cur \<noteq> w" "bt_root t \<noteq> cur"
    and inv: "bnode_inv cn" "bkeys cn \<noteq> []" "bnode_inv r" "bkeys r \<noteq> []" and nb: "\<not> beyond (last (bkeys r)) n"
    and l: "bl_latch_exclusive L w t = Some (bt_put w nL t)" "nL = n\<lparr>b_latch := l\<rparr>" "l_unexclusive L (b_latch cn) = l_init L"
    and t2: "t2 = bt_put cur (cn\<lparr>b_latch := l_init L\<rparr>) (bt_put w nL t)"
    and I: "InnerInsert L (bt_next t) (last (bkeys cn)) cur b (bt_inner_split t) nL = (n', made)"
  shows "insert_up L cur (Some b) (w # path) t =
    (case made of
       None \<Rightarrow> insert_up L w None path (bt_put w n' t2)
     | Some r2 \<Rightarrow> insert_up L w (Some (bt_next t)) path (bt_alloc r2 (bt_put w n' t2)))"
proof -
  have po: "parent_of L cur b (w # path) t = Some (w, path, t)" using h(5) by (simp add: parent_of_def)
  have mv: "move_coupled L (last (bkeys r)) w (bt_put w nL t) = Some (w, bt_put w nL t)"
    by (rule move_coupled_here[of _ _ nL]) (use nb l(2) in simp_all)
  have ul: "bl_unlatch_exclusive L cur (bt_put w nL t) = Some t2"
    using unlatch_exclusive_at[of "bt_put w nL t" cur cn] h l(3) by (simp add: t2)
  have f: "bt_heap t2 w = Some nL" "bt_inner_split t2 = bt_inner_split t" "bt_next t2 = bt_next t" using h(4) by (simp_all add: t2)
  show ?thesis
    using h po l(1) mv ul I f last_key[OF inv(1,2)] last_key[OF inv(3,4)]
    by (subst insert_up.simps) (simp add: Let_def)
qed

lemma up_facts:
  assumes pre: "bup_pre L (cur, cn) (b, r) R (ns # nss) addrs bnds j t" and ns: "ns = X @ (w, n) # Y"
  shows "bt_heap t cur = Some cn" "bt_heap t b = Some r" "bt_heap t w = Some n" "cur \<noteq> w" "bt_root t \<noteq> cur"
    "bcells_ok t ((cur, cn) # (b, r) # R @ X @ (w, n) # Y @ concat nss)"
proof -
  show c: "bcells_ok t ((cur, cn) # (b, r) # R @ X @ (w, n) # Y @ concat nss)" using pre by (simp add: bup_pre_def ns)
  show "bt_heap t cur = Some cn" "bt_heap t b = Some r" "bt_heap t w = Some n" by (rule bcells_get[OF c]; simp)+
  show "cur \<noteq> w" using c by (auto simp: bcells_ok_def)
  have "last (ns # nss) \<in> set (ns # nss)" by (rule last_in_set) simp
  moreover have "blevels L (bt_inner_size t) (ns # nss) addrs bnds" using pre by (simp only: bup_pre_def)
  then have "last (ns # nss) \<noteq> []" using calculation by (rule blevels_nonempty)
  ultimately have "hd (last (ns # nss)) \<in> set (concat (ns # nss))" by force
  then have "fst (hd (last (ns # nss))) \<in> fst ` set (concat (ns # nss))" by blast
  moreover have "cur \<notin> fst ` set (concat (ns # nss))" using pre by (auto simp: bup_pre_def bcells_ok_def)
  moreover have "bt_root t = fst (hd (last (ns # nss)))" using pre by (simp add: bup_pre_def)
  ultimately show "bt_root t \<noteq> cur" by metis
qed

text \<open>The round up to the insertion: \<open>cur\<close> is unlatched, \<open>w\<close> latched, and the node takes the separator.\<close>

lemma up_start:
  fixes t :: "('k::{linorder,zero}, 'v::zero, 'l) bltree"
  assumes pre: "bup_pre L (cur, cn) (b, r) R (ns # nss) addrs bnds j t"
    and ns: "ns = X @ (w, n) # Y" "rank (last (bkeys cn)) (lkeys ns) = length (lkeys X) + rank (last (bkeys cn)) (bkeys n)"
      "Y \<noteq> [] \<Longrightarrow> rank (last (bkeys cn)) (bkeys n) < length (bkeys n)" "\<not> beyond (last (bkeys r)) n"
  shows "\<exists>nL t2. up_started L (cur, cn) (b, r) (R @ X) w n (Y @ concat nss) t nL t2"
proof -
  let ?m = "last (bkeys cn)"
  note H = up_facts[OF pre ns(1)]
  have P: "blevel L (bt_inner_size t) False ns" "\<forall>x\<in>set ns. bkeys (snd x) \<noteq> []" "lkeys ns = bnds" "l_unexclusive L (b_latch cn) = l_init L"
    "bnode_inv cn" "bkeys cn \<noteq> []" "bnode_inv r" "bkeys r \<noteq> []" "?m \<notin> set bnds"
    using pre by (simp_all add: bup_pre_def)
  note A = blevel_at[OF P(1)[unfolded ns(1)]]
  obtain l where l: "bl_latch_exclusive L w t = Some (bt_put w (n\<lparr>b_latch := l\<rparr>) t)" "l_unexclusive L l = l_init L"
    using exclusive_section[OF H(3) A(4)] by blast
  have "bkeys n \<noteq> []" using P(2) ns(1) by simp
  then have cnt: "0 < b_cnt n" using length_bkeys[OF A(1)] by (metis length_greater_0_conv)
  have nin: "?m \<notin> set (bkeys n)" using P(3,9) ns(1) by auto
  have edge: "rank ?m (bkeys n) < b_cnt n \<or> b_sibling n = None" using ns(3) A(5) length_bkeys[OF A(1)] by auto
  define nL where "nL = n\<lparr>b_latch := l\<rparr>"
  define t2 where "t2 = bt_put cur (cn\<lparr>b_latch := l_init L\<rparr>) (bt_put w nL t)"
  have c: "bcells_ok t2 ((cur, cn\<lparr>b_latch := l_init L\<rparr>) # (b, r) # R @ X @ (w, nL) # Y @ concat nss)"
    unfolding t2_def by (rule bcells_put, use bcells_put_at[of t "(cur, cn) # (b, r) # R @ X" w n] H(6) in simp)
  have "insert_up L cur (Some b) (w # path) t =
       (case made of None \<Rightarrow> insert_up L w None path (bt_put w n' t2)
        | Some r2 \<Rightarrow> insert_up L w (Some (bt_next t)) path (bt_alloc r2 (bt_put w n' t2)))"
    if "InnerInsert L (bt_next t) (last (bkeys cn)) cur b (bt_inner_split t) nL = (n', made)" for path n' made
    by (rule insert_up_step[OF H(1-5) P(5-8) ns(4) l(1)[folded nL_def] nL_def P(4) t2_def that])
  then have "up_started L (cur, cn) (b, r) (R @ X) w n (Y @ concat nss) t nL t2"
    using A(1-4) l(2) cnt edge nin c unfolding up_started_def by (auto simp: nL_def t2_def same_tree_def)
  then show ?thesis by blast
qed

lemma insert_up_room:
  fixes t :: "('k::{linorder,zero}, 'v::zero, 'l) bltree"
  assumes pre: "bup_pre L (cur, cn) (b, r) R (ns # nss) addrs bnds j t"
    and ns: "ns = X @ (w, n) # Y" "rank (last (bkeys cn)) (lkeys ns) = length (lkeys X) + rank (last (bkeys cn)) (bkeys n)"
      "Y \<noteq> [] \<Longrightarrow> rank (last (bkeys cn)) (bkeys n) < length (bkeys n)" "\<not> beyond (last (bkeys r)) n"
    and safe: "bl_safe (bt_inner_split t) n"
  shows "\<exists>t'. insert_up L cur (Some b) (w # path) t = Some t' \<and> bup_post L (cur, cn) (b, r) R (ns # nss) addrs bnds j t t'"
proof -
  let ?m = "last (bkeys cn)"
  have P: "bt_inner_split t \<le> 1" "blevel L (bt_inner_size t) False ns" "\<forall>x\<in>set ns. bkeys (snd x) \<noteq> []" "lkids ns = map Some addrs" "lkeys ns = bnds"
    "?m \<notin> set bnds" "rank ?m bnds = j" "blevels L (bt_inner_size t) nss (map fst ns) (lbounds ns)" "bt_root t = top_of (ns # nss) addrs"
    using pre by (simp_all add: bup_pre_def params_ok_def)
  note C = child_at[OF P(2,4) ns(1-3)]
  obtain nL t2 where N: "up_started L (cur, cn) (b, r) (R @ X) w n (Y @ concat nss) t nL t2" using up_start[OF pre ns] by blast
  note N = N[unfolded up_started_def fst_conv snd_conv]
  obtain n' where I: "InnerInsert L (bt_next t) ?m cur b (bt_inner_split t) nL = (n', None)" "bnode_inv n'" "same_node n' nL"
    "b_sibling n' = b_sibling n" "bkeys n' = insert_at (rank ?m (bkeys n)) ?m (bkeys n)"
    "bkids n' = insert_at (Suc (rank ?m (bkeys n))) (Some b) (bkids n)"
  proof -
    have "rank ?m (bkeys n) = rank ?m (bkeys nL)" "?m \<notin> set (bkeys nL)" "bl_safe (bt_inner_split t) nL" using N safe by simp_all
    then obtain n' where "InnerInsert L (bt_next t) ?m cur b (bt_inner_split t) nL = (n', None)" "bnode_inv n'" "same_node n' nL"
      "b_sibling n' = b_sibling nL" "bkeys n' = insert_at (rank ?m (bkeys n)) ?m (bkeys nL)"
      "bkids n' = insert_at (Suc (rank ?m (bkeys n))) (Some b) (bkids nL)"
      using InnerInsert_safe[of nL "bt_inner_split t" "rank ?m (bkeys n)" ?m L "bt_next t" cur b] N P(1) by blast
    with that show thesis using N by simp
  qed
  let ?n = "n'\<lparr>b_latch := l_init L\<rparr>"
  let ?t = "bt_put w ?n t2" and ?ns = "X @ (w, ?n) # Y"
  have run: "insert_up L cur (Some b) (w # path) t = Some ?t"
    using N I(1) insert_up_done[of "bt_put w n' t2" w n' path] I(3) by (simp add: same_node_def)
  have c: "bcells_ok ?t ((cur, cn\<lparr>b_latch := l_init L\<rparr>) # (b, r) # R @ X @ (w, ?n) # Y @ concat nss)"
    using bcells_put_at[of t2 "(cur, cn\<lparr>b_latch := l_init L\<rparr>) # (b, r) # R @ X" w nL "Y @ concat nss" ?n] N by simp
  have cell: "cell_ok L (bt_inner_size t) False (w, ?n)" using I(2,3) N by (simp add: cell_ok_def same_node_def)
  have e: "b_sibling ?n = b_sibling n" "bkeys ?n = insert_at (rank ?m (bkeys n)) ?m (bkeys n)" using I(4,5) by simp_all
  note LR = level_room[OF P(2)[unfolded ns(1)] cell e refl ns(2)[unfolded ns(1)] ns(3) P(6)[folded P(5), unfolded ns(1)], folded ns(1)]
  have lv: "blevel L (bt_inner_size t) False ?ns" "lkeys ?ns = insert_at j ?m bnds" "lbounds ?ns = lbounds ns"
    using LR unfolding P(5,7) by simp_all
  have "lkids ?ns = map Some (insert_at (Suc j) b addrs)"
    using lkids_insert[OF P(4)[unfolded ns(1)] C(4,5), of b] I(6) ns(2) P(5,7) by simp
  moreover have "\<forall>x\<in>set ?ns. bkeys (snd x) \<noteq> []" using P(3) ns(1) I(5) by (auto simp: insert_at_def)
  moreover have "map fst ?ns = map fst ns" by (simp add: ns(1))
  ultimately have lvs: "blevels L (bt_inner_size t) (?ns # nss) (insert_at (Suc j) b addrs) (insert_at j ?m bnds)"
    using lv P(8) by simp
  have "fst (hd ?ns) = fst (hd ns)" by (cases X) (simp_all add: ns(1))
  then have top: "bt_root ?t = top_of (?ns # nss) (insert_at (Suc j) b addrs)" using P(9) N by simp
  have "bup_post L (cur, cn) (b, r) R (ns # nss) addrs bnds j t ?t"
    unfolding bup_post_def fst_conv snd_conv
    by (rule exI[of _ "?ns # nss"], rule exI[of _ "b_upper cn"], rule exI[of _ "b_upper r"])
       (use c lvs top N in \<open>simp add: same_tree_def\<close>)
  with run show ?thesis by blast
qed

lemma up_split_post:
  assumes pre: "bup_pre L (cur, cn) (b, r) R (ns # nss) addrs bnds j t"
    and ns: "ns = X @ (w, n) # Y" "rank (last (bkeys cn)) (lkeys ns) = length (lkeys X) + rank (last (bkeys cn)) (bkeys n)"
      "Y \<noteq> [] \<Longrightarrow> rank (last (bkeys cn)) (bkeys n) < length (bkeys n)"
    and I: "bnode_inv n'" "bnode_inv r2" "b_leaf n' = False" "b_size n' = bt_inner_size t" "split_node_of L a n n' r2"
      "bkeys n' @ bkeys r2 = insert_at (rank (last (bkeys cn)) (bkeys n)) (last (bkeys cn)) (bkeys n)"
      "bkids n' @ bkids r2 = insert_at (Suc (rank (last (bkeys cn)) (bkeys n))) (Some b) (bkids n)"
    and t3: "same_tree t3 t" "bt_depth t3 = bt_depth t"
    and post: "bup_post L (w, n') (a, r2) ((cur, cn\<lparr>b_latch := l_init L\<rparr>) # (b, r) # R @ X @ Y) nss (map fst ns) (lbounds ns) (length X) t3 t'"
  shows "bup_post L (cur, cn) (b, r) R (ns # nss) addrs bnds j t t'"
proof -
  let ?m = "last (bkeys cn)"
  have P: "blevel L (bt_inner_size t) False ns" "\<forall>x\<in>set ns. bkeys (snd x) \<noteq> []" "lkids ns = map Some addrs" "lkeys ns = bnds"
    "?m \<notin> set bnds" "rank ?m bnds = j"
    using pre by (simp_all add: bup_pre_def)
  note C = child_at[OF P(1,3) ns]
  obtain nss' u1 u2 where Q: "bcells_ok t' ((w, n'\<lparr>b_latch := l_init L, b_upper := u1\<rparr>) # (a, r2\<lparr>b_upper := u2\<rparr>) #
        ((cur, cn\<lparr>b_latch := l_init L\<rparr>) # (b, r) # R @ X @ Y) @ concat nss')"
      "blevels L (bt_inner_size t) nss' (insert_at (Suc (length X)) a (map fst ns)) (insert_at (length X) (last (bkeys n')) (lbounds ns))"
      "bt_root t' = top_of nss' (insert_at (Suc (length X)) a (map fst ns))" "same_tree t' t" "bt_depth t' + length nss = bt_depth t + length nss'"
    using post t3 by (auto simp: bup_post_def same_tree_def)
  define ns' where "ns' = X @ (w, n'\<lparr>b_latch := l_init L, b_upper := u1\<rparr>) # (a, r2\<lparr>b_upper := u2\<rparr>) # Y"
  note H = level_halves[OF P(1)[unfolded ns(1)] I(1-6) refl ns(2)[unfolded ns(1)] ns(3) P(5)[folded P(4), unfolded ns(1)] ns'_def, folded ns(1)]
  have lv: "lkeys ns' = insert_at j ?m bnds" using H(2) unfolding P(4,6) .
  have "lkids ns' = map Some (insert_at (Suc j) b addrs)"
    using lkids_insert[OF P(3)[unfolded ns(1)] C(4,5), of b] I(7)[symmetric] ns(2) P(4,6) by (simp add: ns'_def)
  moreover have ne: "\<forall>x\<in>set ns'. bkeys (snd x) \<noteq> []" using P(2) ns(1) I(5) by (auto simp: ns'_def split_node_of_def)
  moreover have mf: "map fst ns' = insert_at (Suc (length X)) a (map fst ns)" by (simp add: ns'_def ns(1) insert_at_def)
  ultimately have lvs: "blevels L (bt_inner_size t) (ns' # nss') (insert_at (Suc j) b addrs) (insert_at j ?m bnds)"
    using H(1,3) lv Q(2) by simp
  have c: "bcells_ok t' ((cur, cn\<lparr>b_latch := l_init L\<rparr>) # (b, r) # R @ concat (ns' # nss'))"
    by (rule bcells_ok_mset[OF Q(1)]) (simp add: ns'_def)
  have top: "bt_root t' = top_of (ns' # nss') (insert_at (Suc j) b addrs)"
    using Q(3) unfolding top_of_Cons[OF lvs] mf .
  show ?thesis
    unfolding bup_post_def fst_conv snd_conv
    by (rule exI[of _ "ns' # nss'"], rule exI[of _ "b_upper cn"], rule exI[of _ "b_upper r"])
       (use c lvs top Q(4,5) in simp)
qed

lemma insert_up_split:
  fixes t :: "('k::{linorder,zero}, 'v::zero, 'l) bltree"
  assumes pre: "bup_pre L (cur, cn) (b, r) R (ns # nss) addrs bnds j t"
    and ns: "ns = X @ (w, n) # Y" "rank (last (bkeys cn)) (lkeys ns) = length (lkeys X) + rank (last (bkeys cn)) (bkeys n)"
      "Y \<noteq> [] \<Longrightarrow> rank (last (bkeys cn)) (bkeys n) < length (bkeys n)" "\<not> beyond (last (bkeys r)) n"
    and full: "\<not> bl_safe (bt_inner_split t) n"
  shows "\<exists>n' r2 R' t3. insert_up L cur (Some b) (w # path) t = insert_up L w (Some (bt_next t)) path t3 \<and>
    bup_pre L (w, n') (bt_next t, r2) R' nss (map fst ns) (lbounds ns) (length X) t3 \<and>
    (\<forall>t'. bup_post L (w, n') (bt_next t, r2) R' nss (map fst ns) (lbounds ns) (length X) t3 t' \<longrightarrow>
       bup_post L (cur, cn) (b, r) R (ns # nss) addrs bnds j t t')"
proof -
  let ?m = "last (bkeys cn)" and ?a = "bt_next t"
  have P: "params_ok t" "blevel L (bt_inner_size t) False ns" "lkeys ns = bnds"
    "?m \<notin> set bnds" "rank ?m bnds = j" "blevels L (bt_inner_size t) nss (map fst ns) (lbounds ns)"
    using pre by (simp_all add: bup_pre_def)
  have "blevels L (bt_inner_size t) (ns # nss) addrs bnds" "bt_root t = top_of (ns # nss) addrs" using pre by (simp_all only: bup_pre_def)
  then have top: "bt_root t = top_of nss (map fst ns)" by (simp only: top_of_Cons)
  obtain nL t2 where N: "up_started L (cur, cn) (b, r) (R @ X) w n (Y @ concat nss) t nL t2" using up_start[OF pre ns] by blast
  note N = N[unfolded up_started_def fst_conv snd_conv]
  have "rank ?m (bkeys n) = rank ?m (bkeys nL)" "?m \<notin> set (bkeys nL)" "\<not> bl_safe (bt_inner_split t) nL" using N full by simp_all
  then obtain n' r2 where I: "InnerInsert L ?a ?m cur b (bt_inner_split t) nL = (n', Some r2)" "bnode_inv n'" "bnode_inv r2" "same_node n' nL"
      "split_node_of L ?a nL n' r2" "bkeys n' @ bkeys r2 = insert_at (rank ?m (bkeys n)) ?m (bkeys nL)"
      "bkids n' @ bkids r2 = insert_at (Suc (rank ?m (bkeys n))) (Some b) (bkids nL)"
    using InnerInsert_split[of nL "bt_inner_split t" "rank ?m (bkeys n)" ?m L ?a cur b] N by blast
  have J: "b_leaf n' = False" "b_size n' = bt_inner_size t" "split_node_of L ?a n n' r2"
    using I(4,5) N blevel_at[OF P(2)[unfolded ns(1)]] by (simp_all add: same_node_def split_node_of_def)
  define t3 where "t3 = bt_alloc r2 (bt_put w n' t2)"
  define R' where "R' = (cur, cn\<lparr>b_latch := l_init L\<rparr>) # (b, r) # R @ X @ Y"
  have K: "bkeys n' @ bkeys r2 = insert_at (rank ?m (bkeys n)) ?m (bkeys n)"
    "bkids n' @ bkids r2 = insert_at (Suc (rank ?m (bkeys n))) (Some b) (bkids n)" using I(6,7) N by simp_all
  have T: "same_tree t3 t" "bt_depth t3 = bt_depth t" "bt_root t3 = bt_root t" using N by (simp_all add: t3_def same_tree_def)
  note H = level_halves[OF P(2)[unfolded ns(1)] I(2,3) J K(1) refl ns(2)[unfolded ns(1)] ns(3) P(4)[folded P(3), unfolded ns(1)] refl, folded ns(1)]
  have "bcells_ok (bt_put w n' t2) (((cur, cn\<lparr>b_latch := l_init L\<rparr>) # (b, r) # R @ X) @ (w, n') # Y @ concat nss)"
    by (rule bcells_put_at[of _ _ _ nL]) (use N in simp)
  from bcells_alloc[OF this refl, of r2] have "bcells_ok t3 ((w, n') # (?a, r2) # R' @ concat nss)"
    using N by (auto elim!: bcells_ok_mset simp: t3_def R'_def)
  moreover have "l_unexclusive L (b_latch n') = l_init L" "bkeys n' \<noteq> []" "bkeys r2 \<noteq> []"
    using N I(4) J(3) by (simp_all add: same_node_def split_node_of_def)
  ultimately have pre': "bup_pre L (w, n') (?a, r2) R' nss (map fst ns) (lbounds ns) (length X) t3"
    unfolding bup_pre_def using H(4-6) P(1,6) T top sorted_lbounds(1)[OF P(2)] I(2,3) same_tree_params[OF T(1)]
    by (simp add: same_tree_def ns(1) nth_append)
  have run: "insert_up L cur (Some b) (w # path) t = insert_up L w (Some ?a) path t3"
    using N[THEN conjunct2, THEN conjunct2] I(1) by (simp add: t3_def)
  show ?thesis
    by (rule exI[of _ n'], rule exI[of _ r2], rule exI[of _ R'], rule exI[of _ t3], intro conjI allI impI)
       (fact run, fact pre', rule up_split_post[OF pre ns(1-3) I(2,3) J K T(1,2), folded R'_def])
qed

lemma insert_up_spec:
  fixes t :: "('k::{linorder,zero}, 'v::zero, 'l) bltree"
  assumes "bup_pre L c new R nss addrs bnds j t" "rank k bnds = j"
  shows "\<exists>t'. insert_up L (fst c) (Some (fst new)) (bpath k nss) t = Some t' \<and> bup_post L c new R nss addrs bnds j t t'"
  using assms
proof (induction nss arbitrary: c new R addrs bnds j t)
  case Nil
  then show ?case using insert_up_root[of "fst c" "snd c" "fst new" "snd new"] by simp
next
  case (Cons ns nss)
  obtain cur cn b r where c: "c = (cur, cn)" "new = (b, r)" using surj_pair[of c] surj_pair[of new] by blast
  note pre = Cons.prems(1)[unfolded c]
  obtain X w n Y where ns: "ns = X @ (w, n) # Y" "bpath k (ns # nss) = w # bpath k nss" "rank k (lbounds ns) = length X"
    "rank (last (bkeys cn)) (lkeys ns) = length (lkeys X) + rank (last (bkeys cn)) (bkeys n)"
    "Y \<noteq> [] \<Longrightarrow> rank (last (bkeys cn)) (bkeys n) < length (bkeys n)" "\<not> beyond (last (bkeys r)) n"
    by (rule parent_node[OF pre Cons.prems(2)]) (rule that)
  show ?case
  proof (cases "bl_safe (bt_inner_split t) n")
    case True
    then show ?thesis using insert_up_room[OF pre ns(1,4-6)] unfolding c ns(2) by simp
  next
    case False
    from insert_up_split[OF pre ns(1,4-6) False] obtain n' r2 R' t3
      where S: "insert_up L cur (Some b) (w # bpath k nss) t = insert_up L w (Some (bt_next t)) (bpath k nss) t3"
        "bup_pre L (w, n') (bt_next t, r2) R' nss (map fst ns) (lbounds ns) (length X) t3"
        "\<And>t'. bup_post L (w, n') (bt_next t, r2) R' nss (map fst ns) (lbounds ns) (length X) t3 t' \<Longrightarrow>
           bup_post L (cur, cn) (b, r) R (ns # nss) addrs bnds j t t'" by blast
    show ?thesis using Cons.IH[OF S(2) ns(3)] S(1,3) unfolding c ns(2) by auto
  qed
qed

end

section \<open>Insert\<close>

lemma top_of_leaves: "ls \<noteq> [] \<Longrightarrow> fst (hd (last (ls # nss))) = top_of nss (map fst ls)"
  by (simp add: hd_map)

lemma dom_bl_map: "blevel L sz True ls \<Longrightarrow> dom (bl_map ls) = set (lkeys ls)"
  using fst_lpairs[of ls] blevel_leaves[of L sz True ls] by (metis bl_map_def dom_map_of_conv_image_fst list.set_map)

lemma empty_safe: "params_ok t \<Longrightarrow> b_size n = bt_leaf_size t \<Longrightarrow> \<not> bl_safe (bt_leaf_split t) n \<Longrightarrow> 0 < b_cnt n"
  by (cases "b_cnt n") (simp_all add: params_ok_def bl_safe_def)

context latch
begin

lemma insert_descend_leaf:
  assumes ok: "bltree_ok L t ls nss" and a: "bt_heap t a = Some n" "b_leaf n" "a = map fst ls ! rank k (lbounds ls)"
  shows "insert_descend L k (bt_root t) [] t = Some (if k \<in> set (lbounds ls) then None else Some (a, bpath k nss), t)"
proof -
  have "insert_descend L k a (bpath k nss) t = Some (Some (a, bpath k nss), t)"
    using a by (subst insert_descend.simps) simp
  then show ?thesis
    using insert_descend_levels[of "bt_inner_size t" nss "map fst ls" "lbounds ls" t "concat (ls # nss)" k] ok a(3)
    unfolding bltree_root[OF ok] by (simp add: bltree_ok_def)
qed

lemma Insert_present:
  assumes ok: "bltree_ok L t ls nss" and k: "k \<in> set (lkeys ls)"
  shows "Insert L k v t = Some (False, t)"
proof -
  obtain X a n Y where N: "a = map fst ls ! rank k (lbounds ls)" "bt_heap t a = Some n" "b_leaf n" "bnode_inv n"
    "\<not> beyond k n" "k \<in> set (lkeys ls) \<longleftrightarrow> k \<in> set (bkeys n)" "b_latch n = l_init L"
    using leaf_node[OF ok, of k] by metis
  obtain l where l: "bl_latch_exclusive L a t = Some (bt_put a (n\<lparr>b_latch := l\<rparr>) t)" "l_unexclusive L l = l_init L"
    using exclusive_section[OF N(2,7)] by blast
  let ?t = "bt_put a (n\<lparr>b_latch := l\<rparr>) t"
  have mv: "move_coupled L k a ?t = Some (a, ?t)" using N(5) by (intro move_coupled_here[of _ _ "n\<lparr>b_latch := l\<rparr>"]) simp_all
  have "bl_unlatch_exclusive L a ?t = Some t"
    using unlatch_exclusive_at[of ?t a] l(2) latch_idem[OF N(7), of a t] bt_put_same[OF N(2)] by simp
  moreover have "NodeScan k n < b_cnt n \<and> b_keys n ! NodeScan k n = k" using key_position[OF N(4), of k] N(6) k by simp
  ultimately show ?thesis
    using insert_descend_leaf[OF ok N(2,3,1)] l(1) mv by (simp add: Insert_def)
qed

text \<open>The steps up to the insertion into the leaf.\<close>

lemma Insert_start:
  assumes ok: "bltree_ok L t ls nss" and k: "k \<notin> set (lkeys ls)"
    and a: "bt_heap t a = Some n" "b_leaf n" "a = map fst ls ! rank k (lbounds ls)" "bnode_inv n" "\<not> beyond k n" "k \<notin> set (bkeys n)"
    and l: "bl_latch_exclusive L a t = Some (bt_put a nL t)" "nL = n\<lparr>b_latch := l\<rparr>"
    and I: "LeafInsert L (bt_next t) k v (rank k (bkeys n)) (bt_leaf_split t) nL = (n', made)"
  shows "Insert L k v t = map_option (\<lambda>t. (True, t))
    (insert_up L a (map_option (\<lambda>_. bt_next t) made) (bpath k nss)
       (case made of None \<Rightarrow> bt_put a n' t | Some r \<Rightarrow> bt_alloc r (bt_put a n' t)))"
proof -
  have lv: "blevel L (bt_leaf_size t) True ls" using ok by (simp add: bltree_ok_def)
  have "k \<notin> set (lbounds ls)" using sorted_lbounds(2)[OF lv] k by blast
  then have d: "insert_descend L k (bt_root t) [] t = Some (Some (a, bpath k nss), t)" using insert_descend_leaf[OF ok a(1-3)] by simp
  have mv: "move_coupled L k a (bt_put a nL t) = Some (a, bt_put a nL t)" using a(5) l(2) by (intro move_coupled_here[of _ _ nL]) simp_all
  have s: "NodeScan k nL = rank k (bkeys n)" using NodeScan_rank[of nL k] a(4) l(2) by simp
  have "\<not> (NodeScan k nL < b_cnt nL \<and> b_keys nL ! NodeScan k nL = k)" using key_position[of nL k] a(4,6) l(2) by simp
  then show ?thesis
    using d l(1) mv I s by (cases made) (auto simp: Insert_def Let_def map_conv_bind_option comp_def)
qed

lemma Insert_room:
  assumes ok: "bltree_ok L t ls nss" and k: "k \<notin> set (lkeys ls)"
    and ls: "ls = X @ (a, n) # Y" "rank k (lkeys ls) = length (lkeys X) + rank k (bkeys n)" "Y \<noteq> [] \<Longrightarrow> rank k (bkeys n) < length (bkeys n)"
    and a: "bt_heap t a = Some n" "b_leaf n" "a = map fst ls ! rank k (lbounds ls)" "bnode_inv n" "\<not> beyond k n" "b_latch n = l_init L"
    and safe: "bl_safe (bt_leaf_split t) n"
  shows "\<exists>t' ls'. Insert L k v t = Some (True, t') \<and> bltree_ok L t' ls' nss \<and> bl_map ls' = (bl_map ls)(k \<mapsto> v)"
proof -
  have lv: "blevel L (bt_leaf_size t) True ls" and P: "bt_leaf_split t \<le> 1" using ok by (simp_all add: bltree_ok_def params_ok_def)
  have kn: "k \<notin> set (bkeys n)" using k ls(1) by simp
  obtain l where l: "bl_latch_exclusive L a t = Some (bt_put a (n\<lparr>b_latch := l\<rparr>) t)" "l_unexclusive L l = l_init L"
    using exclusive_section[OF a(1,6)] by blast
  define nL where "nL = n\<lparr>b_latch := l\<rparr>"
  have M: "bnode_inv nL" "b_leaf nL" "bl_safe (bt_leaf_split t) nL" "rank k (bkeys n) = rank k (bkeys nL)" "k \<notin> set (bkeys nL)"
    using a(2,4) safe kn by (simp_all add: nL_def)
  obtain n' where I: "LeafInsert L (bt_next t) k v (rank k (bkeys n)) (bt_leaf_split t) nL = (n', None)" "bnode_inv n'" "same_node n' nL"
    "b_sibling n' = b_sibling nL" "bkeys n' = insert_at (rank k (bkeys n)) k (bkeys nL)" "bvals n' = insert_at (rank k (bkeys n)) v (bvals nL)"
    using LeafInsert_safe[OF M(1,2) P M(3-5)] by blast
  let ?n = "n'\<lparr>b_latch := l_init L\<rparr>"
  have "b_latch n' = l" using I(3) by (simp add: same_node_def nL_def)
  then have run: "Insert L k v t = Some (True, bt_put a ?n t)"
    using Insert_start[OF ok k a(1-5) kn l(1)[folded nL_def] nL_def I(1)] insert_up_done[of "bt_put a n' t" a n' "bpath k nss"] l(2) by simp
  have e: "b_sibling ?n = b_sibling n" "bkeys ?n = insert_at (rank k (bkeys n)) k (bkeys n)" "bvals ?n = insert_at (rank k (bkeys n)) v (bvals n)"
    using I(4-6) by (simp_all add: nL_def)
  have cell: "cell_ok L (bt_leaf_size t) True (a, ?n)"
    using I(2,3) a(2) blevel_at(3)[OF lv[unfolded ls(1)]] by (simp add: cell_ok_def same_node_def nL_def)
  note LR = level_room[OF lv[unfolded ls(1)] cell e(1,2) refl ls(2)[unfolded ls(1)] ls(3) k[unfolded ls(1)], folded ls(1)]
  have "map_of (zip (bkeys ?n) (bvals ?n)) = (node_map n)(k \<mapsto> v)"
    unfolding e(2,3) node_map_def using kn length_bkeys[OF a(4)] length_bvals[OF a(4,2)] rank_le[of k "bkeys n"]
    by (intro map_of_insert_at) (simp_all del: rank_le)
  then have m: "bl_map (X @ (a, ?n) # Y) = (bl_map ls)(k \<mapsto> v)"
    by (intro bl_map_change[OF lv ls(1)]) (use k kn in simp_all)
  have f: "map fst (X @ (a, ?n) # Y) = map fst ls" "fst (hd (X @ (a, ?n) # Y)) = fst (hd ls)" by (cases X; simp add: ls(1))+
  have "bcells_ok (bt_put a ?n t) (concat ((X @ (a, ?n) # Y) # nss))"
    using bcells_put_leaf[of t X a n Y nss ?n] ok by (simp add: bltree_ok_def ls(1))
  then have "bltree_ok L (bt_put a ?n t) (X @ (a, ?n) # Y) nss"
    using ok LR f by (auto simp: bltree_ok_def params_ok_def)
  with run m show ?thesis by blast
qed

lemma Insert_post:
  assumes ok: "bltree_ok L t ls nss" and k: "k \<notin> set (lkeys ls)"
    and ls: "ls = X @ (a, n) # Y" "rank k (lkeys ls) = length (lkeys X) + rank k (bkeys n)" "Y \<noteq> [] \<Longrightarrow> rank k (bkeys n) < length (bkeys n)"
    and I: "bnode_inv n'" "bnode_inv r" "b_leaf n' = True" "b_size n' = bt_leaf_size t" "split_node_of L b n n' r"
      "bkeys n' @ bkeys r = insert_at (rank k (bkeys n)) k (bkeys n)" "bvals n' @ bvals r = insert_at (rank k (bkeys n)) v (bvals n)"
    and t3: "same_tree t3 t" "bt_depth t3 = bt_depth t"
    and post: "bup_post L (a, n') (b, r) (X @ Y) nss (map fst ls) (lbounds ls) (length X) t3 t'"
  shows "\<exists>ls' nss'. bltree_ok L t' ls' nss' \<and> bl_map ls' = (bl_map ls)(k \<mapsto> v)"
proof -
  have lv: "blevel L (bt_leaf_size t) True ls" and P: "params_ok t" "bt_leaves t = fst (hd ls)" "bt_depth t = Suc (length nss)"
    using ok by (simp_all add: bltree_ok_def)
  note A = blevel_at[OF lv[unfolded ls(1)]]
  obtain nss' u1 u2 where Q: "bcells_ok t' ((a, n'\<lparr>b_latch := l_init L, b_upper := u1\<rparr>) # (b, r\<lparr>b_upper := u2\<rparr>) # (X @ Y) @ concat nss')"
      "blevels L (bt_inner_size t) nss' (insert_at (Suc (length X)) b (map fst ls)) (insert_at (length X) (last (bkeys n')) (lbounds ls))"
      "bt_root t' = top_of nss' (insert_at (Suc (length X)) b (map fst ls))" "same_tree t' t" "bt_depth t' + length nss = bt_depth t + length nss'"
    using post t3 by (auto simp: bup_post_def same_tree_def)
  define ls' where "ls' = X @ (a, n'\<lparr>b_latch := l_init L, b_upper := u1\<rparr>) # (b, r\<lparr>b_upper := u2\<rparr>) # Y"
  note H = level_halves[OF lv[unfolded ls(1)] I(1-6) refl ls(2)[unfolded ls(1)] ls(3) k[unfolded ls(1)] ls'_def, folded ls(1)]
  have f: "map fst ls' = insert_at (Suc (length X)) b (map fst ls)" "fst (hd ls') = fst (hd ls)" "ls' \<noteq> []"
    by (cases X; simp add: ls'_def ls(1) insert_at_def)+
  have c: "bcells_ok t' (concat (ls' # nss'))" by (rule bcells_ok_mset[OF Q(1)]) (simp add: ls'_def)
  have "bltree_ok L t' ls' nss'"
    unfolding bltree_ok_def top_of_leaves[OF f(3)] using c H(1,3) Q(2-5) P f same_tree_params[OF Q(4)] by (simp add: same_tree_def)
  moreover have z: "zip (bkeys n') (bvals n') @ zip (bkeys r) (bvals r) = zip (bkeys n' @ bkeys r) (bvals n' @ bvals r)"
    using I(1,3) by (simp add: length_bkeys length_bvals)
  have "map_of (zip (bkeys n') (bvals n') @ zip (bkeys r) (bvals r)) = (node_map n)(k \<mapsto> v)"
    unfolding z I(6,7) node_map_def using k ls(1) length_bkeys[OF A(1)] length_bvals[OF A(1)] A(2) rank_le[of k "bkeys n"]
    by (intro map_of_insert_at) (simp_all del: rank_le)
  then have "bl_map ls' = (bl_map ls)(k \<mapsto> v)"
    by (intro bl_map_change[OF lv ls(1), of k ls']) (use k ls(1) in \<open>simp_all add: ls'_def del: map_of_append\<close>)
  ultimately show ?thesis by blast
qed

lemma Insert_split:
  fixes t :: "('k::{linorder,zero}, 'v::zero, 'l) bltree"
  assumes ok: "bltree_ok L t ls nss" and k: "k \<notin> set (lkeys ls)"
    and ls: "ls = X @ (a, n) # Y" "rank k (lkeys ls) = length (lkeys X) + rank k (bkeys n)" "Y \<noteq> [] \<Longrightarrow> rank k (bkeys n) < length (bkeys n)"
      "length X = rank k (lbounds ls)"
    and a: "bt_heap t a = Some n" "b_leaf n" "a = map fst ls ! rank k (lbounds ls)" "bnode_inv n" "\<not> beyond k n" "b_latch n = l_init L"
    and full: "\<not> bl_safe (bt_leaf_split t) n"
  shows "\<exists>t' ls' nss'. Insert L k v t = Some (True, t') \<and> bltree_ok L t' ls' nss' \<and> bl_map ls' = (bl_map ls)(k \<mapsto> v)"
proof -
  let ?b = "bt_next t"
  have lv: "blevel L (bt_leaf_size t) True ls" and P: "params_ok t" "blevels L (bt_inner_size t) nss (map fst ls) (lbounds ls)"
    "bcells_ok t (concat (ls # nss))" "bt_leaves t = fst (hd ls)" "bt_depth t = Suc (length nss)" using ok by (simp_all add: bltree_ok_def)
  have kn: "k \<notin> set (bkeys n)" using k ls(1) by simp
  note A = blevel_at[OF lv[unfolded ls(1)]]
  obtain l where l: "bl_latch_exclusive L a t = Some (bt_put a (n\<lparr>b_latch := l\<rparr>) t)" "l_unexclusive L l = l_init L"
    using exclusive_section[OF a(1,6)] by blast
  define nL where "nL = n\<lparr>b_latch := l\<rparr>"
  have M: "bnode_inv nL" "b_leaf nL" "\<not> bl_safe (bt_leaf_split t) nL" "0 < b_cnt nL" "rank k (bkeys n) = rank k (bkeys nL)" "k \<notin> set (bkeys nL)"
    using a(2,4) full kn empty_safe[OF P(1) A(3) full] by (simp_all add: nL_def)
  obtain n' r where I: "LeafInsert L ?b k v (rank k (bkeys n)) (bt_leaf_split t) nL = (n', Some r)" "bnode_inv n'" "bnode_inv r" "same_node n' nL"
    "split_node_of L ?b nL n' r" "bkeys n' @ bkeys r = insert_at (rank k (bkeys n)) k (bkeys nL)"
    "bvals n' @ bvals r = insert_at (rank k (bkeys n)) v (bvals nL)"
    using LeafInsert_split[OF M] by blast
  have J: "b_leaf n' = True" "b_size n' = bt_leaf_size t" "split_node_of L ?b n n' r" "bkeys n' @ bkeys r = insert_at (rank k (bkeys n)) k (bkeys n)"
    "l_unexclusive L (b_latch n') = l_init L" "bkeys n' \<noteq> []" "bkeys r \<noteq> []" "b_leaf r"
    using I(4-6) a(2) A(3) l(2) by (simp_all add: same_node_def nL_def split_node_of_def)
  define t3 where "t3 = bt_alloc r (bt_put a n' t)"
  have run: "Insert L k v t = map_option (\<lambda>t. (True, t)) (insert_up L a (Some ?b) (bpath k nss) t3)"
    using Insert_start[OF ok k a(1-5) kn l(1)[folded nL_def] nL_def I(1)] by (simp add: t3_def)
  note H = level_halves[OF lv[unfolded ls(1)] I(2,3) J(1-4) refl ls(2)[unfolded ls(1)] ls(3) k[unfolded ls(1)], folded ls(1)]
  have T: "same_tree t3 t" "bt_depth t3 = bt_depth t" "bt_root t3 = top_of nss (map fst ls)"
    using bltree_root[OF ok] by (simp_all add: t3_def same_tree_def)
  have "bcells_ok (bt_put a n' t) (X @ (a, n') # Y @ concat nss)" using bcells_put_at[of t X a n "Y @ concat nss" n'] P(3) by (simp add: ls(1))
  from bcells_alloc[OF this refl, of r] have "bcells_ok t3 ((a, n') # (?b, r) # (X @ Y) @ concat nss)"
    by (auto elim!: bcells_ok_mset simp: t3_def)
  then have "bup_pre L (a, n') (?b, r) (X @ Y) nss (map fst ls) (lbounds ls) (length X) t3"
    unfolding bup_pre_def using H(4-6)[OF _ refl] P(1,2) T J I(2,3) sorted_lbounds(1)[OF lv] same_tree_params[OF T(1)]
    by (simp add: same_tree_def ls(1) nth_append)
  from insert_up_spec[OF this ls(4)[symmetric]] obtain t' where t': "insert_up L a (Some ?b) (bpath k nss) t3 = Some t'"
    "bup_post L (a, n') (?b, r) (X @ Y) nss (map fst ls) (lbounds ls) (length X) t3 t'" by auto
  have "bvals n' @ bvals r = insert_at (rank k (bkeys n)) v (bvals n)" using I(7) by (simp add: nL_def)
  from Insert_post[OF ok k ls(1-3) I(2,3) J(1-4) this T(1,2) t'(2)] show ?thesis using run t'(1) by simp
qed

text \<open>\<open>Insert\<close> adds a pair if and only if the key is absent.\<close>

lemma Insert_spec:
  fixes t :: "('k::{linorder,zero}, 'v::zero, 'l) bltree"
  assumes ok: "bltree_ok L t ls nss"
  shows "\<exists>t' ls' nss'. Insert L k v t = Some (k \<notin> dom (bl_map ls), t') \<and> bltree_ok L t' ls' nss' \<and>
    bl_map ls' = (if k \<in> dom (bl_map ls) then bl_map ls else (bl_map ls)(k \<mapsto> v))"
proof -
  have lv: "blevel L (bt_leaf_size t) True ls" using ok by (simp add: bltree_ok_def)
  note D = dom_bl_map[OF lv]
  obtain X a n Y where N: "ls = X @ (a, n) # Y" "rank k (lkeys ls) = length (lkeys X) + rank k (bkeys n)"
    "Y \<noteq> [] \<Longrightarrow> rank k (bkeys n) < length (bkeys n)" "length X = rank k (lbounds ls)" "bt_heap t a = Some n" "b_leaf n"
    "a = map fst ls ! rank k (lbounds ls)" "bnode_inv n" "\<not> beyond k n" "b_latch n = l_init L"
    by (rule leaf_node[OF ok, of k]) (rule that)
  consider "k \<in> set (lkeys ls)" | "k \<notin> set (lkeys ls)" "bl_safe (bt_leaf_split t) n" | "k \<notin> set (lkeys ls)" "\<not> bl_safe (bt_leaf_split t) n"
    by blast
  then show ?thesis
  proof cases
    case 1
    then show ?thesis using Insert_present[OF ok 1] ok D by auto
  next
    case 2
    then show ?thesis using Insert_room[OF ok 2(1) N(1-3,5-10) 2(2), of v] D by auto
  next
    case 3
    then show ?thesis using Insert_split[OF ok 3(1) N(1-10) 3(2), of v] D by auto
  qed
qed

end

section \<open>New trees\<close>

lemma bltree_new_ok:
  assumes "params_ok (bltree_new L isz lsz isp lsp :: ('k::{linorder,zero}, 'v::zero, 'l) bltree)"
  shows "bltree_ok L (bltree_new L isz lsz isp lsp) [(0, bl_new L lsz True :: ('k, 'v, 'l) blnode)] []"
    "bl_map [(0, bl_new L lsz True :: ('k, 'v, 'l) blnode)] = Map.empty"
  using assms by (auto simp: bltree_ok_def bltree_new_def blevel_def cell_ok_def bcells_ok_def bl_new_def bnode_inv_def bkeys_def
    lkeys_def lbounds_def block_bounds_def bl_map_def lpairs_def params_ok_def)

lemma bltree_default_params: "params_ok (bltree_default L)"
  by (simp add: bltree_default_def bltree_new_def params_ok_def)

end
