(* ===== verification/BLinkScan.thy ===== *)
theory BLinkScan
  imports BLinkLevels
begin

text \<open>
  The scans of the B-link tree return the pairs of the map in the order of the keys: \<open>ScanLeaf\<close> all
  of them, \<open>ScanFixed\<close> a number of pairs from a key on and \<open>ScanRange\<close> those below a second key. A
  scan latches the leaves from left to right and unlatches all of them at the end, which leaves the
  tree as it was. \<open>SearchUnsafe\<close> finds the same value as \<open>Search\<close>, and the destructor frees every
  node once.
\<close>

section \<open>The pairs of a leaf\<close>

lemma pairs_from_zip: "bnode_inv n \<Longrightarrow> b_leaf n \<Longrightarrow> pairs_from i n = drop i (zip (bkeys n) (bvals n))"
  using length_bkeys[of n] length_bvals[of n]
  by (intro nth_equalityI) (auto simp: pairs_from_def bkeys_def bvals_def)

lemma pairs_from_latch [simp]: "pairs_from i (n\<lparr>b_latch := l\<rparr>) = pairs_from i n"
  by (simp add: pairs_from_def)

section \<open>All leaves\<close>

lemma scan_leaves_chain:
  assumes "chain ls None" "\<forall>x\<in>set ls. bnode_inv (snd x) \<and> b_leaf (snd x) \<and> bt_heap t (fst x) = Some (snd x)"
  shows "scan_leaves (if ls = [] then None else Some (fst (hd ls))) out t = Some (out @ lpairs ls)"
  using assms
proof (induction ls arbitrary: out)
  case Nil
  then show ?case by (subst scan_leaves.simps) simp
next
  case (Cons x ls)
  then have "pairs_from 0 (snd x) = zip (bkeys (snd x)) (bvals (snd x))" by (simp add: pairs_from_zip)
  moreover have "scan_leaves (b_sibling (snd x)) (out @ zip (bkeys (snd x)) (bvals (snd x))) t = Some (out @ lpairs (x # ls))"
    using Cons.IH[of "out @ zip (bkeys (snd x)) (bvals (snd x))"] Cons.prems by simp
  ultimately show ?case using Cons.prems by (subst scan_leaves.simps) simp
qed

lemma ScanLeaf_spec:
  assumes ok: "bltree_ok L t ls nss"
  shows "ScanLeaf t = Some (lpairs ls)"
proof -
  have "bt_heap t (fst x) = Some (snd x)" if "x \<in> set ls" for x
    using ok that by (intro bcells_get[of t "concat (ls # nss)"]) (auto simp: bltree_ok_def)
  then show ?thesis
    using scan_leaves_chain[of ls t "[]"] ok by (auto simp: ScanLeaf_def bltree_ok_def blevel_def cell_ok_def)
qed

section \<open>Scans from a key\<close>

text \<open>
  The leaves that a scan still has to visit: \<open>a\<close> is latched, the ones to its right are not. The
  loop ends by unlatching the stack, which is as it would be in the tree the step started from.
\<close>

definition scan_state :: "'l latch_ops \<Rightarrow> addr \<Rightarrow> ('k::linorder, 'v, 'l) blnode \<Rightarrow> ('k, 'v, 'l) bcell list \<Rightarrow> ('k, 'v, 'l) bltree \<Rightarrow> bool" where
  "scan_state L a n Z t \<longleftrightarrow> bt_heap t a = Some n \<and> bnode_inv n \<and> b_leaf n \<and> chain ((a, n) # Z) None \<and> distinct (a # map fst Z) \<and>
     (\<forall>x\<in>set Z. bnode_inv (snd x) \<and> b_leaf (snd x) \<and> b_latch (snd x) = l_init L \<and> bt_heap t (fst x) = Some (snd x))"

lemma scan_state_next:
  assumes "scan_state L a n ((b, m) # Z) t"
  shows "b_sibling n = Some b" "bt_heap t b = Some m" "b_latch m = l_init L"
    "scan_state L b (m\<lparr>b_latch := l\<rparr>) Z (bt_put b (m\<lparr>b_latch := l\<rparr>) t)"
  using assms by (auto simp: scan_state_def bnode_inv_def bkeys_def)

context latch
begin

lemma scan_fixed_state:
  assumes "scan_state L a n Z t"
  shows "scan_fixed L a i todo stack out t =
    map_option (\<lambda>t. (out @ take todo (drop i (zip (bkeys n) (bvals n)) @ lpairs Z), t)) (unlatch_all L stack t)"
  using assms
proof (induction Z arbitrary: a n i todo stack out t)
  case Nil
  then have n: "bt_heap t a = Some n" "b_sibling n = None" and p: "pairs_from i n = drop i (zip (bkeys n) (bvals n))"
    by (auto simp: scan_state_def pairs_from_zip)
  show ?case unfolding p[symmetric] using n by (subst scan_fixed.simps) (auto simp: map_conv_bind_option comp_def Let_def)
next
  case (Cons x Z)
  obtain b m where x: "x = (b, m)" by fastforce
  note N = scan_state_next[OF Cons.prems[unfolded x]]
  have n: "bt_heap t a = Some n" and p: "pairs_from i n = drop i (zip (bkeys n) (bvals n))"
    using Cons.prems by (auto simp: scan_state_def pairs_from_zip)
  obtain l where l: "bl_latch_shared L b t = Some (bt_put b (m\<lparr>b_latch := l\<rparr>) t)"
    "bl_unlatch_shared L b (bt_put b (m\<lparr>b_latch := l\<rparr>) t) = Some t" using shared_section[OF N(2,3)] by blast
  have zip: "zip (bkeys (m\<lparr>b_latch := l\<rparr>)) (bvals (m\<lparr>b_latch := l\<rparr>)) = zip (bkeys m) (bvals m)" by (simp add: bkeys_def bvals_def)
  note IH = Cons.IH[OF N(4)[of l], unfolded zip]
  show ?case unfolding p[symmetric] using n N(1) l IH
    by (subst scan_fixed.simps) (auto simp: x map_conv_bind_option comp_def Let_def)
qed

lemma scan_range_state:
  assumes "scan_state L a n Z t"
  shows "scan_range L rk a i stack out t =
    map_option (\<lambda>t. (out @ takeWhile (\<lambda>(k, _). \<not> k \<ge> rk) (drop i (zip (bkeys n) (bvals n)) @ lpairs Z), t)) (unlatch_all L stack t)"
  using assms
proof (induction Z arbitrary: a n i stack out t)
  case Nil
  then have n: "bt_heap t a = Some n" "b_sibling n = None" and p: "pairs_from i n = drop i (zip (bkeys n) (bvals n))"
    by (auto simp: scan_state_def pairs_from_zip)
  show ?case unfolding p[symmetric] using n by (subst scan_range.simps) (auto simp: map_conv_bind_option comp_def Let_def)
next
  case (Cons x Z)
  let ?P = "\<lambda>(k, _). \<not> k \<ge> rk"
  obtain b m where x: "x = (b, m)" by fastforce
  note N = scan_state_next[OF Cons.prems[unfolded x]]
  have n: "bt_heap t a = Some n" and p: "pairs_from i n = drop i (zip (bkeys n) (bvals n))"
    using Cons.prems by (auto simp: scan_state_def pairs_from_zip)
  obtain l where l: "bl_latch_shared L b t = Some (bt_put b (m\<lparr>b_latch := l\<rparr>) t)"
    "bl_unlatch_shared L b (bt_put b (m\<lparr>b_latch := l\<rparr>) t) = Some t" using shared_section[OF N(2,3)] by blast
  have zip: "zip (bkeys (m\<lparr>b_latch := l\<rparr>)) (bvals (m\<lparr>b_latch := l\<rparr>)) = zip (bkeys m) (bvals m)" by (simp add: bkeys_def bvals_def)
  note IH = Cons.IH[OF N(4)[of l], unfolded zip]
  show ?case
  proof (cases "\<forall>y\<in>set (pairs_from i n). ?P y")
    case True
    then have tw: "takeWhile ?P (pairs_from i n) = pairs_from i n" by (simp add: takeWhile_eq_all_conv)
    have "takeWhile ?P (pairs_from i n @ ys) = pairs_from i n @ takeWhile ?P ys" for ys using True by (simp add: takeWhile_append2)
    then show ?thesis unfolding p[symmetric] using n N(1) l IH
      by (subst scan_range.simps) (simp add: x tw map_conv_bind_option comp_def Let_def)
  next
    case False
    then have "takeWhile ?P (pairs_from i n @ ys) = takeWhile ?P (pairs_from i n)" for ys by (metis takeWhile_append1)
    moreover have "takeWhile ?P (pairs_from i n) \<noteq> pairs_from i n" using False by (metis takeWhile_eq_all_conv)
    then have "length (takeWhile ?P (pairs_from i n)) < length (pairs_from i n)"
      by (metis length_takeWhile_le le_neq_implies_less takeWhile_eq_take take_all order_refl)
    ultimately show ?thesis unfolding p[symmetric] using n
      by (subst scan_range.simps) (simp add: map_conv_bind_option comp_def Let_def)
  qed
qed

lemma scan_start_spec:
  assumes ok: "bltree_ok L t ls nss" and P: "P = drop (rank k (lkeys ls)) (lpairs ls)"
  shows "P = [] \<and> scan_start L k t = Some (None, t) \<or>
    (\<exists>a n i Z t1. P \<noteq> [] \<and> scan_start L k t = Some (Some (a, i), t1) \<and> scan_state L a n Z t1 \<and>
       P = drop i (zip (bkeys n) (bvals n)) @ lpairs Z \<and> unlatch_all L [a] t1 = Some t)"
proof -
  have lv: "blevel L (bt_leaf_size t) True ls" and c: "bcells_ok t (concat (ls # nss))" using ok by (simp_all add: bltree_ok_def)
  obtain X a n Y where N: "ls = X @ (a, n) # Y" "rank k (lkeys ls) = length (lkeys X) + rank k (bkeys n)"
    "Y \<noteq> [] \<Longrightarrow> rank k (bkeys n) < length (bkeys n)" "a = map fst ls ! rank k (lbounds ls)" "bt_heap t a = Some n" "b_leaf n" "bnode_inv n"
    "\<not> beyond k n" "b_latch n = l_init L"
    by (rule leaf_node[OF ok, of k]) (rule that)
  obtain l where l: "bl_latch_shared L a t = Some (bt_put a (n\<lparr>b_latch := l\<rparr>) t)"
    "bl_unlatch_shared L a (bt_put a (n\<lparr>b_latch := l\<rparr>) t) = Some t" using shared_section[OF N(5,9)] by blast
  let ?n = "n\<lparr>b_latch := l\<rparr>" and ?i = "rank k (bkeys n)"
  let ?t = "bt_put a ?n t"
  have mv: "move_shared L k a ?t = Some (a, ?t)" using N(8) by (subst move_shared.simps) simp
  have k: "bkeys ?n = bkeys n" "bvals ?n = bvals n" "bnode_inv ?n" using N(7) by (simp_all add: bkeys_def bvals_def bnode_inv_def)
  have s: "NodeScan k ?n = ?i" using NodeScan_rank[OF k(3), of k] k(1) by simp
  have st: "scan_start L k t = (if ?i = b_cnt n then Some (None, t) else Some (Some (a, ?i), ?t))"
    using TraverseInner_leaf[OF ok N(5,6,4)] l mv s by (simp add: scan_start_def Let_def)
  have "map fst (lpairs X) = lkeys X" using blevel_leaves[OF lv] by (auto simp: N(1) intro: fst_lpairs)
  then have "length (lpairs X) = length (lkeys X)" by (metis length_map)
  then have "P = drop ?i (zip (bkeys n) (bvals n) @ lpairs Y)" unfolding P N(2) by (simp add: N(1))
  then have p: "P = drop ?i (zip (bkeys n) (bvals n)) @ lpairs Y"
    using rank_le[of k "bkeys n"] length_bkeys[OF N(7)] length_bvals[OF N(7,6)] by (simp del: rank_le)
  have len: "length (zip (bkeys n) (bvals n)) = b_cnt n" "length (bkeys n) = b_cnt n" using length_bkeys[OF N(7)] length_bvals[OF N(7,6)] by simp_all
  show ?thesis
  proof (cases "?i = b_cnt n")
    case True
    then have "Y = []" using N(3) len by auto
    then show ?thesis using True p st len by simp
  next
    case False
    then have "P \<noteq> []" using p len rank_le[of k "bkeys n"] by simp
    moreover have "distinct (map fst ls)" using c by (simp add: bcells_ok_def)
    moreover have "bt_heap t (fst x) = Some (snd x)" if "x \<in> set Y" for x using that by (intro bcells_get[OF c]) (auto simp: N(1))
    ultimately have "scan_state L a ?n Y ?t"
      using N(1,5,6) k(3) lv by (auto simp: scan_state_def blevel_def chain_append cell_ok_def)
    then show ?thesis using False p st l(2) \<open>P \<noteq> []\<close> k(1,2) by (intro disjI2 exI[of _ a] exI[of _ ?n] exI[of _ ?i] exI[of _ Y] exI[of _ ?t]) simp
  qed
qed

lemma ScanFixed_spec:
  assumes ok: "bltree_ok L t ls nss" and P: "P = drop (rank k (lkeys ls)) (lpairs ls)"
  shows "ScanFixed L k m t = Some (if P = [] then None else Some (take m P), t)"
  using scan_start_spec[OF ok P] by (auto simp: ScanFixed_def scan_fixed_state)

lemma ScanRange_spec:
  assumes ok: "bltree_ok L t ls nss" and P: "P = drop (rank k (lkeys ls)) (lpairs ls)"
  shows "ScanRange L k k' t = Some (if P = [] then None else Some (takeWhile (\<lambda>(x, _). \<not> x \<ge> k') P), t)"
  using scan_start_spec[OF ok P] by (auto simp: ScanRange_def scan_range_state)

text \<open>\<open>SearchUnsafe\<close> takes the same way without latches, and its assertion holds.\<close>

lemma SearchUnsafe_levels:
  assumes "blevels L sz nss addrs bnds" "bcells_ok t xs" "set (concat nss) \<subseteq> set xs"
  shows "SearchUnsafe_from k t (top_of nss addrs) = SearchUnsafe_from k t (addrs ! rank k bnds)"
  using assms
proof (induction nss arbitrary: addrs bnds)
  case Nil
  then show ?case by (cases addrs) auto
next
  case (Cons ns nss)
  obtain w n where N: "map fst ns ! rank k (lbounds ns) = w" "bt_heap t w = Some n" "\<not> b_leaf n" "bnode_inv n" "\<not> beyond k n"
    "bl_child (NodeScan k n) n = Some (addrs ! rank k bnds)"
    using level_node[OF Cons.prems, of k] by blast
  have "SearchUnsafe_from k t (top_of (ns # nss) addrs) = SearchUnsafe_from k t w"
    unfolding top_of_Cons[OF Cons.prems(1)] using Cons.IH[of "map fst ns" "lbounds ns"] Cons.prems N(1) by simp
  also have "\<dots> = SearchUnsafe_from k t (addrs ! rank k bnds)" using N by (subst SearchUnsafe_from.simps) simp
  finally show ?case .
qed

lemma SearchUnsafe_spec:
  assumes ok: "bltree_ok L t ls nss"
  shows "SearchUnsafe k t = Some (bl_map ls k)"
proof -
  have lv: "blevel L (bt_leaf_size t) True ls" using ok by (simp add: bltree_ok_def)
  obtain X a n Y where N: "ls = X @ (a, n) # Y" "a = map fst ls ! rank k (lbounds ls)" "bt_heap t a = Some n" "b_leaf n" "bnode_inv n"
    "\<not> beyond k n" "k \<in> set (lkeys ls) \<longleftrightarrow> k \<in> set (bkeys n)"
    using leaf_node[OF ok, of k] by metis
  have "SearchUnsafe k t = SearchUnsafe_from k t a"
    using SearchUnsafe_levels[of "bt_inner_size t" nss "map fst ls" "lbounds ls" t "concat (ls # nss)" k] ok N(2)
    unfolding SearchUnsafe_def bltree_root[OF ok] by (simp add: bltree_ok_def)
  also have "\<dots> = Some (bl_map ls k)"
    using N find_value_map(1)[OF N(5,4), of k] bl_map_at[OF lv N(1,7)] by (subst SearchUnsafe_from.simps) simp
  finally show ?thesis .
qed

end

section \<open>Destruction\<close>

text \<open>The tree after some nodes were freed: to read one of them again has no result.\<close>

definition freed :: "addr set \<Rightarrow> ('k, 'v, 'l) bltree \<Rightarrow> ('k, 'v, 'l) bltree" where
  "freed A t = t\<lparr>bt_heap := bt_heap t |` (- A)\<rparr>"

lemma freed_heap [simp]: "bt_heap (freed A t) a = (if a \<in> A then None else bt_heap t a)"
  by (simp add: freed_def restrict_map_def)

lemma freed_freed [simp]: "freed A (freed B t) = freed (A \<union> B) t"
  by (cases t) (auto simp: freed_def restrict_map_def intro!: ext)

lemma freed_one: "(freed B t)\<lparr>bt_heap := (bt_heap (freed B t))(a := None)\<rparr> = freed (insert a B) t"
  "t\<lparr>bt_heap := (bt_heap t)(a := None)\<rparr> = freed {a} t"
  by (cases t; auto simp: freed_def restrict_map_def intro!: ext)+

lemma freed_cells:
  "\<forall>x\<in>set Z. bt_heap t (fst x) = Some (snd x) \<Longrightarrow> fst ` set Z \<inter> A = {} \<Longrightarrow> \<forall>x\<in>set Z. bt_heap (freed A t) (fst x) = Some (snd x)"
  by auto

lemma freed_none [simp]: "freed {} t = t"
  by (cases t) (simp add: freed_def restrict_map_def)

lemma delete_right_chain:
  assumes "chain Z None" "distinct (map fst Z)" "\<forall>x\<in>set Z. bt_heap t (fst x) = Some (snd x)"
  shows "delete_right (if Z = [] then None else Some (fst (hd Z))) t = Some (freed (fst ` set Z) t)"
  using assms
proof (induction Z arbitrary: t)
  case Nil
  then show ?case by (subst delete_right.simps) simp
next
  case (Cons x Z)
  have "delete_right (b_sibling (snd x)) (freed {fst x} t) = Some (freed (fst ` set (x # Z)) t)"
    using Cons.IH[OF _ _ freed_cells[of Z t "{fst x}"]] Cons.prems by auto
  then show ?case using Cons.prems by (subst delete_right.simps) (simp add: freed_one)
qed

text \<open>One level: all its nodes are freed and the first child of the first node is next.\<close>

lemma delete_levels_step:
  assumes lv: "blevel L sz leaf ns" and d: "distinct (map fst ns)" "\<forall>x\<in>set ns. bt_heap t (fst x) = Some (snd x)"
    and kids: "\<not> leaf \<Longrightarrow> (\<forall>x\<in>set ns. bkeys (snd x) \<noteq> []) \<and> lkids ns = map Some addrs"
  shows "delete_levels (fst (hd ns)) t =
    (if leaf then Some (freed (fst ` set ns) t) else delete_levels (hd addrs) (freed (fst ` set ns) t))"
proof -
  obtain a n Z where ns: "ns = (a, n) # Z" using lv by (cases ns) (auto simp: blevel_def)
  have n: "bnode_inv n" "b_leaf n = leaf" "chain Z None" "b_sibling n = (if Z = [] then None else Some (fst (hd Z)))"
    using lv by (auto simp: blevel_def cell_ok_def ns)
  have del: "delete_right (b_sibling n) t = Some (freed (fst ` set Z) t)" using delete_right_chain[OF n(3)] d n(4) by (simp add: ns)
  have fr: "(freed (fst ` set Z) t)\<lparr>bt_heap := (bt_heap (freed (fst ` set Z) t))(a := None)\<rparr> = freed (fst ` set ns) t" by (simp add: freed_one ns)
  have "bl_child 0 n = Some (hd addrs)" if "\<not> leaf"
  proof -
    have K: "bkeys n \<noteq> []" "bkids n @ lkids Z = map Some addrs" using kids[OF that] by (simp_all add: ns)
    then have c: "0 < b_cnt n" using length_bkeys[OF n(1)] by (metis length_greater_0_conv)
    then have "bkids n \<noteq> []" using length_bkids[OF n(1)] n(2) that by (auto simp flip: length_greater_0_conv)
    then have "hd (map Some addrs) = bkids n ! 0" "addrs \<noteq> []" using K(2)[symmetric] by (auto simp: hd_conv_nth nth_append)
    then show ?thesis using c n(2) that by (simp add: bl_child_def bkids_def hd_map split: if_splits)
  qed
  then show ?thesis using d(2) n(2) del fr by (subst delete_levels.simps) (simp add: ns)
qed

lemma delete_levels_levels:
  assumes "blevels L sz nss addrs bnds" "distinct (map fst (concat nss))" "\<forall>x\<in>set (concat nss). bt_heap t (fst x) = Some (snd x)"
  shows "delete_levels (top_of nss addrs) t = delete_levels (hd addrs) (freed (fst ` set (concat nss)) t)"
  using assms
proof (induction nss arbitrary: addrs bnds)
  case (Cons ns nss)
  let ?t = "freed (fst ` set (concat nss)) t"
  have lv: "blevel L sz False ns" and "(\<forall>x\<in>set ns. bkeys (snd x) \<noteq> []) \<and> lkids ns = map Some addrs" using Cons.prems(1) by simp_all
  moreover have "\<forall>x\<in>set ns. bt_heap ?t (fst x) = Some (snd x)" using Cons.prems(2,3) by (intro freed_cells) auto
  ultimately have "delete_levels (fst (hd ns)) ?t = delete_levels (hd addrs) (freed (fst ` set ns) ?t)"
    using delete_levels_step[of L sz False ns ?t addrs] Cons.prems(2) by simp
  moreover have "delete_levels (top_of (ns # nss) addrs) t = delete_levels (fst (hd ns)) ?t"
    unfolding top_of_Cons[OF Cons.prems(1)] using Cons.IH[of "map fst ns" "lbounds ns"] Cons.prems lv by (simp add: blevel_def hd_map)
  ultimately show ?case by (simp add: image_Un)
qed simp

lemma bltree_destroy_spec:
  assumes ok: "bltree_ok L t ls nss"
  shows "\<exists>t'. bltree_destroy t = Some t' \<and> bt_heap t' = Map.empty"
proof -
  have c: "bcells_ok t (concat (ls # nss))" and lv: "blevel L (bt_leaf_size t) True ls" using ok by (simp_all add: bltree_ok_def)
  have d: "distinct (map fst (concat (ls # nss)))" and h: "\<forall>x\<in>set (concat (ls # nss)). bt_heap t (fst x) = Some (snd x)"
    using c bcells_get[OF c] by (auto simp: bcells_ok_def)
  let ?t = "freed (fst ` set (concat nss)) t"
  have "hd (map fst ls) = fst (hd ls)" using lv by (cases ls) (auto simp: blevel_def)
  then have "bltree_destroy t = delete_levels (fst (hd ls)) ?t"
    using delete_levels_levels[of L "bt_inner_size t" nss "map fst ls" "lbounds ls" t] ok d h
    unfolding bltree_destroy_def bltree_root[OF ok] by (simp add: bltree_ok_def)
  also have "\<dots> = Some (freed (fst ` set ls) ?t)"
    using delete_levels_step[OF lv _ freed_cells[of ls t "fst ` set (concat nss)"]] d h by auto
  finally have "bltree_destroy t = Some (freed (fst ` set (concat (ls # nss))) t)" by (simp add: image_Un)
  moreover have "bt_heap (freed (fst ` set (concat (ls # nss))) t) = Map.empty"
    using c by (intro ext) (simp add: bcells_ok_def map_of_eq_None_iff del: concat.simps)
  ultimately show ?thesis by blast
qed

end
