(* ===== verification/BLinkMap.thy ===== *)
theory BLinkMap
  imports BLinkInsert BLinkScan MapSpec
begin

text \<open>
  The B-link tree as a map. \<open>blink_rel\<close> relates a tree to the map that it holds; with it the
  operations satisfy the interface \<open>link_store\<close>, for both kinds of latches, and so every sequence of
  calls from a new tree returns and answers as the map does. The scans list the map in the order of
  its keys.
\<close>

definition blink_rel :: "'l latch_ops \<Rightarrow> ('k::linorder, 'v, 'l) bltree \<Rightarrow> ('k \<Rightarrow> 'v option) \<Rightarrow> bool" where
  "blink_rel L t m \<longleftrightarrow> (\<exists>ls nss. bltree_ok L t ls nss \<and> bl_map ls = m)"

definition blink_impl :: "'l latch_ops \<Rightarrow> (('k::{linorder,zero}, 'v::zero, 'l) bltree, 'k, 'v) link_impl" where
  "blink_impl L = \<lparr>i_search = Search L, i_insert = Insert L, i_update = Update L\<rparr>"

lemma blink_new:
  assumes "params_ok (bltree_new L isz lsz isp lsp :: ('k::{linorder,zero}, 'v::zero, 'l) bltree)"
  shows "blink_rel L (bltree_new L isz lsz isp lsp :: ('k, 'v, 'l) bltree) Map.empty"
  unfolding blink_rel_def by (intro exI conjI, rule bltree_new_ok(1)[OF assms], rule bltree_new_ok(2)[OF assms])

lemma blink_default: "blink_rel L (bltree_default L) Map.empty"
  unfolding bltree_default_def by (rule blink_new[OF bltree_default_params[unfolded bltree_default_def]])

lemma sorted_lpairs:
  assumes ok: "bltree_ok L t ls nss"
  shows "sorted_wrt (<) (map fst (lpairs ls))" "map fst (lpairs ls) = lkeys ls"
proof -
  have lv: "blevel L (bt_leaf_size t) True ls" using ok by (simp add: bltree_ok_def)
  then show "map fst (lpairs ls) = lkeys ls" using blevel_leaves[OF lv] by (intro fst_lpairs) simp
  then show "sorted_wrt (<) (map fst (lpairs ls))" using lv by (simp add: blevel_def)
qed

lemma lpairs_from:
  assumes ok: "bltree_ok L t ls nss"
  shows "drop (rank k (lkeys ls)) (lpairs ls) = filter (\<lambda>(x, _). k \<le> x) (lpairs ls)"
  using filter_zip_sorted[OF sorted_lpairs(1)[OF ok], of "map snd (lpairs ls)" k]
  unfolding zip_map_fst_snd sorted_lpairs(2)[OF ok, symmetric] by simp

context latch
begin

lemma blink_store: "link_store (blink_impl L :: (('k::{linorder,zero}, 'v::zero, 'l) bltree, 'k, 'v) link_impl) (blink_rel L)"
proof
  fix t :: "('k, 'v, 'l) bltree" and m k v
  assume "blink_rel L t m"
  then obtain ls nss where ok: "bltree_ok L t ls nss" and m: "bl_map ls = m" by (auto simp: blink_rel_def)
  show "i_search (blink_impl L) k t = Some (m k, t)" using Search_spec[OF ok] m by (simp add: blink_impl_def)
  show "\<exists>s'. i_insert (blink_impl L) k v t = Some (m k = None, s') \<and> blink_rel L s' (if m k = None then m(k \<mapsto> v) else m)"
    using Insert_spec[OF ok, of k v] m by (auto simp: blink_impl_def blink_rel_def domIff split: if_splits)
  show "\<exists>s'. i_update (blink_impl L) k v t = Some (m k \<noteq> None, s') \<and> blink_rel L s' (if m k = None then m else m(k \<mapsto> v))"
    using Update_spec[OF ok, of k v] m by (auto simp: blink_impl_def blink_rel_def domIff split: if_splits)
qed

lemma calls_from_new:
  fixes isz lsz :: nat
  assumes "params_ok (bltree_new L isz lsz isp lsp :: ('k::{linorder,zero}, 'v::zero, 'l) bltree)"
  shows "\<exists>t'. calls_impl (blink_impl L) cs (bltree_new L isz lsz isp lsp :: ('k, 'v, 'l) bltree) = Some (fst (calls_spec cs Map.empty), t') \<and>
    blink_rel L t' (snd (calls_spec cs Map.empty))"
  using link_store.calls_refine[OF blink_store blink_new[OF assms]] .

lemma scans_list:
  assumes "blink_rel L t m"
  shows "\<exists>ps. sorted_wrt (<) (map fst ps) \<and> map_of ps = m \<and> ScanLeaf t = Some ps \<and>
    (\<forall>k c. ScanFixed L k c t = Some (let P = filter (\<lambda>(x, _). k \<le> x) ps in if P = [] then None else Some (take c P), t)) \<and>
    (\<forall>k k'. ScanRange L k k' t =
       Some (let P = filter (\<lambda>(x, _). k \<le> x) ps in if P = [] then None else Some (filter (\<lambda>(x, _). x < k') P), t))"
proof -
  obtain ls nss where ok: "bltree_ok L t ls nss" and m: "bl_map ls = m" using assms by (auto simp: blink_rel_def)
  have s: "sorted_wrt (<) (map fst (filter (\<lambda>(x, _). k \<le> x) (lpairs ls)))" for k
    using sorted_lpairs(1)[OF ok] by (simp add: sorted_wrt_map sorted_wrt_filter)
  show ?thesis
    using sorted_lpairs(1)[OF ok] m ScanLeaf_spec[OF ok] ScanFixed_spec[OF ok refl] ScanRange_spec[OF ok refl]
    by (intro exI[of _ "lpairs ls"]) (simp add: bl_map_def lpairs_from[OF ok] takeWhile_sorted[OF s] Let_def)
qed

end

section \<open>The two kinds of latches\<close>

interpretation rspin_tree: link_store "blink_impl rspin_ops" "blink_rel rspin_ops"
  by (rule rspin.blink_store)

interpretation shm_tree: link_store "blink_impl shared_mutex_ops" "blink_rel shared_mutex_ops"
  by (rule shm.blink_store)

end
