(* ===== verification/EpochModel.thy ===== *)
theory EpochModel
  imports Prelude "HOL-Library.Monad_Syntax"
begin

text \<open>
  Epoch-based reclamation (\<open>src/util/epoch.h\<close>). A thread announces the global epoch while it is
  in an operation. Blocks that it retires go to bags that carry the epoch of the last block in
  them, and are freed when the global epoch is more than two increments ahead. The global epoch
  advances when a thread has seen every thread at the current epoch or quiescent.

  The linked bags are lists; the type-erased bags, which hold functions instead of pointers,
  have the same operations and are the second pair of fields. Freeing a block, or calling a
  function, is recorded in the result.
\<close>

unbundle bit_operations_syntax

section \<open>Configuration and epochs\<close>

definition kEpochIncrement :: u64 where "kEpochIncrement = 2"
definition kOpThreshold :: nat where "kOpThreshold = 10"
definition kBagSize :: nat where "kBagSize = 13"

definition is_quiescent :: "u64 \<Rightarrow> bool" where "is_quiescent epoch = (epoch AND 0x01 \<noteq> 0)"
definition with_quiescent :: "u64 \<Rightarrow> u64" where "with_quiescent epoch = (epoch OR 0x01)"
definition real_epoch :: "u64 \<Rightarrow> u64" where "real_epoch epoch = (epoch AND NOT 0x01)"

section \<open>Bags and limbo lists\<close>

text \<open>A bag: its epoch, its blocks (\<open>count\<close> of them) and how many of these were freed.\<close>

record 'b limbo_bag =
  bag_epoch :: u64
  bag_items :: "'b list"
  bag_freed :: nat

text \<open>The bags from \<open>retired_head_\<close> to \<open>retired_tail_\<close>, and the number of bags kept for reuse.\<close>

record ('p, 'f) limbo_list =
  free_token :: bool
  type_token :: bool
  opcount :: nat
  thread_epoch :: u64
  local_epoch :: u64
  retired :: "'p limbo_bag list"
  empty_bags :: nat
  type_retired :: "'f limbo_bag list"
  type_bags :: nat
  checked_it :: nat

definition limbo_new :: "('p, 'f) limbo_list" where
  "limbo_new = \<lparr>free_token = False, type_token = False, opcount = 0, thread_epoch = with_quiescent 0,
     local_epoch = with_quiescent 0, retired = [], empty_bags = 0, type_retired = [], type_bags = 0, checked_it = 0\<rparr>"

text \<open>
  \<open>add\<close>, for both kinds of bags: the block goes to the last bag, or to a new one if there is none
  or if it is full. The result has the bags and the number of bags kept.
\<close>

definition bags_add :: "u64 \<Rightarrow> 'b \<Rightarrow> 'b limbo_bag list \<Rightarrow> nat \<Rightarrow> 'b limbo_bag list \<times> nat" where
  "bags_add epoch p bags kept =
     (if bags = [] \<or> length (bag_items (last bags)) = kBagSize
      then (bags @ [\<lparr>bag_epoch = epoch, bag_items = [p], bag_freed = 0\<rparr>], kept - 1)
      else let limbo = last bags
           in (butlast bags @ [limbo\<lparr>bag_items := bag_items limbo @ [p], bag_epoch := epoch\<rparr>], kept))"

definition limbo_add :: "'p \<Rightarrow> ('p, 'f) limbo_list \<Rightarrow> ('p, 'f) limbo_list" where
  "limbo_add p l =
     (let (bags, kept) = bags_add (local_epoch l) p (retired l) (empty_bags l) in l\<lparr>retired := bags, empty_bags := kept\<rparr>)"

definition limbo_type_add :: "'f \<Rightarrow> ('p, 'f) limbo_list \<Rightarrow> ('p, 'f) limbo_list" where
  "limbo_type_add f l =
     (let (bags, kept) = bags_add (local_epoch l) f (type_retired l) (type_bags l)
      in l\<lparr>type_retired := bags, type_bags := kept\<rparr>)"

text \<open>
  \<open>free\<close>, for both kinds: at most \<open>nfree\<close> blocks of the first bag, which is not also the last one,
  if its epoch is old enough. The result has the token, the freed blocks, the bags and the
  number of bags kept.
\<close>

definition bags_free ::
  "u64 \<Rightarrow> nat \<Rightarrow> bool \<Rightarrow> 'b limbo_bag list \<Rightarrow> nat \<Rightarrow> bool \<times> 'b list \<times> 'b limbo_bag list \<times> nat" where
  "bags_free gepoch nfree token bags kept =
     (case bags of
        cur # rest \<Rightarrow>
          if token \<and> rest \<noteq> [] \<and> gepoch - bag_epoch cur > 2 * kEpochIncrement
          then let out = take nfree (drop (bag_freed cur) (bag_items cur));
                   cur = cur\<lparr>bag_freed := bag_freed cur + length out\<rparr>
               in if bag_freed cur \<ge> length (bag_items cur) then (token, out, rest, kept + 1) else (token, out, cur # rest, kept)
          else (False, [], bags, kept)
      | [] \<Rightarrow> (False, [], bags, kept))"

definition limbo_free :: "u64 \<Rightarrow> nat \<Rightarrow> ('p, 'f) limbo_list \<Rightarrow> 'p list \<times> ('p, 'f) limbo_list" where
  "limbo_free gepoch nfree l =
     (let (token, out, bags, kept) = bags_free gepoch nfree (free_token l) (retired l) (empty_bags l)
      in (out, l\<lparr>free_token := token, retired := bags, empty_bags := kept\<rparr>))"

definition limbo_type_free :: "u64 \<Rightarrow> nat \<Rightarrow> ('p, 'f) limbo_list \<Rightarrow> 'f list \<times> ('p, 'f) limbo_list" where
  "limbo_type_free gepoch nfree l =
     (let (token, out, bags, kept) = bags_free gepoch nfree (type_token l) (type_retired l) (type_bags l)
      in (out, l\<lparr>type_token := token, type_retired := bags, type_bags := kept\<rparr>))"

text \<open>The destructor frees what is left, in order.\<close>

definition limbo_destroy :: "('p, 'f) limbo_list \<Rightarrow> 'p list \<times> 'f list" where
  "limbo_destroy l =
     (concat (map (\<lambda>b. drop (bag_freed b) (bag_items b)) (retired l)),
      concat (map (\<lambda>b. drop (bag_freed b) (bag_items b)) (type_retired l)))"

section \<open>EpochDetail\<close>

record ('p, 'f) epoch_detail =
  gepoch :: u64
  limbo_lists :: "('p, 'f) limbo_list list"

definition epoch_new :: "('p, 'f) epoch_detail" where
  "epoch_new = \<lparr>gepoch = 0, limbo_lists = []\<rparr>"

text \<open>\<open>limbo_list\<close>: the list of thread \<open>i\<close>; a thread that asks for the first time gets a new one at the end.\<close>

definition with_limbo :: "nat \<Rightarrow> ('p, 'f) epoch_detail \<Rightarrow> ('p, 'f) epoch_detail" where
  "with_limbo i e = (if i < length (limbo_lists e) then e else e\<lparr>limbo_lists := limbo_lists e @ [limbo_new]\<rparr>)"

definition set_limbo :: "nat \<Rightarrow> ('p, 'f) limbo_list \<Rightarrow> ('p, 'f) epoch_detail \<Rightarrow> ('p, 'f) epoch_detail" where
  "set_limbo i l e = e\<lparr>limbo_lists := (limbo_lists e)[i := l]\<rparr>"

text \<open>\<open>startop\<close> in three parts: the load of the global epoch with the reclamation, the announcement and the scan.\<close>

definition startop_load :: "nat \<Rightarrow> nat \<Rightarrow> ('p, 'f) epoch_detail \<Rightarrow> ('p list \<times> 'f list) \<times> ('p, 'f) epoch_detail" where
  "startop_load i nfree e =
     (let e = with_limbo i e; l = limbo_lists e ! i; lepoch = local_epoch l;
          l = l\<lparr>local_epoch := gepoch e\<rparr>;
          l = (if gepoch e \<noteq> lepoch then l\<lparr>checked_it := 0, free_token := True, type_token := True\<rparr> else l);
          (out, l) = limbo_free (gepoch e) nfree l;
          (type_out, l) = limbo_type_free (gepoch e) nfree l
      in ((out, type_out), set_limbo i l e))"

definition startop_announce :: "nat \<Rightarrow> ('p, 'f) epoch_detail \<Rightarrow> ('p, 'f) epoch_detail" where
  "startop_announce i e = (let l = limbo_lists e ! i in set_limbo i (l\<lparr>thread_epoch := local_epoch l\<rparr>) e)"

definition startop_scan :: "nat \<Rightarrow> ('p, 'f) epoch_detail \<Rightarrow> ('p, 'f) epoch_detail" where
  "startop_scan i e =
     (let l = limbo_lists e ! i; epoch = local_epoch l; l = l\<lparr>opcount := opcount l + 1\<rparr>
      in if opcount l = kOpThreshold
         then let l = l\<lparr>opcount := 0\<rparr>
              in if checked_it l = length (limbo_lists e) then set_limbo i l e
                 else let tepoch = thread_epoch (limbo_lists e ! checked_it l)
                      in if real_epoch tepoch = epoch \<or> is_quiescent tepoch
                         then let l = l\<lparr>checked_it := checked_it l + 1\<rparr>; e = set_limbo i l e
                              in if checked_it l = length (limbo_lists e) \<and> gepoch e = epoch
                                 then e\<lparr>gepoch := epoch + kEpochIncrement\<rparr>
                                 else e
                         else set_limbo i l e
         else set_limbo i l e)"

definition startop :: "nat \<Rightarrow> nat \<Rightarrow> ('p, 'f) epoch_detail \<Rightarrow> ('p list \<times> 'f list) \<times> ('p, 'f) epoch_detail" where
  "startop i nfree e = (let (out, e) = startop_load i nfree e in (out, startop_scan i (startop_announce i e)))"

definition epoch_retire :: "nat \<Rightarrow> 'p option \<Rightarrow> ('p, 'f) epoch_detail \<Rightarrow> ('p, 'f) epoch_detail" where
  "epoch_retire i p e =
     (let e = with_limbo i e
      in case p of None \<Rightarrow> e | Some p \<Rightarrow> set_limbo i (limbo_add p (limbo_lists e ! i)) e)"

definition epoch_type_retire :: "nat \<Rightarrow> 'f \<Rightarrow> ('p, 'f) epoch_detail \<Rightarrow> ('p, 'f) epoch_detail" where
  "epoch_type_retire i f e = (let e = with_limbo i e in set_limbo i (limbo_type_add f (limbo_lists e ! i)) e)"

definition guarded :: "nat \<Rightarrow> ('p, 'f) epoch_detail \<Rightarrow> bool" where
  "guarded i e = (\<not> is_quiescent (thread_epoch (limbo_lists (with_limbo i e) ! i)))"

definition endop :: "nat \<Rightarrow> ('p, 'f) epoch_detail \<Rightarrow> ('p, 'f) epoch_detail" where
  "endop i e =
     (let e = with_limbo i e; l = limbo_lists e ! i
      in set_limbo i (l\<lparr>thread_epoch := with_quiescent (local_epoch l)\<rparr>) e)"

definition epoch_clear :: "('p, 'f) epoch_detail \<Rightarrow> ('p list \<times> 'f list) \<times> ('p, 'f) epoch_detail" where
  "epoch_clear e =
     ((concat (map (fst \<circ> limbo_destroy) (limbo_lists e)), concat (map (snd \<circ> limbo_destroy) (limbo_lists e))),
      e\<lparr>gepoch := 0, limbo_lists := []\<rparr>)"

text \<open>\<open>EpochGuard\<close>: an operation between \<open>startop\<close> and \<open>endop\<close>.\<close>

definition epoch_guard ::
  "nat \<Rightarrow> nat \<Rightarrow> (('p, 'f) epoch_detail \<Rightarrow> ('p, 'f) epoch_detail) \<Rightarrow> ('p, 'f) epoch_detail \<Rightarrow>
   ('p list \<times> 'f list) \<times> ('p, 'f) epoch_detail" where
  "epoch_guard i nfree body e = (let (out, e) = startop i nfree e in (out, endop i (body e)))"

end
