(* ===== verification/EpochQueue.thy ===== *)
theory EpochQueue
  imports EpochModel
begin

text \<open>
  The bags of a limbo list are a queue: what was retired is freed in the order in which it was
  retired, nothing twice and nothing else. The locale states this contract for any pair of
  operations; the pointers and the functions of a limbo list are two instances.
\<close>

datatype 'x fifo_op = Add 'x | Free u64 nat

fun fifo_run ::
  "('x \<Rightarrow> 's \<Rightarrow> 's) \<Rightarrow> (u64 \<Rightarrow> nat \<Rightarrow> 's \<Rightarrow> 'x list \<times> 's) \<Rightarrow> 'x fifo_op list \<Rightarrow> 's \<Rightarrow> 'x list \<times> 's" where
  "fifo_run add free [] s = ([], s)"
| "fifo_run add free (Add x # ops) s = fifo_run add free ops (add x s)"
| "fifo_run add free (Free g n # ops) s =
     (let (out, s) = free g n s; (outs, s) = fifo_run add free ops s in (out @ outs, s))"

fun added :: "'x fifo_op list \<Rightarrow> 'x list" where
  "added [] = []"
| "added (Add x # ops) = x # added ops"
| "added (Free g n # ops) = added ops"

locale fifo =
  fixes add :: "'x \<Rightarrow> 's \<Rightarrow> 's" and free :: "u64 \<Rightarrow> nat \<Rightarrow> 's \<Rightarrow> 'x list \<times> 's"
    and content :: "'s \<Rightarrow> 'x list" and inv :: "'s \<Rightarrow> bool"
  assumes add_law: "inv s \<Longrightarrow> inv (add x s) \<and> content (add x s) = content s @ [x]"
    and free_law: "inv s \<Longrightarrow> free g n s = (out, s') \<Longrightarrow> inv s' \<and> content s = out @ content s' \<and> length out \<le> n"
begin

lemma run_fifo:
  "inv s \<Longrightarrow> fifo_run add free ops s = (out, s') \<Longrightarrow> inv s' \<and> out @ content s' = content s @ added ops"
proof (induction ops arbitrary: s out)
  case (Cons op ops)
  show ?case
  proof (cases op)
    case (Add x)
    then show ?thesis using Cons.IH[of "add x s" out] Cons.prems add_law[of s x] by simp
  next
    case (Free g n)
    obtain o1 s1 where f: "free g n s = (o1, s1)" by fastforce
    obtain o2 where r: "fifo_run add free ops s1 = (o2, s')" "out = o1 @ o2" using Cons.prems Free f by (auto split: prod.splits)
    then show ?thesis using free_law[OF Cons.prems(1) f] Cons.IH[of s1 o2] Free by auto
  qed
qed simp

end

section \<open>The bags of a limbo list\<close>

definition bags_queue :: "'b limbo_bag list \<Rightarrow> 'b list" where
  "bags_queue bags = concat (map (\<lambda>b. drop (bag_freed b) (bag_items b)) bags)"

definition bag_ok :: "'b limbo_bag \<Rightarrow> bool" where
  "bag_ok b \<longleftrightarrow> bag_freed b \<le> length (bag_items b) \<and> length (bag_items b) \<le> kBagSize"

lemma bags_add_queue:
  assumes "list_all bag_ok bags" "bags_add epoch p bags kept = (bags', kept')"
  shows "list_all bag_ok bags' \<and> bags_queue bags' = bags_queue bags @ [p]"
proof (cases "bags = [] \<or> length (bag_items (last bags)) = kBagSize")
  case True
  then show ?thesis using assms by (auto simp: bags_add_def bags_queue_def bag_ok_def kBagSize_def)
next
  case False
  obtain bs b where bs: "bags = bs @ [b]" using False by (cases bags rule: rev_cases) auto
  then show ?thesis using assms False by (auto simp: bags_add_def bags_queue_def bag_ok_def Let_def)
qed

lemma bags_free_queue:
  assumes "list_all bag_ok bags" "bags_free g n token bags kept = (token', out, bags', kept')"
  shows "list_all bag_ok bags' \<and> bags_queue bags = out @ bags_queue bags' \<and> length out \<le> n"
proof (cases bags)
  case (Cons cur rest)
  let ?q = "drop (bag_freed cur) (bag_items cur)"
  have q: "take n ?q @ drop (bag_freed cur + length (take n ?q)) (bag_items cur) = ?q"
    by (cases "n \<le> length ?q") (simp_all add: min_def add.commute[of "bag_freed cur"] flip: drop_drop)
  show ?thesis using assms Cons q
    by (auto simp: bags_free_def bags_queue_def bag_ok_def Let_def split: if_splits)
qed (use assms in \<open>auto simp: bags_free_def bags_queue_def\<close>)

interpretation blocks: fifo limbo_add limbo_free "\<lambda>l. bags_queue (retired l)" "\<lambda>l. list_all bag_ok (retired l)"
proof unfold_locales
  fix l :: "('p, 'f) limbo_list" and x
  assume ok: "list_all bag_ok (retired l)"
  show "list_all bag_ok (retired (limbo_add x l)) \<and> bags_queue (retired (limbo_add x l)) = bags_queue (retired l) @ [x]"
    using bags_add_queue[OF ok] by (auto simp: limbo_add_def split: prod.splits)
  fix g n out l'
  assume "limbo_free g n l = (out, l')"
  then show "list_all bag_ok (retired l') \<and> bags_queue (retired l) = out @ bags_queue (retired l') \<and> length out \<le> n"
    using bags_free_queue[OF ok] by (auto simp: limbo_free_def split: prod.splits)
qed

interpretation funs: fifo limbo_type_add limbo_type_free "\<lambda>l. bags_queue (type_retired l)" "\<lambda>l. list_all bag_ok (type_retired l)"
proof unfold_locales
  fix l :: "('p, 'f) limbo_list" and x
  assume ok: "list_all bag_ok (type_retired l)"
  show "list_all bag_ok (type_retired (limbo_type_add x l)) \<and>
      bags_queue (type_retired (limbo_type_add x l)) = bags_queue (type_retired l) @ [x]"
    using bags_add_queue[OF ok] by (auto simp: limbo_type_add_def split: prod.splits)
  fix g n out l'
  assume "limbo_type_free g n l = (out, l')"
  then show "list_all bag_ok (type_retired l') \<and> bags_queue (type_retired l) = out @ bags_queue (type_retired l') \<and> length out \<le> n"
    using bags_free_queue[OF ok] by (auto simp: limbo_type_free_def split: prod.splits)
qed

text \<open>The destructor frees exactly what is left.\<close>

lemma limbo_destroy_queue: "limbo_destroy l = (bags_queue (retired l), bags_queue (type_retired l))"
  by (simp add: limbo_destroy_def bags_queue_def)

end
