(* ===== verification/EpochSafety.thy ===== *)
theory EpochSafety
  imports EpochModel
begin

text \<open>
  What epoch-based reclamation is for: no block is freed while an operation may still refer to
  it. An operation may refer to a block that was retired after the operation began. Operations
  of threads interleave at the granularity of \<open>startop\<close>, \<open>retire\<close> and \<open>endop\<close>.
\<close>

section \<open>Threads and references\<close>

text \<open>Blocks and functions that wait in the bags, with the epoch of their bag.\<close>

definition bags_pending :: "'b limbo_bag list \<Rightarrow> (u64 \<times> 'b) set" where
  "bags_pending bags = (\<Union>b\<in>set bags. Pair (bag_epoch b) ` set (drop (bag_freed b) (bag_items b)))"

definition pending :: "('p, 'f) limbo_list \<Rightarrow> (u64 \<times> ('p + 'f)) set" where
  "pending l = apsnd Inl ` bags_pending (retired l) \<union> apsnd Inr ` bags_pending (type_retired l)"

definition in_limbo :: "('p + 'f) \<Rightarrow> ('p, 'f) epoch_detail \<Rightarrow> bool" where
  "in_limbo x e \<longleftrightarrow> (\<exists>l\<in>set (limbo_lists e). x \<in> snd ` pending l)"

definition active :: "('p, 'f) epoch_detail \<Rightarrow> nat \<Rightarrow> bool" where
  "active e i \<longleftrightarrow> i < length (limbo_lists e) \<and> guarded i e"

text \<open>The blocks that each thread may refer to although they are retired.\<close>

type_synonym ('p, 'f) holds = "nat \<Rightarrow> ('p + 'f) set"

definition hold :: "('p + 'f) \<Rightarrow> ('p, 'f) epoch_detail \<Rightarrow> ('p, 'f) holds \<Rightarrow> ('p, 'f) holds" where
  "hold x e h = (\<lambda>k. if active e k then insert x (h k) else h k)"

text \<open>A step, with what it frees. A block is retired by a thread in an operation, and not twice.\<close>

inductive epoch_step ::
  "('p, 'f) epoch_detail \<times> ('p, 'f) holds \<Rightarrow> ('p + 'f) set \<Rightarrow> ('p, 'f) epoch_detail \<times> ('p, 'f) holds \<Rightarrow> bool" where
  start: "i \<le> length (limbo_lists e) \<Longrightarrow> \<not> active e i \<Longrightarrow> startop i nfree e = ((out, type_out), e') \<Longrightarrow>
    epoch_step (e, h) (Inl ` set out \<union> Inr ` set type_out) (e', h)"
| retire: "active e i \<Longrightarrow> \<not> in_limbo (Inl p) e \<Longrightarrow> epoch_step (e, h) {} (epoch_retire i (Some p) e, hold (Inl p) e h)"
| type_retire: "active e i \<Longrightarrow> \<not> in_limbo (Inr f) e \<Longrightarrow> epoch_step (e, h) {} (epoch_type_retire i f e, hold (Inr f) e h)"
| finish: "active e i \<Longrightarrow> epoch_step (e, h) {} (endop i e, h(i := {}))"

inductive_cases epoch_stepE: "epoch_step (e, h) out st"

inductive epoch_reach :: "nat \<Rightarrow> ('p, 'f) epoch_detail \<times> ('p, 'f) holds \<Rightarrow> bool" where
  init: "epoch_reach 0 (epoch_new, \<lambda>_. {})"
| step: "epoch_reach n st \<Longrightarrow> epoch_step st out st' \<Longrightarrow> epoch_reach (Suc n) st'"

section \<open>Bags\<close>

lemma bags_pending_Cons:
  "bags_pending (b # bags) = Pair (bag_epoch b) ` set (drop (bag_freed b) (bag_items b)) \<union> bags_pending bags"
  "bags_pending (bags @ bags') = bags_pending bags \<union> bags_pending bags'" "bags_pending [] = {}"
  by (auto simp: bags_pending_def)

text \<open>An insertion may give the last bag a new epoch.\<close>

definition aged :: "u64 \<Rightarrow> (u64 \<times> 'b) set \<Rightarrow> (u64 \<times> 'b) set" where
  "aged epoch P = P \<union> Pair epoch ` snd ` P"

lemma bags_pending_add:
  "bags_pending (fst (bags_add epoch p bags kept)) \<subseteq> insert (epoch, p) (aged epoch (bags_pending bags))"
proof (cases "bags = [] \<or> length (bag_items (last bags)) = kBagSize")
  case True
  then show ?thesis by (auto simp: bags_add_def bags_pending_Cons aged_def)
next
  case False
  let ?l = "last bags"
  have "bags_pending bags = bags_pending (butlast bags @ [?l])" using False by simp
  also have "\<dots> = bags_pending (butlast bags) \<union> Pair (bag_epoch ?l) ` set (drop (bag_freed ?l) (bag_items ?l))"
    by (simp only: bags_pending_Cons) simp
  finally have old: "bags_pending bags = bags_pending (butlast bags) \<union> Pair (bag_epoch ?l) ` set (drop (bag_freed ?l) (bag_items ?l))" .
  have "set (drop (bag_freed ?l) (bag_items ?l @ [p])) \<subseteq> insert p (set (drop (bag_freed ?l) (bag_items ?l)))"
    by (auto simp: drop_Cons' split: if_splits)
  then have "bags_pending (fst (bags_add epoch p bags kept)) \<subseteq>
      bags_pending (butlast bags) \<union> Pair epoch ` insert p (set (drop (bag_freed ?l) (bag_items ?l)))"
    using False by (auto simp: bags_add_def bags_pending_Cons Let_def)
  then show ?thesis unfolding old aged_def by (auto simp: image_Un image_image)
qed

lemma bags_pending_free:
  assumes "bags_free g nfree token bags kept = (token', out, bags', kept')"
  shows "bags_pending bags' \<subseteq> bags_pending bags \<and> (\<forall>x\<in>set out. \<exists>b. (b, x) \<in> bags_pending bags \<and> g - b > 4)"
proof -
  consider "out = []" "bags' = bags"
    | cur rest where "bags = cur # rest" "g - bag_epoch cur > 4" "out = take nfree (drop (bag_freed cur) (bag_items cur))"
        "bags' = rest \<or> bags' = cur\<lparr>bag_freed := bag_freed cur + length out\<rparr> # rest"
    using assms by (auto simp: bags_free_def kEpochIncrement_def Let_def split: list.splits if_splits)
  then show ?thesis
  proof cases
    case (2 cur rest)
    have "set (drop (bag_freed cur + length out) (bag_items cur)) \<subseteq> set (drop (bag_freed cur) (bag_items cur))"
      by (rule set_drop_subset_set_drop) simp
    then have "Pair (bag_epoch cur) ` set (drop (bag_freed cur + length out) (bag_items cur)) \<subseteq> bags_pending bags"
      unfolding 2(1) bags_pending_Cons by blast
    then have "bags_pending bags' \<subseteq> bags_pending bags" using 2(1,4) by (elim disjE) (simp_all add: bags_pending_Cons)
    moreover have "\<exists>b. (b, x) \<in> bags_pending bags \<and> g - b > 4" if "x \<in> set out" for x
      using that 2(1-3) by (auto simp: bags_pending_Cons intro!: exI[of _ "bag_epoch cur"] dest: in_set_takeD)
    ultimately show ?thesis by blast
  qed simp
qed

lemma aged_image: "aged epoch (apsnd f ` P) = apsnd f ` aged epoch P"
  by (auto simp: aged_def image_Un image_image)

lemma aged_Un: "aged epoch (P \<union> Q) = aged epoch P \<union> aged epoch Q" "P \<subseteq> aged epoch P"
  by (auto simp: aged_def)

lemma insert_Un_mono:
  "A \<subseteq> insert x P \<Longrightarrow> B \<subseteq> Q \<Longrightarrow> A \<union> B \<subseteq> insert x (P \<union> Q)" "A \<subseteq> insert x P \<Longrightarrow> B \<subseteq> Q \<Longrightarrow> B \<union> A \<subseteq> insert x (Q \<union> P)"
  by blast+

lemma pending_add:
  "pending (limbo_add p l) \<subseteq> insert (local_epoch l, Inl p) (aged (local_epoch l) (pending l))"
  "pending (limbo_type_add f l) \<subseteq> insert (local_epoch l, Inr f) (aged (local_epoch l) (pending l))"
proof -
  let ?e = "local_epoch l"
  have m: "apsnd g ` P \<subseteq> apsnd g ` aged ?e P" for g :: "'x \<Rightarrow> 'y" and P by (rule image_mono) (rule aged_Un(2))
  have a: "apsnd Inl ` bags_pending (fst (bags_add ?e p (retired l) (empty_bags l))) \<subseteq>
      insert (?e, Inl p) (apsnd Inl ` aged ?e (bags_pending (retired l)))" using bags_pending_add by (metis apsnd_conv image_insert image_mono)
  have "pending (limbo_add p l) = apsnd Inl ` bags_pending (fst (bags_add ?e p (retired l) (empty_bags l))) \<union>
      apsnd Inr ` bags_pending (type_retired l)" by (simp add: pending_def limbo_add_def split: prod.splits)
  then show "pending (limbo_add p l) \<subseteq> insert (?e, Inl p) (aged ?e (pending l))"
    using insert_Un_mono(1)[OF a m] by (simp only: pending_def[of l] aged_Un aged_image)
  have b: "apsnd Inr ` bags_pending (fst (bags_add ?e f (type_retired l) (type_bags l))) \<subseteq>
      insert (?e, Inr f) (apsnd Inr ` aged ?e (bags_pending (type_retired l)))" using bags_pending_add by (metis apsnd_conv image_insert image_mono)
  have "pending (limbo_type_add f l) = apsnd Inl ` bags_pending (retired l) \<union>
      apsnd Inr ` bags_pending (fst (bags_add ?e f (type_retired l) (type_bags l)))"
    by (simp add: pending_def limbo_type_add_def split: prod.splits)
  then show "pending (limbo_type_add f l) \<subseteq> insert (?e, Inr f) (aged ?e (pending l))"
    using insert_Un_mono(2)[OF b m] by (simp only: pending_def[of l] aged_Un aged_image)
qed

lemma limbo_free_facts:
  assumes "limbo_free g nfree l = (out, l')"
  shows "pending l' \<subseteq> pending l" "\<forall>x\<in>set out. \<exists>b. (b, Inl x) \<in> pending l \<and> g - b > 4"
    "thread_epoch l' = thread_epoch l" "local_epoch l' = local_epoch l" "checked_it l' = checked_it l" "type_retired l' = type_retired l"
proof -
  obtain token bags kept where f: "bags_free g nfree (free_token l) (retired l) (empty_bags l) = (token, out, bags, kept)"
    "l' = l\<lparr>free_token := token, retired := bags, empty_bags := kept\<rparr>"
    using assms by (auto simp: limbo_free_def split: prod.splits)
  note B = bags_pending_free[OF f(1)]
  show "pending l' \<subseteq> pending l" using B f(2) by (auto simp: pending_def)
  show "\<forall>x\<in>set out. \<exists>b. (b, Inl x) \<in> pending l \<and> g - b > 4"
  proof
    fix x assume "x \<in> set out"
    then obtain b where b: "(b, x) \<in> bags_pending (retired l)" "g - b > 4" using B by blast
    then have "(b, Inl x) \<in> pending l" unfolding pending_def by (metis UnI1 apsnd_conv image_eqI)
    then show "\<exists>b. (b, Inl x) \<in> pending l \<and> g - b > 4" using b(2) by blast
  qed
qed (use assms in \<open>auto simp: limbo_free_def split: prod.splits\<close>)

lemma limbo_type_free_facts:
  assumes "limbo_type_free g nfree l = (out, l')"
  shows "pending l' \<subseteq> pending l" "\<forall>x\<in>set out. \<exists>b. (b, Inr x) \<in> pending l \<and> g - b > 4"
    "thread_epoch l' = thread_epoch l" "local_epoch l' = local_epoch l" "checked_it l' = checked_it l" "retired l' = retired l"
proof -
  obtain token bags kept where f: "bags_free g nfree (type_token l) (type_retired l) (type_bags l) = (token, out, bags, kept)"
    "l' = l\<lparr>type_token := token, type_retired := bags, type_bags := kept\<rparr>"
    using assms by (auto simp: limbo_type_free_def split: prod.splits)
  note B = bags_pending_free[OF f(1)]
  show "pending l' \<subseteq> pending l" using B f(2) by (auto simp: pending_def)
  show "\<forall>x\<in>set out. \<exists>b. (b, Inr x) \<in> pending l \<and> g - b > 4"
  proof
    fix x assume "x \<in> set out"
    then obtain b where b: "(b, x) \<in> bags_pending (type_retired l)" "g - b > 4" using B by blast
    then have "(b, Inr x) \<in> pending l" unfolding pending_def by (metis UnI2 apsnd_conv image_eqI)
    then show "\<exists>b. (b, Inr x) \<in> pending l \<and> g - b > 4" using b(2) by blast
  qed
qed (use assms in \<open>auto simp: limbo_type_free_def split: prod.splits\<close>)

section \<open>The invariant\<close>

abbreviation tepoch :: "('p, 'f) epoch_detail \<Rightarrow> nat \<Rightarrow> u64" where
  "tepoch e i \<equiv> thread_epoch (limbo_lists e ! i)"

text \<open>
  A thread in an operation is at most one increment behind; a thread that has not yet seen a new
  epoch finds every thread before its position of the scan at the current epoch or quiescent;
  what a thread may refer to is in bags at most two increments behind, or one if the thread is at
  the current epoch.
\<close>

definition limbo_ok :: "('p, 'f) epoch_detail \<Rightarrow> nat \<Rightarrow> bool" where
  "limbo_ok e i \<longleftrightarrow> (let l = limbo_lists e ! i in
     (local_epoch l = 1 \<or> \<not> is_quiescent (local_epoch l) \<and> local_epoch l \<le> gepoch e) \<and>
     (\<not> is_quiescent (thread_epoch l) \<longrightarrow> thread_epoch l = local_epoch l \<and> (gepoch e = thread_epoch l \<or> gepoch e = thread_epoch l + 2)) \<and>
     checked_it l \<le> length (limbo_lists e) \<and>
     (local_epoch l = gepoch e \<longrightarrow> (\<forall>k<checked_it l. is_quiescent (tepoch e k) \<or> tepoch e k = gepoch e)))"

definition lag :: "u64 \<Rightarrow> u64 \<Rightarrow> u64 \<Rightarrow> bool" where
  "lag g te b \<longleftrightarrow> g - b \<in> {0, 2, 4} \<and> (g = te \<longrightarrow> g - b \<in> {0, 2})"

definition waiting :: "('p, 'f) epoch_detail \<Rightarrow> (u64 \<times> ('p + 'f)) set" where
  "waiting e = (\<Union>l\<in>set (limbo_lists e). pending l)"

definition held_ok :: "('p, 'f) epoch_detail \<Rightarrow> ('p, 'f) holds \<Rightarrow> bool" where
  "held_ok e h \<longleftrightarrow> (\<forall>i. h i \<noteq> {} \<longrightarrow> active e i) \<and>
     (\<forall>i b x. (b, x) \<in> waiting e \<longrightarrow> x \<in> h i \<longrightarrow> lag (gepoch e) (tepoch e i) b)"

definition epoch_inv :: "nat \<Rightarrow> ('p, 'f) epoch_detail \<times> ('p, 'f) holds \<Rightarrow> bool" where
  "epoch_inv n = (\<lambda>(e, h). unat (gepoch e) \<le> 2 * n \<and> \<not> is_quiescent (gepoch e) \<and>
     (\<forall>i<length (limbo_lists e). limbo_ok e i) \<and> held_ok e h)"

lemma quiescent_bit: "is_quiescent w \<longleftrightarrow> bit w 0"
  by (simp add: is_quiescent_def and_one_eq bit_0 odd_iff_mod_2_eq_one)

lemma quiescent_simps [simp]:
  "is_quiescent 1" "is_quiescent (with_quiescent w)" "\<not> is_quiescent g \<Longrightarrow> \<not> is_quiescent (g + 2)"
  unfolding quiescent_bit with_quiescent_def by (simp_all add: bit_or_iff) (simp add: bit_0)

lemma limbo_new_simps [simp]:
  "thread_epoch limbo_new = 1" "local_epoch limbo_new = 1" "checked_it limbo_new = 0" "pending limbo_new = {}"
  by (simp_all add: limbo_new_def with_quiescent_def pending_def bags_pending_def)

lemma real_epoch_even: "\<not> is_quiescent w \<Longrightarrow> real_epoch w = w"
  unfolding quiescent_bit real_epoch_def
  by (rule bit_word_eqI) (auto simp: bit_and_iff bit_not_iff bit_1_iff intro: gr0I)

lemma set_limbo_simps [simp]:
  "gepoch (set_limbo i l e) = gepoch e" "length (limbo_lists (set_limbo i l e)) = length (limbo_lists e)"
  "i < length (limbo_lists e) \<Longrightarrow> limbo_lists (set_limbo i l e) ! k = (if k = i then l else limbo_lists e ! k)"
  by (simp_all add: set_limbo_def nth_list_update)

lemma active_iff: "active e i \<longleftrightarrow> i < length (limbo_lists e) \<and> \<not> is_quiescent (tepoch e i)"
  by (auto simp: active_def guarded_def with_limbo_def)

lemma with_limbo_inv:
  assumes "epoch_inv n (e, h)"
  shows "epoch_inv n (with_limbo i e, h)"
proof (cases "i < length (limbo_lists e)")
  case False
  let ?e = "e\<lparr>limbo_lists := limbo_lists e @ [limbo_new]\<rparr>"
  have nth: "limbo_lists ?e ! k = (if k < length (limbo_lists e) then limbo_lists e ! k else limbo_new)" if "k < length (limbo_lists ?e)" for k
    using that by (auto simp: nth_append less_Suc_eq)
  have "limbo_ok ?e k" if k: "k < length (limbo_lists ?e)" for k
  proof (cases "k < length (limbo_lists e)")
    case True
    then have "limbo_ok e k" using assms by (simp add: epoch_inv_def)
    then show ?thesis using True by (auto simp: limbo_ok_def Let_def nth_append)
  next
    case F: False
    then have "limbo_lists ?e ! k = limbo_new" using nth[OF k] by simp
    moreover have "gepoch e \<noteq> 1" using assms by (auto simp: epoch_inv_def)
    ultimately show ?thesis by (auto simp: limbo_ok_def Let_def)
  qed
  moreover have act: "active ?e k \<longleftrightarrow> active e k" for k
    using nth[of k] by (cases "k < length (limbo_lists e)") (auto simp: active_iff)
  have w: "waiting ?e = waiting e" by (simp add: waiting_def)
  have te: "tepoch ?e k = tepoch e k" if "h k \<noteq> {}" for k
    using that assms by (auto simp: epoch_inv_def held_ok_def active_iff nth_append)
  have "held_ok ?e h"
    unfolding held_ok_def w act
  proof (intro conjI allI impI)
    fix k b x assume "(b, x) \<in> waiting e" "x \<in> h k"
    moreover from this have "tepoch ?e k = tepoch e k" by (intro te) auto
    ultimately show "lag (gepoch ?e) (tepoch ?e k) b" using assms by (simp add: epoch_inv_def held_ok_def)
  qed (use assms in \<open>simp add: epoch_inv_def held_ok_def\<close>)
  ultimately show ?thesis using assms False by (simp add: epoch_inv_def with_limbo_def)
qed (use assms in \<open>simp add: with_limbo_def\<close>)

text \<open>The change of one limbo list.\<close>

lemma limbo_ok_set:
  assumes inv: "\<forall>k<length (limbo_lists e). limbo_ok e k" and i: "i < length (limbo_lists e)"
    and te: "thread_epoch l = tepoch e i \<or> is_quiescent (thread_epoch l) \<or> thread_epoch l = gepoch e"
    and loc: "local_epoch l = 1 \<or> \<not> is_quiescent (local_epoch l) \<and> local_epoch l \<le> gepoch e"
    and act: "\<not> is_quiescent (thread_epoch l) \<Longrightarrow> thread_epoch l = local_epoch l \<and> (gepoch e = thread_epoch l \<or> gepoch e = thread_epoch l + 2)"
    and chk: "checked_it l \<le> length (limbo_lists e)"
      "local_epoch l = gepoch e \<Longrightarrow> \<forall>k<checked_it l. is_quiescent (tepoch e k) \<or> tepoch e k = gepoch e"
  shows "\<forall>k<length (limbo_lists (set_limbo i l e)). limbo_ok (set_limbo i l e) k"
proof (intro allI impI)
  fix k assume "k < length (limbo_lists (set_limbo i l e))"
  then have k: "k < length (limbo_lists e)" "limbo_ok e k" using inv by simp_all
  have te': "is_quiescent (tepoch (set_limbo i l e) j) \<or> tepoch (set_limbo i l e) j = gepoch e"
    if "is_quiescent (tepoch e j) \<or> tepoch e j = gepoch e" for j using that te i by auto
  show "limbo_ok (set_limbo i l e) k"
  proof (cases "k = i")
    case True
    then show ?thesis using loc act chk te' i unfolding limbo_ok_def Let_def by auto
  next
    case False
    then show ?thesis using k(2) te' i unfolding limbo_ok_def Let_def by auto
  qed
qed

lemma waiting_set:
  assumes "i < length (limbo_lists e)"
  shows "waiting (set_limbo i l e) \<subseteq> waiting e \<union> pending l"
  unfolding waiting_def set_limbo_def using set_update_subset_insert[of "limbo_lists e" i l] by auto

lemma pending_waiting: "i < length (limbo_lists e) \<Longrightarrow> pending (limbo_lists e ! i) \<subseteq> waiting e"
  unfolding waiting_def using nth_mem by blast

lemma held_ok_set:
  assumes ok: "held_ok e h" and i: "i < length (limbo_lists e)" and l: "pending l \<subseteq> pending (limbo_lists e ! i)" "thread_epoch l = tepoch e i"
  shows "held_ok (set_limbo i l e) h"
proof -
  have te: "tepoch (set_limbo i l e) k = tepoch e k" for k using i l(2) by simp
  have "waiting (set_limbo i l e) \<subseteq> waiting e" using waiting_set[OF i, of l] pending_waiting[OF i] l(1) by blast
  then show ?thesis using ok unfolding held_ok_def active_iff te by auto
qed

section \<open>Every step keeps the invariant\<close>

lemma startop_load_inv:
  assumes inv: "epoch_inv n (e, h)" and i: "i \<le> length (limbo_lists e)" "\<not> active e i"
    and run: "startop_load i nfree e = ((out, type_out), e')"
  shows "epoch_inv n (e', h)" "i < length (limbo_lists e')" "is_quiescent (tepoch e' i)" "local_epoch (limbo_lists e' ! i) = gepoch e'"
    "(Inl ` set out \<union> Inr ` set type_out) \<inter> h k = {}"
proof -
  define e1 where "e1 = with_limbo i e"
  have inv1: "epoch_inv n (e1, h)" using with_limbo_inv[OF inv] by (simp add: e1_def)
  have i1: "i < length (limbo_lists e1)" using i(1) by (auto simp: e1_def with_limbo_def)
  have q1: "is_quiescent (tepoch e1 i)" using i by (auto simp: e1_def with_limbo_def active_iff nth_append)
  define l where "l = limbo_lists e1 ! i"
  define l1 where "l1 = (if gepoch e1 \<noteq> local_epoch l
    then l\<lparr>local_epoch := gepoch e1, checked_it := 0, free_token := True, type_token := True\<rparr> else l\<lparr>local_epoch := gepoch e1\<rparr>)"
  obtain l2 l3 where l2: "limbo_free (gepoch e1) nfree l1 = (out, l2)" and l3: "limbo_type_free (gepoch e1) nfree l2 = (type_out, l3)"
    and e': "e' = set_limbo i l3 e1"
    using run by (auto simp: startop_load_def Let_def e1_def[symmetric] l_def l1_def split: prod.splits if_splits)
  note F = limbo_free_facts[OF l2] and T = limbo_type_free_facts[OF l3]
  have p1: "pending l1 = pending l" "thread_epoch l1 = thread_epoch l" "local_epoch l1 = gepoch e1"
    by (auto simp: l1_def pending_def)
  have p3: "pending l3 \<subseteq> pending l" "thread_epoch l3 = tepoch e1 i" "local_epoch l3 = gepoch e1" "checked_it l3 = checked_it l1"
    using F T p1 l_def by auto
  have oks: "\<forall>k<length (limbo_lists e1). limbo_ok e1 k" and h1: "held_ok e1 h" and g1: "\<not> is_quiescent (gepoch e1)"
    using inv1 by (simp_all add: epoch_inv_def)
  have "limbo_ok e1 i" using oks i1 by simp
  then have chk: "checked_it l1 \<le> length (limbo_lists e1)" "\<forall>k<checked_it l1. is_quiescent (tepoch e1 k) \<or> tepoch e1 k = gepoch e1"
    by (auto simp: limbo_ok_def Let_def l1_def l_def[symmetric])
  have "\<forall>k<length (limbo_lists e'). limbo_ok e' k"
    unfolding e' using oks i1 p3 q1 g1 chk by (intro limbo_ok_set) simp_all
  moreover have "held_ok e' h" unfolding e' using h1 i1 p3 l_def by (intro held_ok_set) simp_all
  ultimately show "epoch_inv n (e', h)" using inv1 by (simp add: epoch_inv_def e')
  show "i < length (limbo_lists e')" "is_quiescent (tepoch e' i)" "local_epoch (limbo_lists e' ! i) = gepoch e'"
    using i1 p3 q1 by (simp_all add: e')
  have "\<exists>b. (b, x) \<in> waiting e1 \<and> gepoch e1 - b > 4" if "x \<in> Inl ` set out \<union> Inr ` set type_out" for x
    using that F(1,2) T(2) p1(1) pending_waiting[OF i1] unfolding l_def by blast
  moreover have "\<not> gepoch e1 - b > 4" if "(b, x) \<in> waiting e1" "x \<in> h k" for b x
  proof -
    have "gepoch e1 - b \<in> {0, 2, 4}" using h1 that unfolding held_ok_def lag_def by blast
    then show ?thesis by auto
  qed
  ultimately show "(Inl ` set out \<union> Inr ` set type_out) \<inter> h k = {}" by blast
qed

lemma startop_announce_inv:
  assumes inv: "epoch_inv n (e, h)" and i: "i < length (limbo_lists e)" "is_quiescent (tepoch e i)"
    and loc: "local_epoch (limbo_lists e ! i) = gepoch e"
  shows "epoch_inv n (startop_announce i e, h)"
proof -
  let ?l = "(limbo_lists e ! i)\<lparr>thread_epoch := local_epoch (limbo_lists e ! i)\<rparr>"
  have e': "startop_announce i e = set_limbo i ?l e" by (simp add: startop_announce_def Let_def)
  have oks: "\<forall>k<length (limbo_lists e). limbo_ok e k" and h: "held_ok e h" and g: "\<not> is_quiescent (gepoch e)"
    using inv by (simp_all add: epoch_inv_def)
  have "limbo_ok e i" using oks i(1) by simp
  then have "\<forall>k<length (limbo_lists (set_limbo i ?l e)). limbo_ok (set_limbo i ?l e) k"
    using oks i(1) loc g by (intro limbo_ok_set) (auto simp: limbo_ok_def Let_def)
  moreover have "held_ok (set_limbo i ?l e) h"
  proof -
    have none: "h i = {}" using h i by (auto simp: held_ok_def active_iff)
    then have te: "tepoch (set_limbo i ?l e) k = tepoch e k" if "x \<in> h k" for k x using i(1) that by auto
    have "pending ?l = pending (limbo_lists e ! i)" by (simp add: pending_def)
    then have w: "waiting (set_limbo i ?l e) \<subseteq> waiting e" using waiting_set[OF i(1), of ?l] pending_waiting[OF i(1)] by blast
    show ?thesis
      unfolding held_ok_def
    proof (intro conjI allI impI)
      fix k assume "h k \<noteq> {}"
      then show "active (set_limbo i ?l e) k" using h none i(1) by (auto simp: held_ok_def active_iff)
    next
      fix k b x assume "(b, x) \<in> waiting (set_limbo i ?l e)" "x \<in> h k"
      then show "lag (gepoch (set_limbo i ?l e)) (tepoch (set_limbo i ?l e) k) b" using h w te by (auto simp: held_ok_def)
    qed
  qed
  ultimately show ?thesis using inv by (simp add: epoch_inv_def e')
qed

text \<open>The advance of the global epoch.\<close>

lemma advance_inv:
  assumes inv: "epoch_inv n (e, h)" and n: "Suc n < 2 ^ 63"
    and all: "\<forall>k<length (limbo_lists e). is_quiescent (tepoch e k) \<or> tepoch e k = gepoch e"
  shows "epoch_inv (Suc n) (e\<lparr>gepoch := gepoch e + 2\<rparr>, h)"
proof -
  let ?e = "e\<lparr>gepoch := gepoch e + 2\<rparr>" and ?g = "gepoch e"
  have g: "unat ?g \<le> 2 * n" "\<not> is_quiescent ?g" using inv by (simp_all add: epoch_inv_def)
  have u: "unat (?g + 2) = unat ?g + 2" using g(1) n by (subst unat_add_lem[THEN iffD1]) simp_all
  have "?g + 2 \<noteq> 1" using quiescent_simps(1) quiescent_simps(3)[OF g(2)] by metis
  moreover have "?g + 2 \<noteq> ?g" by simp
  ultimately have ne: "?g + 2 \<noteq> 1" "?g + 2 \<noteq> ?g" .
  have "limbo_ok ?e k" if k: "k < length (limbo_lists e)" for k
  proof -
    let ?l = "limbo_lists e ! k"
    have "limbo_ok e k" using inv k by (simp add: epoch_inv_def)
    then have loc: "local_epoch ?l = 1 \<or> \<not> is_quiescent (local_epoch ?l) \<and> local_epoch ?l \<le> ?g"
      and act: "\<not> is_quiescent (thread_epoch ?l) \<Longrightarrow> thread_epoch ?l = local_epoch ?l" and chk: "checked_it ?l \<le> length (limbo_lists e)"
      by (auto simp: limbo_ok_def Let_def)
    have "local_epoch ?l \<le> ?g \<Longrightarrow> local_epoch ?l < ?g + 2" using u unfolding word_less_nat_alt word_le_nat_alt by simp
    then have loc': "local_epoch ?l = 1 \<or> \<not> is_quiescent (local_epoch ?l) \<and> local_epoch ?l \<le> ?g + 2" "local_epoch ?l \<noteq> ?g + 2"
      using loc ne(1) by auto
    have "thread_epoch ?l = ?g" if "\<not> is_quiescent (thread_epoch ?l)" using all k that by blast
    then show ?thesis using loc' act chk unfolding limbo_ok_def Let_def by simp
  qed
  moreover have "held_ok ?e h"
    unfolding held_ok_def
  proof (intro conjI allI impI)
    fix k assume "h k \<noteq> {}" then show "active ?e k" using inv by (simp add: epoch_inv_def held_ok_def active_iff)
  next
    fix k b x assume w: "(b, x) \<in> waiting ?e" "x \<in> h k"
    then have "active e k" "lag ?g (tepoch e k) b" using inv unfolding epoch_inv_def held_ok_def by (auto simp: waiting_def)
    then have "tepoch e k = ?g" "?g - b \<in> {0, 2}" using all by (auto simp: active_iff lag_def)
    moreover have "?g + 2 - b = (?g - b) + 2" by simp
    ultimately show "lag (gepoch ?e) (tepoch ?e k) b" using ne(2) unfolding lag_def by auto
  qed
  ultimately show ?thesis using u g by (simp add: epoch_inv_def)
qed

lemma epoch_inv_mono: "epoch_inv n st \<Longrightarrow> n \<le> m \<Longrightarrow> epoch_inv m st"
  by (auto simp: epoch_inv_def)

text \<open>A change of the counters of the scan.\<close>

lemma scan_list_inv:
  assumes inv: "epoch_inv n (e, h)" and i: "i < length (limbo_lists e)"
    and c: "c \<le> length (limbo_lists e)"
      "local_epoch (limbo_lists e ! i) = gepoch e \<Longrightarrow> \<forall>k<c. is_quiescent (tepoch e k) \<or> tepoch e k = gepoch e"
  shows "epoch_inv n (set_limbo i ((limbo_lists e ! i)\<lparr>opcount := x, checked_it := c\<rparr>) e, h)"
proof -
  let ?l = "(limbo_lists e ! i)\<lparr>opcount := x, checked_it := c\<rparr>"
  have oks: "\<forall>k<length (limbo_lists e). limbo_ok e k" and h: "held_ok e h" using inv by (simp_all add: epoch_inv_def)
  have "limbo_ok e i" using oks i by simp
  then have "\<forall>k<length (limbo_lists (set_limbo i ?l e)). limbo_ok (set_limbo i ?l e) k"
    using oks i c by (intro limbo_ok_set) (auto simp: limbo_ok_def Let_def)
  moreover have "held_ok (set_limbo i ?l e) h" using h i by (intro held_ok_set) (simp_all add: pending_def)
  ultimately show ?thesis using inv by (simp add: epoch_inv_def)
qed

lemma startop_scan_inv:
  assumes inv: "epoch_inv n (e, h)" and i: "i < length (limbo_lists e)" and loc: "local_epoch (limbo_lists e ! i) = gepoch e"
    and n: "Suc n < 2 ^ 63"
  shows "epoch_inv (Suc n) (startop_scan i e, h)"
proof -
  let ?l = "limbo_lists e ! i" and ?g = "gepoch e"
  define c where "c = checked_it ?l"
  have "limbo_ok e i" using inv i by (simp add: epoch_inv_def)
  then have c: "c \<le> length (limbo_lists e)" "\<forall>k<c. is_quiescent (tepoch e k) \<or> tepoch e k = ?g"
    using loc by (auto simp: limbo_ok_def Let_def c_def)
  have same: "?l\<lparr>opcount := x\<rparr> = ?l\<lparr>opcount := x, checked_it := c\<rparr>" for x by (simp add: c_def)
  have keep: "epoch_inv (Suc n) (set_limbo i (?l\<lparr>opcount := x\<rparr>) e, h)" for x
    by (subst same) (rule epoch_inv_mono[OF scan_list_inv[OF inv i c(1)]], use c(2) in auto)
  define pass where "pass \<longleftrightarrow> opcount ?l + 1 = kOpThreshold \<and> c \<noteq> length (limbo_lists e) \<and>
    (real_epoch (tepoch e c) = ?g \<or> is_quiescent (tepoch e c))"
  show ?thesis
  proof (cases pass)
    case False
    then have "\<exists>x. startop_scan i e = set_limbo i (?l\<lparr>opcount := x\<rparr>) e"
      using loc by (auto simp: startop_scan_def Let_def pass_def c_def)
    then show ?thesis using keep by auto
  next
    case True
    define e1 where "e1 = set_limbo i (?l\<lparr>opcount := 0, checked_it := Suc c\<rparr>) e"
    have "is_quiescent (tepoch e c) \<or> tepoch e c = ?g"
      using True real_epoch_even[of "tepoch e c"] by (cases "is_quiescent (tepoch e c)") (auto simp: pass_def)
    then have all: "\<forall>k<Suc c. is_quiescent (tepoch e k) \<or> tepoch e k = ?g" using c(2) by (auto simp: less_Suc_eq)
    have c1: "Suc c \<le> length (limbo_lists e)" using True c(1) by (simp add: pass_def)
    have inv1: "epoch_inv n (e1, h)" unfolding e1_def using all by (intro scan_list_inv[OF inv i c1]) simp
    have run: "startop_scan i e = (if Suc c = length (limbo_lists e) then e1\<lparr>gepoch := ?g + 2\<rparr> else e1)"
      using True loc by (auto simp: startop_scan_def Let_def pass_def c_def e1_def kEpochIncrement_def)
    show ?thesis
    proof (cases "Suc c = length (limbo_lists e)")
      case True
      have "\<forall>k<length (limbo_lists e1). is_quiescent (tepoch e1 k) \<or> tepoch e1 k = gepoch e1"
        using all i True by (auto simp: e1_def)
      from advance_inv[OF inv1 n this] show ?thesis using run True by (simp add: e1_def)
    qed (use run epoch_inv_mono[OF inv1] in auto)
  qed
qed

text \<open>Retirement, for blocks and for functions.\<close>

lemma retire_inv:
  assumes inv: "epoch_inv n (e, h)" and act: "active e i" and new: "\<not> in_limbo x e"
    and l: "pending l \<subseteq> insert (local_epoch (limbo_lists e ! i), x) (aged (local_epoch (limbo_lists e ! i)) (pending (limbo_lists e ! i)))"
      "thread_epoch l = tepoch e i" "local_epoch l = local_epoch (limbo_lists e ! i)" "checked_it l = checked_it (limbo_lists e ! i)"
  shows "epoch_inv n (set_limbo i l e, hold x e h)"
proof -
  have i: "i < length (limbo_lists e)" "\<not> is_quiescent (tepoch e i)" using act by (simp_all add: active_iff)
  have oks: "\<forall>k<length (limbo_lists e). limbo_ok e k" and h: "held_ok e h" using inv by (simp_all add: epoch_inv_def)
  have oi: "limbo_ok e i" using oks i by simp
  then have b: "local_epoch (limbo_lists e ! i) = gepoch e \<or> gepoch e = local_epoch (limbo_lists e ! i) + 2"
    using i(2) by (auto simp: limbo_ok_def Let_def)
  then have lag_new: "lag (gepoch e) te (local_epoch (limbo_lists e ! i))" for te by (auto simp: lag_def)
  have "\<forall>k<length (limbo_lists (set_limbo i l e)). limbo_ok (set_limbo i l e) k"
    using oks i(1) oi l(2-4) by (intro limbo_ok_set) (auto simp: limbo_ok_def Let_def)
  moreover have te: "tepoch (set_limbo i l e) k = tepoch e k" for k using i(1) l(2) by simp
  have "held_ok (set_limbo i l e) (hold x e h)"
    unfolding held_ok_def te set_limbo_simps(1)
  proof (intro conjI allI impI)
    fix k assume "hold x e h k \<noteq> {}"
    then have "active e k" using h by (auto simp: hold_def held_ok_def split: if_splits)
    then show "active (set_limbo i l e) k" using te by (simp add: active_iff)
  next
    fix k b y assume w: "(b, y) \<in> waiting (set_limbo i l e)" "y \<in> hold x e h k"
    have "(b, y) \<in> waiting e \<or> b = local_epoch (limbo_lists e ! i)"
      using w(1) waiting_set[OF i(1), of l] l(1) pending_waiting[OF i(1)] unfolding aged_def by auto
    moreover have "y \<noteq> x \<Longrightarrow> y \<in> h k" using w(2) by (auto simp: hold_def split: if_splits)
    moreover have "(b, y) \<in> waiting e \<Longrightarrow> y \<noteq> x" using new by (force simp: in_limbo_def waiting_def)
    ultimately show "lag (gepoch e) (tepoch e k) b" using h lag_new unfolding held_ok_def by blast
  qed
  ultimately show ?thesis using inv by (simp add: epoch_inv_def)
qed

lemma endop_inv:
  assumes inv: "epoch_inv n (e, h)" and act: "active e i"
  shows "epoch_inv n (endop i e, h(i := {}))"
proof -
  let ?l = "(limbo_lists e ! i)\<lparr>thread_epoch := with_quiescent (local_epoch (limbo_lists e ! i))\<rparr>"
  have i: "i < length (limbo_lists e)" using act by (simp add: active_iff)
  have e': "endop i e = set_limbo i ?l e" using i by (simp add: endop_def with_limbo_def Let_def)
  have oks: "\<forall>k<length (limbo_lists e). limbo_ok e k" and h: "held_ok e h" using inv by (simp_all add: epoch_inv_def)
  have oi: "limbo_ok e i" using oks i by simp
  then have "\<forall>k<length (limbo_lists (set_limbo i ?l e)). limbo_ok (set_limbo i ?l e) k"
    using oks i by (intro limbo_ok_set) (auto simp: limbo_ok_def Let_def)
  moreover have te: "tepoch (set_limbo i ?l e) k = tepoch e k" if "k \<noteq> i" for k using i that by simp
  have "pending ?l = pending (limbo_lists e ! i)" by (simp add: pending_def)
  then have w: "waiting (set_limbo i ?l e) \<subseteq> waiting e" using waiting_set[OF i, of ?l] pending_waiting[OF i] by blast
  have "held_ok (set_limbo i ?l e) (h(i := {}))"
    unfolding held_ok_def
  proof (intro conjI allI impI)
    fix k assume "(h(i := {})) k \<noteq> {}"
    then have "k \<noteq> i" "active e k" using h by (auto simp: held_ok_def split: if_splits)
    then show "active (set_limbo i ?l e) k" using te by (simp add: active_iff)
  next
    fix k b x assume k: "(b, x) \<in> waiting (set_limbo i ?l e)" "x \<in> (h(i := {})) k"
    then have "k \<noteq> i" "x \<in> h k" by (auto split: if_splits)
    then show "lag (gepoch (set_limbo i ?l e)) (tepoch (set_limbo i ?l e) k) b"
      using h k(1) w te unfolding held_ok_def by auto
  qed
  ultimately show ?thesis using inv by (simp add: epoch_inv_def e')
qed

lemma startop_inv:
  assumes inv: "epoch_inv n (e, h)" and i: "i \<le> length (limbo_lists e)" "\<not> active e i" and n: "Suc n < 2 ^ 63"
    and run: "startop i nfree e = ((out, type_out), e')"
  shows "epoch_inv (Suc n) (e', h)" "(Inl ` set out \<union> Inr ` set type_out) \<inter> h k = {}"
proof -
  obtain e1 where l: "startop_load i nfree e = ((out, type_out), e1)" and e': "e' = startop_scan i (startop_announce i e1)"
    using run by (auto simp: startop_def split: prod.splits)
  note L = startop_load_inv[OF inv i l]
  have a: "epoch_inv n (startop_announce i e1, h)" using startop_announce_inv[OF L(1-4)] .
  show "epoch_inv (Suc n) (e', h)"
    unfolding e' using startop_scan_inv[OF a _ _ n, of i] L(2,4) by (simp add: startop_announce_def Let_def)
  show "(Inl ` set out \<union> Inr ` set type_out) \<inter> h k = {}" by (rule L(5))
qed

lemma epoch_step_inv:
  assumes inv: "epoch_inv n (e, h)" and step: "epoch_step (e, h) out st" and n: "Suc n < 2 ^ 63"
  shows "epoch_inv (Suc n) st \<and> (\<forall>k. out \<inter> h k = {})"
  using step
proof (cases rule: epoch_stepE[consumes 1, case_names start retire type_retire finish])
  case (start i nfree out type_out e')
  note S = startop_inv[OF inv start(3,4) n start(5)]
  show ?thesis using S start by simp
next
  case (retire i p)
  let ?l = "limbo_lists e ! i"
  have i: "i < length (limbo_lists e)" using retire by (simp add: active_iff)
  have "epoch_retire i (Some p) e = set_limbo i (limbo_add p ?l) e" using i by (simp add: epoch_retire_def with_limbo_def Let_def)
  moreover have "epoch_inv n (set_limbo i (limbo_add p ?l) e, hold (Inl p) e h)"
    using inv retire pending_add(1)[of p ?l] by (intro retire_inv) (auto simp: limbo_add_def split: prod.splits)
  ultimately show ?thesis using retire epoch_inv_mono[of n st "Suc n"] by simp
next
  case (type_retire i f)
  let ?l = "limbo_lists e ! i"
  have i: "i < length (limbo_lists e)" using type_retire by (simp add: active_iff)
  have "epoch_type_retire i f e = set_limbo i (limbo_type_add f ?l) e" using i by (simp add: epoch_type_retire_def with_limbo_def Let_def)
  moreover have "epoch_inv n (set_limbo i (limbo_type_add f ?l) e, hold (Inr f) e h)"
    using inv type_retire pending_add(2)[of f ?l] by (intro retire_inv) (auto simp: limbo_type_add_def split: prod.splits)
  ultimately show ?thesis using type_retire epoch_inv_mono[of n st "Suc n"] by simp
next
  case (finish i)
  then show ?thesis using epoch_inv_mono[OF endop_inv[OF inv finish(3)]] by auto
qed

lemma epoch_reach_inv: "epoch_reach n st \<Longrightarrow> n < 2 ^ 63 \<Longrightarrow> epoch_inv n st"
proof (induction rule: epoch_reach.induct)
  case init
  show ?case by (simp add: epoch_inv_def epoch_new_def held_ok_def is_quiescent_def)
next
  case (step n st out st')
  then have "epoch_inv n st" by simp
  then show ?case using epoch_step_inv[of n "fst st" "snd st" out st'] step by simp
qed

end
