(* ===== verification/EpochLate.thy ===== *)
theory EpochLate
  imports EpochSafety
begin
text \<open>
  A thread that announces its epoch late. The guarantee of \<open>EpochSafety\<close> needs the load of the
  global epoch and its announcement to be one step; \<open>startop\<close> has two. In the run below thread 0 loads
  epoch 0 and is delayed; thread 1 runs sixty operations, and the global epoch advances three
  times; thread 0 announces epoch 0. Thread 2 begins an operation; then thread 0 retires fourteen
  blocks, ends its operation and begins the next one.
\<close>

section \<open>The run\<close>

definition op_round :: "nat \<Rightarrow> ('p, 'f) epoch_detail \<Rightarrow> ('p, 'f) epoch_detail" where
  "op_round i e = endop i (snd (startop i kBagSize e))"

definition late_begin :: "(nat, nat) epoch_detail" where
  "late_begin = (let e = snd (startop_load 0 kBagSize epoch_new); e = (op_round 1 ^^ 60) e in snd (startop 2 kBagSize (startop_announce 0 e)))"

definition late_end :: "(nat list \<times> nat list) \<times> (nat, nat) epoch_detail" where
  "late_end = startop_load 0 kBagSize (endop 0 (fold (\<lambda>p. epoch_retire 0 (Some p)) [0..<14] late_begin))"

section \<open>Its evaluation\<close>

text \<open>Two threads: \<open>l\<close>, and one without bags between two operations.\<close>

definition duo :: "('p, 'f) limbo_list \<Rightarrow> u64 \<Rightarrow> u64 \<Rightarrow> nat \<Rightarrow> nat \<Rightarrow> ('p, 'f) epoch_detail" where
  "duo l g loc c x = \<lparr>gepoch = g, limbo_lists = [l, limbo_new\<lparr>local_epoch := loc, thread_epoch := with_quiescent loc, checked_it := c, opcount := x\<rparr>]\<rparr>"

lemma with_quiescent_idem: "with_quiescent (with_quiescent w) = with_quiescent w" "with_quiescent 0 = 1" "with_quiescent 1 = 1"
  by (simp_all add: with_quiescent_def)

lemma real_with_quiescent: "\<not> is_quiescent w \<Longrightarrow> real_epoch (with_quiescent w) = w"
  unfolding quiescent_bit real_epoch_def with_quiescent_def
  by (rule bit_word_eqI) (auto simp: bit_and_iff bit_or_iff bit_not_iff bit_1_iff intro: gr0I)

lemmas round_defs = op_round_def startop_def startop_load_def startop_announce_def startop_scan_def endop_def with_limbo_def set_limbo_def
  limbo_free_def limbo_type_free_def bags_free_def limbo_new_def duo_def Let_def kOpThreshold_def

lemma round_plain: "x < 9 \<Longrightarrow> op_round (Suc 0) (duo l g loc c x) = duo l g g (if loc = g then c else 0) (Suc x)"
  by (simp add: round_defs with_quiescent_idem)

lemma rounds_plain: "x + n < 10 \<Longrightarrow> (op_round (Suc 0) ^^ n) (duo l g g c x) = duo l g g c (x + n)"
  by (induction n) (simp_all add: round_plain)

lemma round_first:
  assumes "is_quiescent (thread_epoch l)"
  shows "op_round (Suc 0) (duo l g g 0 9) = duo l g g (Suc 0) 0"
  using assms by (simp add: round_defs with_quiescent_idem)

lemma round_advance:
  assumes "\<not> is_quiescent g"
  shows "op_round (Suc 0) (duo l g g (Suc 0) 9) = duo l (g + 2) g 2 0"
  using assms by (simp add: round_defs with_quiescent_idem real_with_quiescent real_epoch_even kEpochIncrement_def)

lemma rounds_advance:
  assumes l: "is_quiescent (thread_epoch l)" and g: "\<not> is_quiescent g" "loc \<noteq> g"
  shows "(op_round (Suc 0) ^^ 20) (duo l g loc c 0) = duo l (g + 2) g 2 0"
proof -
  have "(op_round (Suc 0) ^^ 20) (duo l g loc c 0) =
      op_round (Suc 0) ((op_round (Suc 0) ^^ 9) (op_round (Suc 0) ((op_round (Suc 0) ^^ 8) (op_round (Suc 0) (duo l g loc c 0)))))"
    by (simp add: eval_nat_numeral)
  also have "op_round (Suc 0) (duo l g loc c 0) = duo l g g 0 1" using g(2) by (simp add: round_plain)
  finally show ?thesis by (simp add: rounds_plain round_first[OF l] round_advance[OF g(1)])
qed

lemma rounds_sixty:
  assumes "is_quiescent (thread_epoch l)"
  shows "(op_round (Suc 0) ^^ 60) (duo l 0 1 0 0) = duo l 6 4 2 0"
proof -
  have q: "\<not> is_quiescent 0" "\<not> is_quiescent 2" "\<not> is_quiescent 4" by (simp_all add: is_quiescent_def)
  have "(op_round (Suc 0) ^^ (20 + (20 + 20))) (duo l 0 1 0 0) = (op_round (Suc 0) ^^ 20) ((op_round (Suc 0) ^^ 20) ((op_round (Suc 0) ^^ 20) (duo l 0 1 0 0)))"
    by (simp only: funpow_add o_apply)
  also have "\<dots> = duo l 6 4 2 0"
    using rounds_advance[OF assms q(1), of 1 0] rounds_advance[OF assms q(2), of 0 2] rounds_advance[OF assms q(3), of 2 2] by simp
  finally show ?thesis by simp
qed

lemma rounds_from_one:
  assumes "is_quiescent (thread_epoch l)"
  shows "(op_round (Suc 0) ^^ 60) \<lparr>gepoch = 0, limbo_lists = [l]\<rparr> = duo l 6 4 2 0"
proof -
  have "op_round (Suc 0) \<lparr>gepoch = 0, limbo_lists = [l]\<rparr> = op_round (Suc 0) (duo l 0 1 0 0)"
    by (simp add: round_defs with_quiescent_idem)
  then have "(op_round (Suc 0) ^^ Suc 59) \<lparr>gepoch = 0, limbo_lists = [l]\<rparr> = (op_round (Suc 0) ^^ Suc 59) (duo l 0 1 0 0)"
    by (simp only: funpow_Suc_right o_apply)
  then show ?thesis using rounds_sixty[OF assms] by simp
qed

lemma late_begin_eval:
  "late_begin = \<lparr>gepoch = 6, limbo_lists = [limbo_new\<lparr>local_epoch := 0, thread_epoch := 0\<rparr>,
     limbo_new\<lparr>local_epoch := 4, thread_epoch := 5, checked_it := 2\<rparr>, limbo_new\<lparr>local_epoch := 6, thread_epoch := 6, opcount := 1\<rparr>]\<rparr>"
proof -
  have a: "snd (startop_load 0 kBagSize epoch_new) = \<lparr>gepoch = 0, limbo_lists = [limbo_new\<lparr>local_epoch := 0\<rparr>]\<rparr>"
    by (simp add: round_defs epoch_new_def)
  have b: "(op_round (Suc 0) ^^ 60) \<lparr>gepoch = 0, limbo_lists = [limbo_new\<lparr>local_epoch := 0\<rparr>]\<rparr> = duo (limbo_new\<lparr>local_epoch := 0\<rparr>) 6 4 2 0"
    by (rule rounds_from_one) simp
  have "late_begin = snd (startop 2 kBagSize (startop_announce 0 (duo (limbo_new\<lparr>local_epoch := 0\<rparr>) 6 4 2 0)))"
    unfolding late_begin_def Let_def One_nat_def a b ..
  then show ?thesis by (simp add: round_defs with_quiescent_def)
qed

lemma late_end_eval: "fst (fst late_end) = [0..<13]" "guarded 2 (snd late_end)" "guarded 2 late_begin"
  unfolding late_end_def late_begin_eval
  by (simp_all add: epoch_retire_def limbo_add_def bags_add_def kBagSize_def upt_rec[where j = 14] upt_rec[where j = 13] guarded_def is_quiescent_def round_defs kEpochIncrement_def)

end
