(* ===== verification/Spec2Isabelle.thy ===== *)
theory Spec2Isabelle
  imports Protocol LeafMerge LeafSort TreeMap OlcMap BLinkMap EpochQueue EpochLate
begin

text \<open>
  A verification development for the index structures of this repository: the FB+-tree
  (\<open>src/FBTree\<close>), the B-tree with optimistic lock coupling (\<open>src/BTreeOLC\<close>), the B-link tree
  (\<open>src/BLinkTree\<close>), and what they are built from in \<open>src/util\<close>.

  \<^bold>\<open>The program.\<close> The FB+-tree is a B+-tree whose inner nodes store the separators of their children
  as rows of bytes (\<open>features\<close>) under a common prefix and search them with SIMD comparisons, and whose
  leaves keep unordered pairs in 64 slots with a bitmap and a one-byte tag per slot. Every node has a
  control word: a lock bit, a version, and flags. Readers validate the version, writers hold the
  lock; splits propagate upwards while the links to right siblings keep the tree searchable.
  Removed nodes go to an epoch-based reclamation. The B-tree and the B-link tree are two baselines
  with other protocols: optimistic lock coupling with restarts, and latches with links.

  \<^bold>\<open>Theories.\<close>
  \<^item> \<open>Prelude\<close>: array moves (\<open>memcpy_at\<close>, \<open>memmove_in\<close>), \<open>insert_at\<close> and \<open>remove_at\<close>, and \<open>rank\<close>, the number
    of elements below a key, in which all searches are specified. \<open>Blocks\<close>: sorted lists cut into
    blocks, for the levels of a tree.
  \<^item> \<open>Bits\<close> (\<open>util/common.h\<close>), \<open>Simd\<close> (\<open>util/simd.h\<close>), \<open>Compare\<close> (\<open>FBTree/config.h\<close>, \<open>compare.h\<close>), \<open>Keys\<close>
    (\<open>FBTree/constant.h\<close>), \<open>Hash\<close> (\<open>util/hash.h\<close>): the primitives. Machine integers are words; the
    vector registers are lists of lanes. The interface \<open>key_codec\<close> says that an encoding has a fixed length and
    keeps the order; the four integer key types interpret it.
  \<^item> \<open>Control\<close> and \<open>Protocol\<close> (\<open>FBTree/control.h\<close>), \<open>Locks\<close> (\<open>util/lock.h\<close>, \<open>OptLock\<close> of \<open>BTreeOLC.h\<close>): the
    locks. \<open>Protocol\<close> has one step relation for all of them, with any number of threads whose atomic
    updates interleave, and the interface \<open>versioned_lock\<close>, under which mutual exclusion and
    the consistency of validated reads are proved; the control word, \<open>SpinLock\<close>, \<open>VerLock\<close> and \<open>OptLock\<close>
    interpret it.
  \<^item> \<open>Leaf\<close>, \<open>LeafMerge\<close>, \<open>LeafSort\<close> (\<open>FBTree/lnode.h\<close>): a leaf is a record with its control word, bitmap,
    tags and slots; its abstraction \<open>leaf_map\<close> is the map of the pairs in use.
  \<^item> \<open>Inner\<close>, \<open>InnerSearch\<close>, \<open>InnerInsert\<close>, \<open>InnerSplit\<close> (\<open>FBTree/inode.h\<close>): an inner node is a record with
    its prefix, rows and children; \<open>seps\<close> and \<open>kids\<close> read off its separators and children.
  \<^item> \<open>Tree\<close> (\<open>FBTree/fbtree.h\<close>): the tree as a heap of nodes, with all operations of \<open>FBTree<K, V>\<close>.
    \<open>Levels\<close> has the invariant \<open>tree_ok\<close>: the leaves and every level of inner nodes from left to right,
    linked, with the high keys of one level as the separators of the next. \<open>TreeSearch\<close>,
    \<open>TreeInsert\<close>, \<open>TreeUpsert\<close> prove the operations under the interface \<open>tree_codec\<close>, which
    leaves the key type and the content of fresh memory open.
  \<^item> \<open>MapSpec\<close>: what a store promises, as the interfaces \<open>kv_store\<close>, \<open>unbounded_store\<close>, \<open>map_store\<close>
    and, for insertions that fail on present keys, \<open>link_store\<close>; the lemmas about sequences of calls are proved there once. \<open>TreeMap\<close> and \<open>OlcMap\<close> show that the trees
    implement them.
  \<^item> \<open>OlcNode\<close>, \<open>OlcTree\<close>, \<open>OlcSearch\<close>, \<open>OlcInsert\<close> (\<open>BTreeOLC/BTreeOLC.h\<close>): nodes, operations with their
    restarts, and the proofs against a ghost tree that the heap stores.
  \<^item> \<open>BLatch\<close> (\<open>BLinkTree/latch.h\<close>), \<open>BLinkNode\<close> (\<open>b_link_node.h\<close>), \<open>BLinkTree\<close> (\<open>b_link_tree.h\<close>): latches with their
    interface \<open>latch\<close>, nodes, and the operations of the tree. \<open>BLinkLevels\<close> has the invariant \<open>bltree_ok\<close>, the
    descent, and the proofs of \<open>Search\<close> and \<open>Update\<close>; \<open>BLinkInsert\<close> those of \<open>Insert\<close>, with an invariant of
    the loop that hands splits up; \<open>BLinkScan\<close> those of the scans and of the destructor. \<open>BLinkMap\<close> shows that the tree
    implements \<open>link_store\<close> for both kinds of latches.
  \<^item> \<open>EpochModel\<close>, \<open>EpochSafety\<close>, \<open>EpochQueue\<close>, \<open>EpochLate\<close> (\<open>util/epoch.h\<close>): limbo lists, announced epochs
    and reclamation; the condition under which nothing is freed early, and a run without it.

  \<^bold>\<open>Conventions.\<close> A null pointer is \<open>None\<close>. An operation whose result type is an option gives \<open>None\<close>
  where the code does not return or has no defined result: a wait for a lock that nobody will
  release, an access outside an array, a null dereference. Loops without a bound, such as
  retries, are partial functions into an option type, and the theorems state that they
  return. Memory is a map from addresses to nodes; the allocator returns the next unused address,
  and the content of fresh memory is a parameter. The trees are modelled as one thread executes them; what other
  threads can do is the subject of \<open>Protocol\<close>, \<open>Locks\<close>, \<open>BLatch\<close> and \<open>EpochSafety\<close>.

  \<^bold>\<open>Bounds.\<close> The FB+-tree has at most \<open>kMaxHeight = 13\<close> levels, as in the code, which is the only way for an \<open>upsert\<close>
  not to have room. Versions wrap around after \<open>2 ^ 40\<close>, \<open>2 ^ 47\<close> or \<open>2 ^ 62\<close> updates, epochs after \<open>2 ^ 63\<close> steps; the
  theorems on them have this as a hypothesis. No fuel is used anywhere.

  \<^bold>\<open>Not modelled.\<close> The specialisations for \<open>String\<close> keys (variable-length keys behind pointers in
  \<open>inode.h\<close>, \<open>lnode.h\<close>, \<open>fbtree.h\<close>). \<open>BTreeOLC_child_layout.h\<close>. The other baselines: \<open>ARTOLC\<close>, \<open>FAST\<close>,
  \<open>GoogleBTree\<close>, \<open>HOT\<close>, \<open>MassTree\<close>, \<open>OptiQL\<close>, \<open>STX\<close>, \<open>wormhole\<close>. Benchmarks, bindings, and the parts of
  \<open>src/util\<close> that query the machine. Memory orders: every atomic access is sequentially consistent.
\<close>

section \<open>The optimistic protocol of a node\<close>



text \<open>
  C24: In every interleaving at most one thread is between \<open>latch_exclusive\<close> and
  \<open>unlatch_exclusive\<close> of a node, and the lock bit of its control word is set while one is.
\<close>

theorem control_mutual_exclusion:
  assumes "preach control_lock (pinit (control_new lf) d) s" "is_Writing (pthr s t)"
  shows "locked (pword s) \<and> (is_Writing (pthr s t') \<longrightarrow> t' = t)"
  using ctl.mutual_exclusion[OF assms(1) _ assms(2)] by (simp add: flag_bits control_new_bits)

theorem control_mutual_exclusion_witness:
  "\<exists>w. latch_exclusive (control_new False) = Some w \<and> locked (pword (writing_state (control_new False) w (7 :: nat) :: (u64, u64, nat) pstate))"
proof -
  let ?s = "writing_state (control_new False) 2 (7 :: nat) :: (u64, u64, nat) pstate"
  have l: "latch_exclusive (control_new False) = Some 2" by code_simp
  have "preach control_lock (pinit (control_new False) 7) ?s" by (rule writing_reach) (simp add: control_lock_def l)
  moreover have "is_Writing (pthr ?s 0)" by (simp add: writing_state_def)
  ultimately show ?thesis using control_mutual_exclusion[of False 7 ?s 0 0] l by auto
qed

text \<open>
  C25: The same for \<open>OptLock\<close> of the B-tree: if the version word is unchanged at
  \<open>readUnlockOrRestart\<close>, everything read since \<open>readLockOrRestart\<close> is one consistent snapshot that is
  still current, provided fewer than \<open>2 ^ 62\<close> writers released the lock in between.
\<close>

theorem opt_validated_read:
  assumes "preach opt_vlock (pinit opt_init d) s"
    and "pthr s t = Reading v obs w0 d0 c0" "\<not> readUnlockOrRestart v (pword s)"
    and "pupds s < c0 + 2 ^ 62"
  shows "set obs \<subseteq> {d0} \<and> pdat s = d0"
  using opt.validated_read[OF assms(1) _ assms(2)] assms(3,4) by (simp add: opt_vlock_def opt_init_def bit_numeral_simps)

theorem opt_validated_read_witness:
  "readLockOrRestart opt_init = Some opt_init \<and> pdat (reading_state opt_init opt_init (7 :: nat)) = 7"
proof -
  let ?s = "reading_state opt_init opt_init (7 :: nat)"
  have b: "readLockOrRestart opt_init = Some opt_init" by code_simp
  have r: "preach opt_vlock (pinit opt_init 7) ?s" by (rule reading_reach) (simp add: opt_vlock_def b)
  have t: "pthr ?s 0 = Reading opt_init [7] opt_init 7 0" "\<not> readUnlockOrRestart opt_init (pword ?s)" "pupds ?s < 0 + 2 ^ 62"
    by (simp_all add: reading_state_def pinit_def readUnlockOrRestart_def)
  show ?thesis using opt_validated_read[OF r t] b by simp
qed



text \<open>
  C27: Among fewer than \<open>2 ^ 63\<close> users of one \<open>RSpinSharedLatch\<close>, in every interleaving of their
  atomic updates, while one holds the latch exclusively no other holds it, shared or exclusively.
\<close>

theorem rspin_exclusion:
  assumes "n < 2 ^ 63" "latch_steps (0, replicate n Away) (flag, us)"
    and "i < length us" "j < length us" "us ! i = Exclusive"
  shows "us ! j \<noteq> Shared \<and> (us ! j = Exclusive \<longrightarrow> j = i)"
  using latch_exclusion[OF assms] by blast

theorem rspin_exclusion_witness:
  "rspin_latch_exclusive 0 = Some w_latch \<and> [Exclusive, Away] ! 1 \<noteq> Shared"
proof -
  have l: "rspin_latch_exclusive 0 = Some w_latch" by code_simp
  have "latch_steps (0, replicate 2 Away) (w_latch, [Exclusive, Away])"
    using latch_step.begin_exclusive[of 0 "replicate 2 Away" 0 w_latch] l
    by (simp add: numeral_2_eq_2 r_into_rtranclp)
  from rspin_exclusion[OF _ this, of 0 1] l show ?thesis by simp
qed

section \<open>The FB+-tree is a map\<close>

text \<open>
  C1: Started from \<open>FBTree()\<close>, any sequence of \<open>lookup\<close>, \<open>upsert\<close> and \<open>update\<close> calls returns,
  and every answer is the one a finite map gives, for every key type whose encoding keeps the order
  and whatever fresh memory contains; the run stops early only before an \<open>upsert\<close> on a tree that
  already has the maximal height.
\<close>

theorem fbtree_run_refines:
  assumes "tree_codec E F" "length junk = kMaxHeight"
  shows "\<exists>rs t. impl_run (fbtree_impl E) ops (tree_new E junk) = Some (rs, t) \<and>
    rs = fst (spec_run (take (length rs) ops) Map.empty) \<and>
    (length rs = length ops \<or> (\<exists>k v. ops ! length rs = OpUpsert k v) \<and> kMaxHeight \<le> tree_depth t)"
  by (rule tree_codec.run_from_new[OF assms])

definition zero_memory :: "(u64, nat) garbage" where
  "zero_memory =
     \<lparr>g_leaf = (\<lambda>_. (0, 0, 0, None)), g_tags = (\<lambda>_ _. 0), g_kvs = (\<lambda>_ _. None), g_inner = (\<lambda>_. (0, 0, 0, None)),
      g_prefix = (\<lambda>_ _. 0), g_features = (\<lambda>_ _ _. 0), g_children = (\<lambda>_ _. None), g_junk = (\<lambda>_. 0)\<rparr>"

definition example_env :: "(u64, nat) tenv" where
  "example_env = env_of tag_u64 enc_u64 8 zero_memory"

definition example_tree :: "(u64, nat) fbtree" where
  "example_tree = tree_new example_env (replicate kMaxHeight None)"

lemma example_codec: "tree_codec example_env 8"
  unfolding example_env_def by (rule u64t.tree_codec_axioms)

lemma example_tree_ok:
  "tree_ok example_env 8 example_tree [(0, leaf_new (eraw_leaf example_env 0))] []"
  "tree_map [(0, leaf_new (eraw_leaf example_env 0))] = Map.empty"
  "tree_depth example_tree < kMaxHeight"
  using tree_codec.tree_new_ok[OF example_codec, of "replicate kMaxHeight None"]
  by (simp_all add: example_tree_def tree_new_def kMaxHeight_def)

theorem fbtree_run_refines_witness:
  "\<exists>rs t. impl_run (fbtree_impl example_env) [OpUpsert 5 1, OpUpdate 9 2, OpLookup 5] example_tree = Some (rs, t) \<and>
    rs = take (length rs) [None, None, Some 1]"
proof -
  let ?ops = "[OpUpsert 5 1, OpUpdate 9 2, OpLookup (5 :: u64)] :: (u64, nat) map_op list"
  have "fst (spec_run (take n ?ops) Map.empty) = take n [None, None, Some 1]" for n
    by (cases n; cases "n - 1"; cases "n - 2") auto
  then show ?thesis
    using fbtree_run_refines[OF example_codec, of "replicate kMaxHeight None" ?ops] unfolding example_tree_def by auto
qed

text \<open>
  C2: On a well-formed tree below the maximal height \<open>upsert\<close> returns, gives back the pair that the
  key had, leaves a well-formed tree, and the tree then holds the new pair and otherwise what it
  held, through every split of leaves, inner nodes and root that this takes.
\<close>

theorem fbtree_upsert_refines:
  assumes "tree_codec E F" "tree_ok E F t ls nss" "tree_depth t < kMaxHeight"
  shows "\<exists>t' ls' nss'. upsert E (k, v) t = Some (map_option (Pair k) (tree_map ls k), t') \<and>
    tree_ok E F t' ls' nss' \<and> tree_map ls' = (tree_map ls)(k \<mapsto> v)"
  by (rule tree_codec.upsert_spec[OF assms])

theorem fbtree_upsert_refines_witness:
  "\<exists>t' ls' nss'. upsert example_env (5, 1) example_tree = Some (None, t') \<and>
    tree_ok example_env 8 t' ls' nss' \<and> tree_map ls' = [5 \<mapsto> 1]"
  using fbtree_upsert_refines[OF example_codec example_tree_ok(1,3), of 5 1] example_tree_ok(2) by simp

text \<open>
  C11: On a well-formed tree \<open>lookup\<close> returns: the pair of the key if the tree has one, and the null
  pointer otherwise.
\<close>

theorem fbtree_lookup_refines:
  assumes "tree_codec E F" "tree_ok E F t ls nss"
  shows "lookup E k t = Some (map_option (Pair k) (tree_map ls k))"
  by (rule tree_codec.lookup_spec[OF assms])

theorem fbtree_lookup_refines_witness: "lookup example_env 5 example_tree = Some None"
  using fbtree_lookup_refines[OF example_codec example_tree_ok(1), of 5] example_tree_ok(2) by simp

text \<open>
  C12: On a well-formed tree \<open>update\<close> returns, gives back the pair that the key had, leaves a
  well-formed tree with the same inner nodes, and replaces the pair only if there was one.
\<close>

theorem fbtree_update_refines:
  assumes "tree_codec E F" "tree_ok E F t ls nss"
  shows "\<exists>t' ls'. update E (k, v) t = Some (map_option (Pair k) (tree_map ls k), t') \<and> tree_ok E F t' ls' nss \<and>
    tree_map ls' = (if tree_map ls k = None then tree_map ls else (tree_map ls)(k \<mapsto> v))"
  by (rule tree_codec.update_spec[OF assms])

theorem fbtree_update_refines_witness:
  "\<exists>t' ls'. update example_env (5, 1) example_tree = Some (None, t') \<and>
    tree_ok example_env 8 t' ls' [] \<and> tree_map ls' = Map.empty"
  using fbtree_update_refines[OF example_codec example_tree_ok(1), of 5 1] example_tree_ok(2) by simp

section \<open>The B-tree with optimistic lock coupling\<close>

text \<open>
  C3: Started from \<open>BTree()\<close>, any sequence of \<open>insert\<close> calls returns, and \<open>lookup\<close> then returns for
  every key: it finds the value inserted last under the key; under a key that was never inserted it
  leaves the result unwritten and returns whatever the uninitialised \<open>success\<close> held.
\<close>

theorem olc_run_refines:
  "\<exists>s. put_all (olc_insert (oenv_of 8 8 gk gv gp)) kvs (btree_new (oenv_of 8 8 gk gv gp)) = Some s \<and>
     (\<forall>k. olc_lookup uninit k s = Some (case map_of (rev kvs) k of Some v \<Rightarrow> (True, Some v) | None \<Rightarrow> (uninit, None)))"
  by (rule olc8.put_all_from_new)

text \<open>
  C4: On a well-formed tree \<open>insert\<close> returns after finitely many restarts, each of which splits a full
  node, and leaves a well-formed tree that holds the new pair and otherwise what it held.
\<close>

theorem olc_insert_refines:
  assumes "olc_env E cl ci" "btree_ok cl ci s t"
  shows "\<exists>s' t'. olc_insert E k v s = Some s' \<and> btree_ok cl ci s' t' \<and> gmap t' = (gmap t)(k \<mapsto> v)"
  by (rule olc_env.olc_insert_spec[OF assms])

definition example_oenv :: "(nat, nat) oenv" where
  "example_oenv = oenv_of 8 8 (\<lambda>_ _. 0) (\<lambda>_ _. 0) (\<lambda>_ _. None)"

lemma example_oenv_ok: "olc_env example_oenv (maxEntries 8 8) (maxEntries 8 8)"
  unfolding example_oenv_def by (rule olc8.olc_env_axioms)

theorem olc_insert_refines_witness:
  "\<exists>s' t'. olc_insert example_oenv 5 1 (btree_new example_oenv) = Some s' \<and>
     btree_ok (maxEntries 8 8) (maxEntries 8 8) s' t' \<and> gmap t' = [5 \<mapsto> 1]"
  using olc_insert_refines[OF example_oenv_ok olc_env.btree_new_ok(1)[OF example_oenv_ok], of 5 1]
    olc_env.btree_new_ok(2)[OF example_oenv_ok] by simp

section \<open>The B-link tree\<close>

text \<open>
  C5: Started from a new tree of any node sizes and split thresholds under which a node takes at
  least one key and is never filled, any sequence of \<open>Search\<close>, \<open>Insert\<close> and \<open>Update\<close> calls returns, with
  every latch given back. The answers are those of a map in which \<open>Insert\<close> succeeds for absent keys only
  and \<open>Update\<close> for present ones.
\<close>

theorem blink_run_refines:
  fixes t :: "('k::{linorder,zero}, 'v::zero, u64) bltree"
  assumes "t = bltree_new rspin_ops isz lsz isp lsp" "params_ok t"
  shows "\<exists>t'. calls_impl (blink_impl rspin_ops) cs t = Some (fst (calls_spec cs Map.empty), t') \<and>
    blink_rel rspin_ops t' (snd (calls_spec cs Map.empty))"
  using rspin.calls_from_new[OF assms(2)[unfolded assms(1)], of cs] unfolding assms(1) .

theorem blink_run_refines_witness:
  "\<exists>t'. calls_impl (blink_impl rspin_ops) [CallInsert 5 1, CallInsert 5 2, CallUpdate 5 3, CallUpdate 6 4, CallSearch 5]
      (bltree_new rspin_ops 4 4 0.75 0.75 :: (nat, nat, u64) bltree) =
    Some ([Inr True, Inr False, Inr True, Inr False, Inl (Some 3)], t')"
proof -
  have "params_ok (bltree_new rspin_ops 4 4 0.75 0.75 :: (nat, nat, u64) bltree)" by (simp add: params_ok_def bltree_new_def)
  from blink_run_refines[OF refl this, of "[CallInsert 5 1, CallInsert 5 2, CallUpdate 5 3, CallUpdate 6 4, CallSearch 5]"]
  show ?thesis by (auto simp: Let_def)
qed

text \<open>
  C6: On a well-formed B-link tree \<open>Insert\<close> returns, whatever splits it makes up to a new root, for
  latches of both kinds. It succeeds if and only if the key is absent, and leaves a well-formed tree that holds the new pair
  then, and otherwise what it held. An \<open>Insert\<close> that fails leaves the tree itself as it was.
\<close>

theorem blink_insert_refines:
  fixes t :: "('k::{linorder,zero}, 'v::zero, 'l) bltree"
  assumes "latch L" "bltree_ok L t ls nss"
  shows "\<exists>t' ls' nss'. Insert L k v t = Some (k \<notin> dom (bl_map ls), t') \<and> bltree_ok L t' ls' nss' \<and>
    bl_map ls' = (if k \<in> dom (bl_map ls) then bl_map ls else (bl_map ls)(k \<mapsto> v)) \<and> (k \<in> dom (bl_map ls) \<longrightarrow> t' = t)"
proof (cases "k \<in> dom (bl_map ls)")
  case True
  then have "Insert L k v t = Some (False, t)"
    using latch.Insert_present[OF assms] dom_bl_map assms(2) by (metis bltree_ok_def)
  then show ?thesis using assms(2) True by auto
qed (use latch.Insert_spec[OF assms, of k v] in auto)

theorem blink_insert_refines_witness:
  "\<exists>t' ls' nss'. Insert shared_mutex_ops 5 1 (bltree_new shared_mutex_ops 4 4 0.75 0.75 :: (nat, nat, _) bltree) = Some (True, t') \<and>
    bltree_ok shared_mutex_ops t' ls' nss' \<and> bl_map ls' = [5 \<mapsto> 1]"
proof -
  have "params_ok (bltree_new shared_mutex_ops 4 4 0.75 0.75 :: (nat, nat, _) bltree)" by (simp add: params_ok_def bltree_new_def)
  note N = bltree_new_ok[OF this]
  show ?thesis using blink_insert_refines[OF shm.latch_axioms N(1), of 5 1] unfolding N(2) by simp
qed

text \<open>
  C7: The scans of a B-link tree list the map that it holds in the order of the keys: \<open>ScanLeaf\<close> all of it,
  \<open>ScanFixed\<close> the first \<open>c\<close> pairs from a key on, \<open>ScanRange\<close> the pairs from a key on below another. They
  return false if there is no pair from the key on, and leave the tree as it was. \<open>Search\<close> and \<open>SearchUnsafe\<close>
  find what the map has.
\<close>

theorem blink_scans_list:
  assumes "latch L" "blink_rel L t m"
  shows "\<exists>ps. sorted_wrt (<) (map fst ps) \<and> map_of ps = m \<and> ScanLeaf t = Some ps \<and>
    (\<forall>k c. ScanFixed L k c t = Some (let P = filter (\<lambda>(x, _). k \<le> x) ps in if P = [] then None else Some (take c P), t)) \<and>
    (\<forall>k k'. ScanRange L k k' t =
       Some (let P = filter (\<lambda>(x, _). k \<le> x) ps in if P = [] then None else Some (filter (\<lambda>(x, _). x < k') P), t)) \<and>
    (\<forall>k. Search L k t = Some (m k, t) \<and> SearchUnsafe k t = Some (m k))"
proof -
  obtain ls nss where ok: "bltree_ok L t ls nss" "bl_map ls = m" using assms(2) by (auto simp: blink_rel_def)
  show ?thesis
    using latch.scans_list[OF assms] by (simp only: latch.Search_spec[OF assms(1) ok(1)] latch.SearchUnsafe_spec[OF assms(1) ok(1)] ok(2) simp_thms)
qed

theorem blink_scans_list_witness:
  "ScanLeaf (bltree_default rspin_ops :: (nat, nat, u64) bltree) = Some [] \<and>
   ScanFixed rspin_ops 3 2 (bltree_default rspin_ops :: (nat, nat, u64) bltree) = Some (None, bltree_default rspin_ops)"
proof -
  obtain ps where "map_of ps = (Map.empty :: nat \<Rightarrow> nat option)" "ScanLeaf (bltree_default rspin_ops :: (nat, nat, u64) bltree) = Some ps"
    "ScanFixed rspin_ops 3 2 (bltree_default rspin_ops) =
      Some (let P = filter (\<lambda>(x, _). 3 \<le> x) ps in if P = [] then None else Some (take 2 P), bltree_default rspin_ops :: (nat, nat, u64) bltree)"
    using blink_scans_list[OF rspin.latch_axioms blink_default] by blast
  moreover from this(1) have "ps = []" by (simp add: map_of_eq_empty_iff)
  ultimately show ?thesis by simp
qed

text \<open>
  C32: The destructor of a well-formed B-link tree returns, never reads a node after it was freed, and frees every node.
\<close>

theorem blink_destroy_frees:
  assumes "bltree_ok L t ls nss"
  shows "\<exists>t'. bltree_destroy t = Some t' \<and> bt_heap t' = Map.empty"
  by (rule bltree_destroy_spec[OF assms])

theorem blink_destroy_frees_witness:
  "\<exists>t'. bltree_destroy (bltree_default rspin_ops :: (nat, nat, u64) bltree) = Some t' \<and> bt_heap t' = Map.empty"
  unfolding bltree_default_def
  by (rule blink_destroy_frees, rule bltree_new_ok(1), rule bltree_default_params[unfolded bltree_default_def])

section \<open>Epoch-based reclamation\<close>





text \<open>
  C10: With \<open>startop\<close> as it is, which announces the epoch in a second step, a block can be freed
  early: there is a run in which thread 2 is inside one operation when thread 0 retires the
  blocks 0 to 12 and still is when the next \<open>startop\<close> of thread 0 frees all of them.
\<close>

theorem epoch_late_announce_frees:
  "guarded 2 late_begin \<and> fst (fst late_end) = [0..<13] \<and> guarded 2 (snd late_end)"
  using late_end_eval by blast



section \<open>Keys and comparisons\<close>

text \<open>
  C21: The bytes that an integer key is encoded into have the width of the key, and comparing them
  as signed characters, byte by byte, is comparing the keys, for the unsigned and signed keys of
  four and eight bytes.
\<close>

theorem encode_keeps_order:
  "length (enc_u64 a) = 8 \<and> (schars (enc_u64 a) < schars (enc_u64 b) \<longleftrightarrow> a < b) \<and>
   length (enc_u32 c) = 4 \<and> (schars (enc_u32 c) < schars (enc_u32 d) \<longleftrightarrow> c < d) \<and>
   length (enc_i64 x) = 8 \<and> (schars (enc_i64 x) < schars (enc_i64 y) \<longleftrightarrow> sint (raw64 x) < sint (raw64 y)) \<and>
   length (enc_i32 v) = 4 \<and> (schars (enc_i32 v) < schars (enc_i32 w) \<longleftrightarrow> sint (raw32 v) < sint (raw32 w))"
  by (simp add: u64c.enc_length u64c.enc_less u32c.enc_length u32c.enc_less i64c.enc_length i64c.enc_less
      i32c.enc_length i32c.enc_less less_i64_def less_i32_def)

text \<open>
  C22: \<open>encode_reconvert\<close> undoes \<open>encode_convert\<close>, for keys of a whole number of bytes, unsigned and
  signed.
\<close>

theorem encode_roundtrips:
  fixes key :: "'a::len word"
  assumes "8 dvd LENGTH('a)"
  shows "encode_reconvert convert_unsigned (encode_convert convert_unsigned key) = key \<and>
    encode_reconvert convert_signed (encode_convert convert_signed key) = key"
  using encode_roundtrip[OF assms, of convert_unsigned] encode_roundtrip[OF assms, of convert_signed]
  by (simp add: convert_unsigned_involution convert_signed_involution)

theorem encode_roundtrips_witness:
  "encode_convert convert_signed (5 :: u32) = 0x85808000 \<and>
   encode_reconvert convert_signed (encode_convert convert_signed (5 :: u32)) = 5"
proof -
  have "encode_convert convert_signed (5 :: u32) = 0x85808000" by code_simp
  moreover have "8 dvd LENGTH(32)" by simp
  ultimately show ?thesis using encode_roundtrips[of "5 :: u32"] by simp
qed

text \<open>
  C23: The comparisons of 64 bytes with one byte give the same mask in every SIMD mode the build can
  choose: bit \<open>i\<close> says whether byte \<open>i\<close> is equal to, or less than, the given one as signed characters.
\<close>

theorem compare_masks:
  "(bit (compare_equal_64 mode p c) i \<longleftrightarrow> i < 64 \<and> i < length p \<and> p ! i = c) \<and>
   (bit (compare_less_64 mode p c) i \<longleftrightarrow> i < 64 \<and> i < length p \<and> sint (p ! i) < sint c)"
  by (auto simp: compare_equal_64_char compare_less_64_char bit_test_mask)


section \<open>Leaf nodes\<close>

text \<open>
  A full leaf with the keys 0 to 63 in order, and two leaves with one pair each, for the examples
  below. All tags are zero.
\<close>

definition zero_tag :: "nat \<Rightarrow> byte" where "zero_tag _ = 0"
definition full_leaf :: "(nat, nat) leaf" where
  "full_leaf = \<lparr>lcontrol = set_order (control_new True), lbitmap = - 1, lhigh = 0, lsibling = None,
     ltags = replicate 64 0, lkvs = map (\<lambda>i. Some (i, i)) [0..<64]\<rparr>"
definition left_leaf :: "(nat, nat) leaf" where
  "left_leaf = \<lparr>lcontrol = set_sibling (control_new True), lbitmap = 1, lhigh = 5, lsibling = Some 1,
     ltags = replicate 64 0, lkvs = Some (5, 50) # replicate 63 None\<rparr>"
definition right_leaf :: "(nat, nat) leaf" where
  "right_leaf = \<lparr>lcontrol = control_new True, lbitmap = 2, lhigh = 0, lsibling = None,
     ltags = replicate 64 0, lkvs = None # Some (9, 90) # replicate 62 None\<rparr>"

lemma full_leaf_facts:
  "leaf_inv zero_tag full_leaf" "leaf_full full_leaf" "ordered (lcontrol full_leaf)" "leaf_kvs full_leaf = map (\<lambda>i. (i, i)) [0..<64]"
  by code_simp+

lemma pair_leaf_facts:
  "leaf_inv zero_tag left_leaf" "leaf_inv zero_tag right_leaf" "\<not> ordered (lcontrol left_leaf)" "\<not> locked (lcontrol right_leaf)"
  "\<not> deleted (lcontrol right_leaf)" "leaf_kvs left_leaf = [(5, 50)]" "leaf_kvs right_leaf = [(9, 90)]" "leaf_sized left_leaf"
  by code_simp+

text \<open>
  C18: \<open>lookup\<close> in a leaf finds the pair of the key if there is one, although it compares keys only
  where the one-byte tags agree.
\<close>

theorem leaf_lookup_refines:
  assumes "leaf_inv h l"
  shows "leaf_lookup h l k = map_option (Pair k) (leaf_map l k)"
  using assms by (intro leaf_lookup_spec) (simp add: leaf_inv_iff)

theorem leaf_lookup_refines_witness: "leaf_lookup zero_tag full_leaf 63 = Some (63, 63)"
  using leaf_lookup_refines[OF full_leaf_facts(1), of 63] by (simp add: leaf_map_def full_leaf_facts(4) map_of_map_restrict)

text \<open>
  C15: \<open>upsert\<close> in a leaf returns in every case, gives back the old pair and keeps the invariant. If
  the leaf has no slot left it is split: the two halves divide the pairs, the new one included, at
  the high key of the left half, whose encoding is the key for the parent.
\<close>

theorem leaf_upsert_refines:
  assumes "leaf_inv h l" "leaf_sized raw"
  shows "\<exists>split l'. leaf_upsert h enc rp raw (k, v) l = Some (map_option (Pair k) (leaf_map l k), split, l') \<and>
    leaf_inv h l' \<and> upsert_post h enc rp (k, v) l split l'"
  by (rule leaf_upsert_all[OF assms])

theorem leaf_upsert_refines_witness:
  "\<exists>split l'. leaf_upsert zero_tag (\<lambda>_. []) 7 left_leaf (64, 1) full_leaf = Some (None, split, l') \<and>
    leaf_inv zero_tag l' \<and> upsert_post zero_tag (\<lambda>_. []) 7 (64, 1) full_leaf split l'"
proof -
  have "leaf_map full_leaf 64 = None" unfolding leaf_map_def full_leaf_facts(4) by (simp add: map_of_eq_None_iff image_image)
  with leaf_upsert_refines[OF full_leaf_facts(1) pair_leaf_facts(8), of "\<lambda>_. []" 7 64 1] show ?thesis by simp
qed



text \<open>
  C17: \<open>kv_sort\<close> on an unordered leaf permutes its pairs, leaves them in the first slots in ascending
  order with their tags, sets the order flag and changes the version.
\<close>

theorem leaf_kv_sort_refines:
  assumes "leaf_inv h l" "\<not> ordered (lcontrol l)" "length junk = kLeafSize"
  shows "\<exists>l'. leaf_kv_sort junk l = Some l' \<and> leaf_inv h l' \<and> ordered (lcontrol l') \<and>
    mset (leaf_kvs l') = mset (leaf_kvs l) \<and> leaf_map l' = leaf_map l \<and>
    sorted_wrt (<) (map fst (leaf_kvs l')) \<and> version_of (lcontrol l') = Suc (version_of (lcontrol l)) mod 2 ^ 40"
proof -
  obtain l' where l': "leaf_kv_sort junk l = Some l'" "leaf_inv h l'" "ordered (lcontrol l')" "leaf_map l' = leaf_map l"
    "mset (leaf_kvs l') = mset (leaf_kvs l)" "lcontrol l' = update_version (set_order (lcontrol l))"
    using leaf_kv_sort_spec[of h l junk] assms by (auto simp: leaf_inv_iff flag_bits)
  have "version_of (lcontrol l') = Suc (version_of (lcontrol l)) mod 2 ^ 40"
    using assms(2) by (simp add: l'(6) version_of_update flag_bits ctl_bits)
  then show ?thesis using l' ordered_view(3)[OF l'(2,3)] by blast
qed

theorem leaf_kv_sort_refines_witness:
  "\<exists>l'. leaf_kv_sort (replicate 64 0) left_leaf = Some l' \<and> ordered (lcontrol l') \<and> mset (leaf_kvs l') = {#(5, 50)#}"
  using leaf_kv_sort_refines[OF pair_leaf_facts(1,3), of "replicate 64 0"] by (auto simp: kLeafSize_def pair_leaf_facts(6))

text \<open>
  C19: In an ordered leaf \<open>bound\<close> returns the first pair whose key is not below the given one, as
  \<open>lower_bound\<close>, whenever the leaf has such a pair, with its slot.
\<close>

theorem leaf_lower_bound:
  assumes "leaf_inv h l" "ordered (lcontrol l)" "rank key (map fst (leaf_kvs l)) < length (leaf_kvs l)"
  shows "leaf_bound h key False l = Some (Some (leaf_kvs l ! rank key (map fst (leaf_kvs l))), rank key (map fst (leaf_kvs l)))"
  using leaf_bound_cases[OF assms(1,2), of key False] assms(3) ordered_view(1)[OF assms(1,2)] by simp

theorem leaf_lower_bound_witness: "leaf_bound zero_tag 17 False full_leaf = Some (Some (17, 17), 17)"
proof -
  have r: "rank 17 (map fst (leaf_kvs full_leaf)) = 17" by code_simp
  show ?thesis using leaf_lower_bound[OF full_leaf_facts(1,3), of 17] unfolding r by (simp add: full_leaf_facts(4))
qed

text \<open>
  C20: \<open>bound\<close> as \<open>upper_bound\<close> of the greatest key of a full leaf reads the slot after the last one,
  beyond the array: the statement meant to return there builds a pair and drops it.
\<close>

theorem leaf_upper_bound_overrun:
  assumes "leaf_inv h l" "ordered (lcontrol l)" "leaf_full l" "key = fst (last (leaf_kvs l))"
  shows "leaf_bound h key True l = None"
proof -
  note v = ordered_view[OF assms(1,2)]
  have n: "popcount (lbitmap l) = 64" using assms(3) v(2) v(4)[of 63] by (fastforce simp: leaf_full_def)
  then have ne: "leaf_kvs l \<noteq> []" using v(1) by auto
  have "rank key (map fst (leaf_kvs l)) = 63"
    using rank_at[OF v(3), of 63] v(1) n ne by (simp add: assms(4) last_conv_nth)
  moreover have "key \<in> fst ` set (leaf_kvs l)" using ne by (simp add: assms(4))
  ultimately show ?thesis using leaf_bound_cases[OF assms(1,2), of key True] n by simp
qed

theorem leaf_upper_bound_overrun_witness: "leaf_bound zero_tag 63 True full_leaf = None"
proof -
  have "63 = fst (last (leaf_kvs full_leaf))" by code_simp
  from leaf_upper_bound_overrun[OF full_leaf_facts(1,3,2) this] show ?thesis .
qed


section \<open>Inner nodes\<close>

text \<open>An inner node with two one-byte separators.\<close>

definition small_inner :: inode where
  "small_inner = \<lparr>icontrol = control_new False, knum = 2, plen = 0, prefix = replicate 8 0, inext = Some 3,
     features = [10 # 20 # replicate 62 0], ichildren = Some 1 # Some 2 # replicate 62 None\<rparr>"

lemma small_inner_facts:
  "inner_inv 1 small_inner" "\<not> deleted (icontrol small_inner)" "\<not> locked (icontrol small_inner)"
  "\<not> has_sibling (icontrol small_inner)" "inner_sized 1 small_inner" "insertable 1 [15] 1 small_inner"
  by code_simp+

text \<open>
  C13: The byte-wise search of \<open>to_next\<close>, with its prefix comparison, its row of candidates per
  feature byte and its jump to the sibling, goes to the child at the number of separators below the
  key, and to the sibling when all separators are below the key and there is a sibling.
\<close>

theorem to_next_is_rank:
  assumes "inner_inv F n" "length key = F" "\<not> deleted (icontrol n)" "\<not> locked (icontrol n)"
  shows "to_next key n = Some
    (let p = rank (schars key) (sep_keys n) in if p = knum n then (has_sibling (icontrol n), inext n) else (False, ichildren n ! p))"
  using to_next_route[OF assms] by (simp add: route_def)

theorem to_next_is_rank_witness: "to_next [15] small_inner = Some (False, Some 2)"
proof -
  have "rank (schars [15]) (sep_keys small_inner) = 1" "ichildren small_inner ! 1 = Some 2" "knum small_inner = 2" by code_simp+
  with to_next_is_rank[OF small_inner_facts(1) _ small_inner_facts(2,3), of "[15]"] show ?thesis by simp
qed

text \<open>
  C14: \<open>insert\<close> of a separator and its right child into an inner node returns and keeps the invariant,
  with the prefix of the separators recomputed. If the node is full it is split: the
  separators and the children of both halves together are those of the node with the new ones.
\<close>

theorem inner_insert_refines:
  assumes "inner_inv F n" "insertable F mid index n" "inner_sized F raw"
    and "index = knum n \<Longrightarrow> \<not> has_sibling (icontrol n)"
  shows "\<exists>split n'. inner_insert rp raw lc rc mid index n = Some (split, n') \<and> inner_inv F n' \<and>
    inner_insert_post F rp lc rc mid index n split n'"
  using assms by (rule inner_insert_all)

theorem inner_insert_refines_witness:
  "\<exists>split n'. inner_insert 9 small_inner (Some 2) (Some 7) [15] 1 small_inner = Some (split, n') \<and> inner_inv 1 n' \<and>
    inner_insert_post 1 9 (Some 2) (Some 7) [15] 1 small_inner split n'"
  by (rule inner_insert_refines[OF small_inner_facts(1,6,5)]) (rule small_inner_facts)

section \<open>Nodes of the B-tree with optimistic lock coupling\<close>



text \<open>
  C30: \<open>split\<close> of a leaf with at least two pairs divides its keys and its payloads at the separator,
  which is the greatest key of the left half, and leaves room in both halves.
\<close>

theorem oleaf_split_refines:
  assumes "oleaf_inv l" "2 \<le> ol_count l"
    and "length (ol_keys raw) = length (ol_keys l)" "length (ol_payloads raw) = length (ol_keys l)"
  shows "case oleaf_split raw l of (r, sep, l') \<Rightarrow>
    oleaf_inv l' \<and> oleaf_inv r \<and> oleaf_keys l' @ oleaf_keys r = oleaf_keys l \<and> oleaf_vals l' @ oleaf_vals r = oleaf_vals l \<and>
    sep = last (oleaf_keys l') \<and> oleaf_keys l' \<noteq> [] \<and> oleaf_keys r \<noteq> [] \<and> \<not> oleaf_isFull l' \<and> \<not> oleaf_isFull r"
proof (cases "oleaf_split raw l")
  case (fields r sep l')
  from oleaf_split_spec[OF assms fields] show ?thesis by (simp add: fields)
qed

definition small_oleaf :: "(nat, nat) oleaf" where
  "small_oleaf = \<lparr>ol_lock = opt_init, ol_count = 3, ol_keys = [2, 4, 6, 0], ol_payloads = [20, 40, 60, 0]\<rparr>"

theorem oleaf_split_refines_witness:
  "case oleaf_split small_oleaf small_oleaf of (r, sep, l') \<Rightarrow>
    oleaf_inv l' \<and> oleaf_inv r \<and> oleaf_keys l' @ oleaf_keys r = [2, 4, 6] \<and> oleaf_vals l' @ oleaf_vals r = [20, 40, 60]"
proof -
  have "oleaf_inv small_oleaf" "2 \<le> ol_count small_oleaf" "oleaf_keys small_oleaf = [2, 4, 6]" "oleaf_vals small_oleaf = [20, 40, 60]"
    "length (ol_keys small_oleaf) = length (ol_keys small_oleaf)" "length (ol_payloads small_oleaf) = length (ol_keys small_oleaf)"
    by code_simp+
  with oleaf_split_refines[of small_oleaf small_oleaf] show ?thesis by (auto split: prod.splits)
qed

text \<open>
  C31: \<open>split\<close> of a full inner node moves the separator up: the keys of the node are those of the left
  half, the separator, and those of the right half; the children are divided between the halves.
\<close>

theorem oinner_split_refines:
  assumes "oinner_inv n" "oinner_isFull n" "6 \<le> length (oi_keys n)"
    and "length (oi_keys raw) = length (oi_keys n)" "length (oi_children raw) = length (oi_keys n)"
  shows "case oinner_split raw n of (r, sep, n') \<Rightarrow>
    oinner_inv n' \<and> oinner_inv r \<and> oinner_keys n = oinner_keys n' @ sep # oinner_keys r \<and>
    oinner_kids n = oinner_kids n' @ oinner_kids r \<and> \<not> oinner_isFull n' \<and> \<not> oinner_isFull r"
proof (cases "oinner_split raw n")
  case (fields r sep n')
  from oinner_split_spec[OF assms fields] show ?thesis by (simp add: fields)
qed

definition small_oinner :: "nat oinner" where
  "small_oinner = \<lparr>oi_lock = opt_init, oi_count = 5, oi_children = map Some [1, 2, 3, 4, 5, 6], oi_keys = [2, 4, 6, 8, 10, 0]\<rparr>"

theorem oinner_split_refines_witness:
  "case oinner_split small_oinner small_oinner of (r, sep, n') \<Rightarrow> [2, 4, 6, 8, 10] = oinner_keys n' @ sep # oinner_keys r"
proof -
  have "oinner_inv small_oinner" "oinner_isFull small_oinner" "6 \<le> length (oi_keys small_oinner)" "oinner_keys small_oinner = [2, 4, 6, 8, 10]"
    "length (oi_keys small_oinner) = length (oi_keys small_oinner)" "length (oi_children small_oinner) = length (oi_keys small_oinner)"
    by code_simp+
  with oinner_split_refines[of small_oinner small_oinner] show ?thesis by (auto split: prod.splits)
qed

section \<open>Nodes of the B-link tree\<close>

text \<open>
  C33: \<open>LeafInsert\<close> of a key that the node does not have puts the pair at its place. Below the split
  threshold the node takes it; otherwise the node is split, and the halves together have the keys
  and the values with the new pair, the left one linked to the right one.
\<close>

theorem LeafInsert_refines:
  assumes "bnode_inv n" "b_leaf n" "0 < b_cnt n" "thr \<le> 1" "key \<notin> set (bkeys n)" "index = NodeScan key n"
  shows "case LeafInsert L a key val index thr n of
      (n', None) \<Rightarrow> bl_safe thr n \<and> bnode_inv n' \<and> bkeys n' = insert_at index key (bkeys n) \<and>
        bvals n' = insert_at index val (bvals n) \<and> b_sibling n' = b_sibling n
    | (n', Some r) \<Rightarrow> \<not> bl_safe thr n \<and> bnode_inv n' \<and> bnode_inv r \<and> bkeys n' @ bkeys r = insert_at index key (bkeys n) \<and>
        bvals n' @ bvals r = insert_at index val (bvals n) \<and> b_sibling n' = Some a \<and> b_sibling r = b_sibling n"
proof -
  have i: "index = rank key (bkeys n)" using assms(1,6) by (simp add: NodeScan_rank)
  show ?thesis
  proof (cases "bl_safe thr n")
    case True
    from LeafInsert_safe[OF assms(1,2,4) True i assms(5), of L a val] True show ?thesis by fastforce
  next
    case False
    from LeafInsert_split[OF assms(1,2) False assms(3) i assms(5), of L a val] False show ?thesis
      by (fastforce simp: split_node_of_def)
  qed
qed

definition small_bleaf :: "(nat, nat, u64) blnode" where
  "small_bleaf = \<lparr>b_leaf = True, b_size = 4, b_cnt = 2, b_sibling = None, b_upper = None, b_keys = [2, 4, 0, 0], b_values = [20, 40, 0, 0],
     b_children = [], b_latch = 0\<rparr>"

theorem LeafInsert_refines_witness:
  "bkeys (fst (LeafInsert rspin_ops 7 3 30 1 1 small_bleaf)) = [2, 3, 4]"
proof -
  have f: "bnode_inv small_bleaf" "b_leaf small_bleaf" "0 < b_cnt small_bleaf" "3 \<notin> set (bkeys small_bleaf)" "1 = NodeScan 3 small_bleaf"
    "bkeys small_bleaf = [2, 4]" "insert_at 1 3 [2, 4 :: nat] = [2, 3, 4]" by code_simp+
  have s: "bl_safe 1 small_bleaf" by (simp add: bl_safe_def small_bleaf_def)
  show ?thesis using LeafInsert_refines[where L = rspin_ops and a = 7 and val = 30, OF f(1-3) _ f(4,5), of 1] s f(6,7)
    by (simp split: prod.splits option.splits)
qed

section \<open>Bit and size primitives\<close>

text \<open>
  C34: \<open>index_least1\<close> is the position of the lowest set bit, \<open>index_least0\<close> of the lowest clear bit and
  \<open>index_most1\<close> of the highest set bit; \<open>popcount\<close> counts the set bits.
\<close>

theorem bit_index_primitives:
  fixes n :: "'a::len word"
  shows "(index_least1 n = int i \<longleftrightarrow> bit n i \<and> {j. bit n j} \<subseteq> {i..}) \<and>
    (index_least0 n = int i \<longleftrightarrow> i < LENGTH('a) \<and> \<not> bit n i \<and> {..<i} \<subseteq> {j. bit n j}) \<and>
    (index_most1 n = int i \<longleftrightarrow> bit n i \<and> {j. bit n j} \<subseteq> {..i}) \<and> popcount n = card {j. bit n j}"
  unfolding index_least1_iff index_least0_iff index_most1_iff popcount_card subset_eq by (auto simp: not_less[symmetric])



end
